(* ===== verification/Prelude.thy ===== *)
theory Prelude
  imports Main "HOL-Library.Word" "HOL-Library.Multiset"
begin

text \<open>
  What the components share: the machine integer types of the modelled target, the
  faults an operation can end in, the error monad the operations are written in, and
  generic lemmas on words, lists and bit masks.

  The target is one with 64-bit atomics (\<^verbatim>\<open>src/src/config.rs\<close>): a short integer is
  a \<^verbatim>\<open>u32\<close>, a long one a \<^verbatim>\<open>u64\<close>, and a \<^verbatim>\<open>usize\<close> has 64 bits.
\<close>

unbundle bit_operations_syntax

section \<open>Machine integers\<close>

type_synonym ushort = "32 word"
type_synonym ulong = "64 word"
type_synonym usize = "64 word"

named_theorems word_nat "unsigned words read as natural numbers"
named_theorems ring_simps "index arithmetic of the ring buffers"
named_theorems monad_simps "the error monad"

section \<open>Faults\<close>

text \<open>
  A fault is a way an operation ends without a result: undefined behaviour that Rust
  leaves to the caller of an \<^verbatim>\<open>unsafe\<close> block (reading a slot with no live item,
  overlapping a non-overlapping copy, touching freed memory), a panic (an index out of
  range, an overflowing sum or difference, a failed assertion, a user closure that panics),
  or waiting in a spin loop for another thread when no other thread runs.
\<close>

datatype fault =
    UninitRead
  | OverlappingCopy
  | UseAfterFree
  | IndexOutOfBounds
  | ArithOverflow
  | AssertFailed
  | ClosurePanic
  | Livelock

type_synonym 'a res = "fault + 'a"

definition rbind :: "'a res \<Rightarrow> ('a \<Rightarrow> 'b res) \<Rightarrow> 'b res" where
  "rbind m f = (case m of Inl e \<Rightarrow> Inl e | Inr x \<Rightarrow> f x)"

lemma rbind_simps [simp, monad_simps]:
  "rbind (Inl e) f = Inl e"
  "rbind (Inr x) f = f x"
  by (simp_all add: rbind_def)

lemma rbind_Inr_iff [monad_simps]:
  "rbind m f = Inr y \<longleftrightarrow> (\<exists>x. m = Inr x \<and> f x = Inr y)"
  by (cases m) auto

lemma rbind_assoc: "rbind (rbind m f) g = rbind m (\<lambda>x. rbind (f x) g)"
  by (cases m) auto

lemma rbind_cong [fundef_cong]:
  "m = m' \<Longrightarrow> (\<And>x. m' = Inr x \<Longrightarrow> f x = f' x) \<Longrightarrow> rbind m f = rbind m' f'"
  by (cases m') auto

text \<open>
  Two computations correspond when they fault alike or have corresponding results; this is
  the relation refinements are stated with.
\<close>

abbreviation res_rel :: "('a \<Rightarrow> 'b \<Rightarrow> bool) \<Rightarrow> 'a res \<Rightarrow> 'b res \<Rightarrow> bool" where
  "res_rel R \<equiv> rel_sum (=) R"

lemma res_rel_bind:
  assumes "res_rel R m n" "\<And>x y. R x y \<Longrightarrow> res_rel T (f x) (g y)"
  shows "res_rel T (rbind m f) (rbind n g)"
  using assms by (cases m; cases n) auto

lemma res_rel_InrD: "res_rel R m (Inr y) \<Longrightarrow> \<exists>x. m = Inr x \<and> R x y"
  by (cases m) auto

text \<open>A computation that returns, with a result that has a property.\<close>

definition returns :: "'a res \<Rightarrow> ('a \<Rightarrow> bool) \<Rightarrow> bool" where
  "returns m Q \<longleftrightarrow> (\<exists>x. m = Inr x \<and> Q x)"

lemma returns_simps [simp]:
  "returns (Inr x) Q = Q x"
  "returns (Inl e) Q = False"
  "returns (rbind m f) Q = returns m (\<lambda>x. returns (f x) Q)"
  by (cases m; simp add: returns_def)+

lemma returns_if: "returns (if b then m else n) Q \<longleftrightarrow> (if b then returns m Q else returns n Q)"
  by simp

lemma returns_mono: "returns m Q \<Longrightarrow> (\<And>x. Q x \<Longrightarrow> R x) \<Longrightarrow> returns m R"
  by (auto simp: returns_def)

lemma returnsE:
  assumes "returns m Q"
  obtains x where "m = Inr x" "Q x"
  using assms by (auto simp: returns_def)

lemma res_rel_returns: "res_rel R m (Inr y) \<Longrightarrow> returns m (\<lambda>x. R x y)"
  by (auto simp: returns_def dest: res_rel_InrD)

text \<open>An assertion that panics when its condition is false.\<close>

definition assert_that :: "bool \<Rightarrow> unit res" where
  "assert_that b = (if b then Inr () else Inl AssertFailed)"

lemma assert_that_simps [simp]:
  "assert_that True = Inr ()"
  "assert_that False = Inl AssertFailed"
  by (simp_all add: assert_that_def)

text \<open>The plain \<open>-\<close> of Rust, which panics on overflow in a checked build.\<close>

definition checked_minus :: "'w::len word \<Rightarrow> 'w word \<Rightarrow> 'w word res" where
  "checked_minus a b = (if b \<le> a then Inr (a - b) else Inl ArithOverflow)"

text \<open>The plain \<open>+\<close> of Rust, likewise.\<close>

definition checked_plus :: "'w::len word \<Rightarrow> 'w word \<Rightarrow> 'w word res" where
  "checked_plus a b =
     (if unat a + unat b < 2 ^ LENGTH('w) then Inr (a + b) else Inl ArithOverflow)"

lemma checked_minus_ok [simp]: "b \<le> a \<Longrightarrow> checked_minus a b = Inr (a - b)"
  by (simp add: checked_minus_def)

lemma checked_plus_ok [simp]:
  "unat (a :: 'w::len word) + unat b < 2 ^ LENGTH('w) \<Longrightarrow> checked_plus a b = Inr (a + b)"
  by (simp add: checked_plus_def)

section \<open>Words as natural numbers\<close>

lemma unat_lt32 [simp]: "unat (x :: ushort) < 4294967296"
  using unsigned_less [of x] by simp

lemma unat_of_nat32 [word_nat]: "unat (word_of_nat n :: ushort) = n mod 4294967296"
  by (simp add: unat_of_nat)

lemma unat_plus32 [word_nat]: "unat (a + b :: ushort) = (unat a + unat b) mod 4294967296"
  by (simp add: unat_word_ariths)

lemma unat_minus32 [word_nat]:
  "unat (a - b :: ushort) = (unat a + (4294967296 - unat b)) mod 4294967296"
proof (cases "b \<le> a")
  case True
  then have le: "unat b \<le> unat a" by (simp add: word_le_nat_alt)
  have "(unat a + (4294967296 - unat b)) mod 4294967296
      = ((unat a - unat b) + 4294967296) mod 4294967296"
    using le unat_lt32 [of b] by (intro arg_cong [where f = "\<lambda>n. n mod 4294967296"]) linarith
  also have "\<dots> = unat a - unat b"
    using unat_lt32 [of a] by (subst mod_add_self2) (intro mod_less, linarith)
  finally show ?thesis using True by (simp add: unat_sub)
next
  case False
  then have lt: "unat a < unat b" by (simp add: word_le_nat_alt)
  have "unat (a - b) = (4294967296 + unat a) - unat b"
    using unat_sub_if' [of a b] lt by (simp add: not_le)
  then have "unat (a - b) = unat a + (4294967296 - unat b)"
    using unat_lt32 [of b] by linarith
  moreover have "unat a + (4294967296 - unat b) < 4294967296"
    using lt unat_lt32 [of b] by linarith
  ultimately show ?thesis by simp
qed

lemma unat_minus_Suc: "a \<noteq> b \<Longrightarrow> unat (a - (b + 1)) < unat (a - b :: 'w::len word)"
  by (metis add_diff_eq diff_diff_add diff_numeral_special(9) eq_iff_diff_eq_0 measure_unat)

lemma word_of_nat_diff32:
  "b \<le> a \<Longrightarrow> (word_of_nat a :: ushort) - word_of_nat b = word_of_nat (a - b)"
  by (simp add: of_nat_diff)

lemma word_of_nat_eq_near:
  assumes "(word_of_nat a :: ushort) = word_of_nat b" "b \<le> a" "a - b < 4294967296"
  shows "a = b"
proof -
  have "(word_of_nat (a - b) :: ushort) = 0"
    using assms(1,2) by (simp flip: word_of_nat_diff32)
  then have "unat (word_of_nat (a - b) :: ushort) = 0" by simp
  with assms(3) have "a - b = 0" by (simp add: unat_of_nat32)
  with assms(2) show ?thesis by simp
qed

section \<open>Lists\<close>

lemma map_upt_Suc_conv: "map f [0..<Suc n] = map f [0..<n] @ [f n]"
  by simp

lemma map_upt_drop: "map (\<lambda>i. f (k + i)) [0..<n - k] = drop k (map f [0..<n])"
  by (rule nth_equalityI) auto

lemma map_upt_take: "k \<le> n \<Longrightarrow> map f [0..<k] = take k (map f [0..<n])"
  by (simp add: take_map)

section \<open>Items in many places\<close>

definition msum :: "nat \<Rightarrow> (nat \<Rightarrow> 'j list) \<Rightarrow> 'j multiset" where
  "msum n f = (\<Sum>w < n. mset (f w))"

lemma msum_split:
  assumes "w < n"
  obtains M where "msum n f = M + mset (f w)" "\<And>x. msum n (f(w := x)) = M + mset x"
proof -
  let ?M = "\<Sum>i \<in> {..<n} - {w}. mset (f i)"
  have "msum n (f(w := x)) = ?M + mset x" for x
    using sum.remove [of "{..<n}" w "\<lambda>i. mset ((f(w := x)) i)"] assms by (simp add: msum_def)
  from that [of ?M, OF _ this] this [of "f w"] show ?thesis by simp
qed

lemma msum_splits:
  "\<exists>M. \<forall>w < n. msum n f = M w + mset (f w) \<and> (\<forall>x. msum n (f(w := x)) = M w + mset x)"
proof -
  have "\<forall>w. \<exists>M. w < n \<longrightarrow> msum n f = M + mset (f w) \<and> (\<forall>x. msum n (f(w := x)) = M + mset x)"
  proof
    fix w
    show "\<exists>M. w < n \<longrightarrow> msum n f = M + mset (f w) \<and> (\<forall>x. msum n (f(w := x)) = M + mset x)"
    proof (cases "w < n")
      case True
      then show ?thesis using msum_split [of w n f] by metis
    qed simp
  qed
  then show ?thesis by metis
qed

end
