(* ===== verification/Lib.thy ===== *)
theory Lib
  imports Prelude
begin

text \<open>
  The crate root, \<^verbatim>\<open>src/src/lib.rs\<close>: the error of an unsuccessful steal, the packing of
  two short integers into one long one (which is what lets a single compare-exchange
  move two counters at once), and the allocation of an uninitialised ring buffer.
\<close>

datatype steal_error = Empty | Busy

definition steal_error_display :: "steal_error \<Rightarrow> string" where
  "steal_error_display e =
     (case e of
        Empty \<Rightarrow> ''cannot steal from empty queue''
      | Busy \<Rightarrow> ''a concurrent steal operation is ongoing'')"

definition pack :: "ushort \<Rightarrow> ushort \<Rightarrow> ulong" where
  "pack value1 value2 = push_bit 32 (ucast value1 :: ulong) OR (ucast value2 :: ulong)"

definition unpack :: "ulong \<Rightarrow> ushort \<times> ushort" where
  "unpack value = (ucast (drop_bit 32 value), ucast value)"

text \<open>
  A slot is \<open>Some x\<close> while it holds a live item \<open>x\<close> and \<open>None\<close> while it is logically
  uninitialised: never written, or moved out.
\<close>

type_synonym 'a buffer = "'a option list"

definition allocate_buffer :: "nat \<Rightarrow> 'a buffer" where
  "allocate_buffer len = replicate len None"

lemma bit_pack:
  "bit (pack a b) n \<longleftrightarrow> (if n < 32 then bit b n else n < 64 \<and> bit a (n - 32))"
  by (auto simp: pack_def bit_simps dest: bit_imp_le_length)

lemma unpack_pack [simp]: "unpack (pack a b) = (a, b)"
proof -
  have "ucast (drop_bit 32 (pack a b)) = a"
    by (rule bit_word_eqI) (auto simp: bit_simps bit_pack)
  moreover have "ucast (pack a b) = b"
    by (rule bit_word_eqI) (auto simp: bit_simps bit_pack)
  ultimately show ?thesis by (simp add: unpack_def)
qed

lemma pack_unpack [simp]: "pack (fst (unpack v)) (snd (unpack v)) = v"
  by (rule bit_word_eqI) (auto simp: bit_pack unpack_def bit_simps)

lemma pack_inject [simp]: "pack a b = pack c d \<longleftrightarrow> a = c \<and> b = d"
proof
  assume "pack a b = pack c d"
  then have "unpack (pack a b) = unpack (pack c d)" by simp
  then show "a = c \<and> b = d" by simp
qed simp

lemma pack_eq_iff: "pack a b = v \<longleftrightarrow> unpack v = (a, b)"
  by (metis pack_unpack unpack_pack fst_conv snd_conv)

lemma pack_0_0 [simp]: "unpack 0 = (0, 0)"
  by (simp add: unpack_def)

lemma length_allocate_buffer [simp]: "length (allocate_buffer n) = n"
  by (simp add: allocate_buffer_def)

lemma nth_allocate_buffer [simp]: "i < n \<Longrightarrow> allocate_buffer n ! i = None"
  by (simp add: allocate_buffer_def)

section \<open>Properties\<close>

text \<open>
  C37. Packing two counters into one word is a bijection, and an arithmetic one: packing and
  unpacking are inverse to each other in both directions, the first counter counts in units of
  two to the 32, the second is the rest.
\<close>

theorem pack_roundtrip:
  "unpack (pack a b) = (a, b) \<and> (case unpack v of (x, y) \<Rightarrow> pack x y = v) \<and>
   unat (pack a b) = unat a * 2 ^ 32 + unat b"
proof -
  let ?a = "ucast a :: ulong" and ?b = "ucast b :: ulong"
  have t: "take_bit 64 (unat x) = unat x" for x :: ushort
    by (rule take_bit_nat_eq_self, rule order_less_trans [OF unat_lt32]) simp
  have "push_bit 32 ?a AND ?b = 0" by (rule bit_word_eqI) (auto simp: bit_simps dest: bit_imp_le_length)
  then have "pack a b = push_bit 32 ?a + ?b" by (simp add: pack_def disjunctive_add_eq_or)
  also have "\<dots> = ?a * 2 ^ 32 + ?b" by (simp add: push_bit_eq_mult)
  finally have "unat (pack a b) = (unat a * 2 ^ 32 + unat b) mod 2 ^ 64" 
    by (simp add: unat_word_ariths unsigned_ucast_eq t mod_add_left_eq)
  moreover have "unat a * 2 ^ 32 + unat b < 2 ^ 64"
    using unat_lt32 [of a] unat_lt32 [of b] by (simp del: unat_lt32)
  ultimately have "unat (pack a b) = unat a * 2 ^ 32 + unat b" by simp
  then show ?thesis using pack_unpack [of v] by (simp add: split_beta)
qed

end
