(* ===== verification/Ring.thy ===== *)
theory Ring
  imports Lib
begin

text \<open>
  The ring buffers of both queues. A position is a wrap-around short integer whose low
  bits, selected by a mask one less than the power-of-two capacity, are the index into
  the buffer. This theory has the position arithmetic, the two unsafe accessors
  \<^verbatim>\<open>read_at\<close> and \<^verbatim>\<open>write_at\<close> that \<^verbatim>\<open>lifo::Queue\<close> and \<^verbatim>\<open>fifo::Queue\<close> both have, and the
  list of live items in a range of positions.
\<close>

section \<open>Capacities\<close>

text \<open>\<^verbatim>\<open>usize::next_power_of_two\<close>: the smallest power of two at least \<open>n\<close>.\<close>

function next_pow2_from :: "nat \<Rightarrow> nat \<Rightarrow> nat" where
  "next_pow2_from p n = (if 0 < p \<and> p < n then next_pow2_from (2 * p) n else p)"
  by pat_completeness auto
termination
  by (relation "measure (\<lambda>(p, n). n - p)") auto

declare next_pow2_from.simps [simp del]

definition next_power_of_two :: "nat \<Rightarrow> nat" where
  "next_power_of_two n = next_pow2_from 1 n"

lemma next_pow2_from_spec:
  assumes "k \<le> j" "n \<le> 2 ^ j" "k = 0 \<or> 2 ^ (k - 1) < n"
  shows "\<exists>i \<le> j. next_pow2_from (2 ^ k) n = 2 ^ i \<and> n \<le> 2 ^ i \<and> (i = 0 \<or> 2 ^ (i - 1) < n)"
  using assms
proof (induction "j - k" arbitrary: k)
  case 0
  then have "\<not> 2 ^ k < n" by simp
  with 0 show ?case by (auto simp: next_pow2_from.simps [of "2 ^ k" n] intro: exI [of _ k])
next
  case (Suc d)
  show ?case
  proof (cases "2 ^ k < n")
    case True
    from Suc.hyps(2) have "d = j - Suc k" "Suc k \<le> j" by simp_all
    with Suc.hyps(1) [of "Suc k"] Suc.prems True show ?thesis
      by (simp add: next_pow2_from.simps [of "2 ^ k" n])
  next
    case False
    with Suc.prems show ?thesis
      by (auto simp: next_pow2_from.simps [of "2 ^ k" n] intro: exI [of _ k])
  qed
qed

lemma next_power_of_two_spec:
  assumes "n \<le> 2 ^ j"
  shows "\<exists>i \<le> j. next_power_of_two n = 2 ^ i \<and> n \<le> 2 ^ i \<and> (i = 0 \<or> 2 ^ (i - 1) < n)"
  using next_pow2_from_spec [of 0 j n] assms by (simp add: next_power_of_two_def)

section \<open>Positions\<close>

definition is_mask :: "ushort \<Rightarrow> bool" where
  "is_mask m \<longleftrightarrow> (\<exists>k \<le> 31. m = mask k)"

definition cap_of :: "ushort \<Rightarrow> nat" where
  "cap_of m = unat m + 1"

definition ring_idx :: "ushort \<Rightarrow> ushort \<Rightarrow> nat" where
  "ring_idx m position = unat (position AND m)"

lemma unat_mask32: "k \<le> 31 \<Longrightarrow> unat (mask k :: ushort) = 2 ^ k - 1"
proof -
  assume "k \<le> 31"
  then have "(2::nat) ^ k \<le> 2 ^ 31" by (intro power_increasing) auto
  then have "(2::nat) ^ k - 1 < 4294967296" by simp
  then have "mask k mod (4294967296 :: nat) = 2 ^ k - 1"
    by (simp add: mask_eq_exp_minus_1)
  moreover have "unat (mask k :: ushort) = mask k mod 4294967296"
    by (metis of_nat_mask_eq unat_of_nat32)
  ultimately show ?thesis by simp
qed

lemma is_mask_mask: "k \<le> 31 \<Longrightarrow> is_mask (mask k)"
  by (auto simp: is_mask_def)

lemma is_maskE:
  assumes "is_mask m"
  obtains k where "k \<le> 31" "m = mask k" "cap_of m = 2 ^ k" "unat m = 2 ^ k - 1"
  using assms by (auto simp: is_mask_def cap_of_def unat_mask32)

lemma cap_of_pos [simp]: "0 < cap_of m"
  by (simp add: cap_of_def)

lemma cap_of_le: "is_mask m \<Longrightarrow> cap_of m \<le> 2147483648"
proof (elim is_maskE)
  fix k :: nat
  assume "k \<le> 31" and c: "cap_of m = 2 ^ k"
  then have "(2::nat) ^ k \<le> 2 ^ 31" by (intro power_increasing) auto
  with c show ?thesis by simp
qed

lemma cap_of_dvd: "is_mask m \<Longrightarrow> cap_of m dvd 4294967296"
proof (elim is_maskE)
  fix k :: nat
  assume "k \<le> 31" and c: "cap_of m = 2 ^ k"
  then have "(2::nat) ^ k dvd 2 ^ 32" by (intro le_imp_power_dvd) auto
  with c show ?thesis by simp
qed

lemma ring_idx_mod: "is_mask m \<Longrightarrow> ring_idx m p = unat p mod cap_of m"
proof (elim is_maskE)
  fix k :: nat
  assume "k \<le> 31" "m = mask k" "cap_of m = 2 ^ k"
  moreover have "unat (take_bit k p) = take_bit k (unat p)"
    by (simp add: unsigned_take_bit_eq)
  ultimately show ?thesis
    by (simp add: ring_idx_def take_bit_eq_mask take_bit_eq_mod flip: take_bit_eq_mask)
qed

lemma ring_idx_less [simp]: "is_mask m \<Longrightarrow> ring_idx m p < cap_of m"
  by (simp add: ring_idx_mod)

lemma ring_idx_in_range [simp]: "is_mask m \<Longrightarrow> \<not> cap_of m \<le> ring_idx m p"
  using ring_idx_less [of m p] by linarith

lemma ring_idx_add [ring_simps]:
  assumes "is_mask m"
  shows "ring_idx m (p + word_of_nat i) = (unat p + i) mod cap_of m"
proof -
  have "ring_idx m (p + word_of_nat i) = ((unat p + i mod 4294967296) mod 4294967296) mod cap_of m"
    using assms by (simp add: ring_idx_mod unat_plus32 unat_of_nat32)
  also have "\<dots> = (unat p + i mod 4294967296) mod cap_of m"
    using cap_of_dvd [OF assms] by (rule mod_mod_cancel)
  also have "\<dots> = (unat p + (i mod 4294967296) mod cap_of m) mod cap_of m"
    by (simp add: mod_add_right_eq)
  also have "\<dots> = (unat p + i) mod cap_of m"
    using cap_of_dvd [OF assms] by (simp add: mod_mod_cancel mod_add_right_eq)
  finally show ?thesis .
qed

lemma add_mod_eq_imp_le:
  fixes i j n a :: nat
  assumes "i < n" "(a + i) mod n = (a + j) mod n"
  shows "i \<le> j"
proof (rule ccontr)
  assume "\<not> i \<le> j"
  then have "n dvd (a + i) - (a + j)" and "0 < i - j"
    using assms(2) mod_eq_dvd_iff_nat [of "a + j" "a + i" n] by simp_all
  then have "n \<le> i - j" by (simp add: dvd_imp_le)
  with assms(1) show False by simp
qed

lemma add_mod_eq_imp_eq:
  fixes i j n a :: nat
  assumes "i < n" "j < n" "(a + i) mod n = (a + j) mod n"
  shows "i = j"
  using add_mod_eq_imp_le [OF assms(1,3)] add_mod_eq_imp_le [OF assms(2) assms(3) [symmetric]]
  by simp

lemma ring_idx_inj [ring_simps]:
  assumes "is_mask m" "i < cap_of m" "j < cap_of m"
  shows "ring_idx m (p + word_of_nat i) = ring_idx m (p + word_of_nat j) \<longleftrightarrow> i = j"
  using assms add_mod_eq_imp_eq by (auto simp: ring_idx_add)

section \<open>Reading and writing a slot\<close>

text \<open>
  \<^verbatim>\<open>read_at\<close> moves the item out of its slot; with no live item there it is undefined
  behaviour. \<^verbatim>\<open>write_at\<close> overwrites whatever the slot holds (a live item there leaks).
\<close>

definition ring_read :: "'a buffer \<Rightarrow> ushort \<Rightarrow> ushort \<Rightarrow> ('a \<times> 'a buffer) res" where
  "ring_read buffer m position =
     (let index = ring_idx m position in
      if length buffer \<le> index then Inl IndexOutOfBounds
      else case buffer ! index of
             None \<Rightarrow> Inl UninitRead
           | Some item \<Rightarrow> Inr (item, buffer[index := None]))"

definition ring_write :: "'a buffer \<Rightarrow> ushort \<Rightarrow> ushort \<Rightarrow> 'a \<Rightarrow> 'a buffer res" where
  "ring_write buffer m position item =
     (let index = ring_idx m position in
      if length buffer \<le> index then Inl IndexOutOfBounds
      else Inr (buffer[index := Some item]))"

section \<open>Ranges of positions\<close>

definition slot :: "'a buffer \<Rightarrow> ushort \<Rightarrow> ushort \<Rightarrow> nat \<Rightarrow> 'a option" where
  "slot buffer m p i = buffer ! ring_idx m (p + word_of_nat i)"

text \<open>\<open>live_range\<close>: every one of the \<open>n\<close> positions from \<open>p\<close> on holds a live item.\<close>

definition live_range :: "'a buffer \<Rightarrow> ushort \<Rightarrow> ushort \<Rightarrow> nat \<Rightarrow> bool" where
  "live_range buffer m p n \<longleftrightarrow> (\<forall>i < n. slot buffer m p i \<noteq> None)"

text \<open>\<open>free_range\<close>: none of them does.\<close>

definition free_range :: "'a buffer \<Rightarrow> ushort \<Rightarrow> ushort \<Rightarrow> nat \<Rightarrow> bool" where
  "free_range buffer m p n \<longleftrightarrow> (\<forall>i < n. slot buffer m p i = None)"

definition ring_items :: "'a buffer \<Rightarrow> ushort \<Rightarrow> ushort \<Rightarrow> nat \<Rightarrow> 'a list" where
  "ring_items buffer m p n = map (\<lambda>i. the (slot buffer m p i)) [0..<n]"

definition ring_ok :: "'a buffer \<Rightarrow> ushort \<Rightarrow> bool" where
  "ring_ok buffer m \<longleftrightarrow> is_mask m \<and> length buffer = cap_of m"

lemma length_ring_items [simp]: "length (ring_items b m p n) = n"
  by (simp add: ring_items_def)

lemma ring_items_0 [simp]: "ring_items b m p 0 = []"
  by (simp add: ring_items_def)

lemma nth_ring_items [simp]: "i < n \<Longrightarrow> ring_items b m p n ! i = the (slot b m p i)"
  by (simp add: ring_items_def)

lemma slot_shift: "slot b m (p + word_of_nat k) i = slot b m p (k + i)"
  by (simp add: slot_def add.assoc)

lemma slot_0: "slot b m p 0 = b ! ring_idx m p"
  by (simp add: slot_def)

lemma ring_items_shift: "ring_items b m (p + word_of_nat k) (n - k) = drop k (ring_items b m p n)"
  by (rule nth_equalityI) (simp_all add: slot_shift)

lemma ring_items_take: "k \<le> n \<Longrightarrow> take k (ring_items b m p n) = ring_items b m p k"
  by (rule nth_equalityI) simp_all

lemma ring_items_Suc: "ring_items b m p (Suc n) = ring_items b m p n @ [the (slot b m p n)]"
  by (simp add: ring_items_def)

lemma ring_items_Cons:
  "ring_items b m p (Suc n) = the (slot b m p 0) # ring_items b m (p + 1) n"
  using slot_shift [of b m p 1]
  by (intro nth_equalityI) (auto simp: nth_Cons split: nat.splits)

lemma ring_items_add:
  "ring_items b m p (j + k) = ring_items b m p j @ ring_items b m (p + word_of_nat j) k"
  by (rule nth_equalityI) (auto simp: nth_append slot_shift)

lemma ring_items_cong:
  "(\<And>i. i < n \<Longrightarrow> slot b m p i = slot b' m p i) \<Longrightarrow> ring_items b m p n = ring_items b' m p n"
  by (rule nth_equalityI) simp_all

lemma live_range_0 [simp]: "live_range b m p 0"
  by (simp add: live_range_def)

lemma live_range_shift:
  "live_range b m p n \<Longrightarrow> k \<le> n \<Longrightarrow> live_range b m (p + word_of_nat k) (n - k)"
  by (simp add: live_range_def slot_shift)

lemma live_range_le: "live_range b m p n \<Longrightarrow> k \<le> n \<Longrightarrow> live_range b m p k"
  by (simp add: live_range_def)

lemma live_range_add:
  "live_range b m p (j + k) \<longleftrightarrow> live_range b m p j \<and> live_range b m (p + word_of_nat j) k"
  (is "?l \<longleftrightarrow> ?r")
proof
  show "?l \<Longrightarrow> ?r" by (simp add: live_range_def slot_shift)
next
  assume r: ?r
  have "slot b m p i \<noteq> None" if "i < j + k" for i
  proof (cases "i < j")
    case False
    then have "slot b m p i = slot b m (p + word_of_nat j) (i - j)" by (simp add: slot_shift)
    with r that False show ?thesis by (auto simp: live_range_def)
  qed (use r in \<open>auto simp: live_range_def\<close>)
  then show ?l by (simp add: live_range_def)
qed

lemma live_range_slot: "live_range b m p n \<Longrightarrow> i < n \<Longrightarrow> slot b m p i = Some (the (slot b m p i))"
  by (auto simp: live_range_def)

subsection \<open>Updates\<close>

lemma ring_ok_update [simp]: "ring_ok (b[i := v]) m = ring_ok b m"
  by (simp add: ring_ok_def)

lemma slot_update:
  assumes "ring_ok b m" "i < cap_of m" "j < cap_of m"
  shows "slot (b[ring_idx m (p + word_of_nat i) := v]) m p j = (if i = j then v else slot b m p j)"
  using assms by (auto simp: slot_def ring_ok_def ring_idx_inj)

lemma slot_update_idx:
  assumes "ring_ok b m" "ring_idx m p' = ring_idx m (p + word_of_nat i)" "i < cap_of m" "j < cap_of m"
  shows "slot (b[ring_idx m p' := v]) m p j = (if i = j then v else slot b m p j)"
  using slot_update [OF assms(1,3,4), of p v] assms(2) by simp

lemma ring_read_ok:
  assumes "ring_ok b m" "slot b m p i = Some x"
  shows "ring_read b m (p + word_of_nat i) = Inr (x, b[ring_idx m (p + word_of_nat i) := None])"
  using assms by (simp add: ring_read_def ring_ok_def slot_def Let_def)

lemma ring_write_ok:
  "ring_ok b m \<Longrightarrow> ring_write b m p x = Inr (b[ring_idx m p := Some x])"
  by (simp add: ring_write_def ring_ok_def Let_def)

lemma ring_items_write:
  assumes "ring_ok b m" "n < cap_of m"
  shows "ring_items (b[ring_idx m (p + word_of_nat n) := Some x]) m p (Suc n) = ring_items b m p n @ [x]"
proof -
  have "ring_items (b[ring_idx m (p + word_of_nat n) := Some x]) m p n = ring_items b m p n"
    using assms by (intro ring_items_cong) (simp add: slot_update)
  with assms show ?thesis by (simp add: ring_items_Suc slot_update)
qed

lemma live_range_write:
  assumes "ring_ok b m" "n < cap_of m" "live_range b m p n"
  shows "live_range (b[ring_idx m (p + word_of_nat n) := Some x]) m p (Suc n)"
  using assms by (auto simp: live_range_def slot_update less_Suc_eq)

lemma ring_items_update_outside:
  assumes "ring_ok b m" "n \<le> k" "k < cap_of m"
  shows "ring_items (b[ring_idx m (p + word_of_nat k) := v]) m p n = ring_items b m p n"
  using assms by (intro ring_items_cong) (simp add: slot_update)

lemma live_range_update_outside:
  assumes "ring_ok b m" "n \<le> k" "k < cap_of m"
  shows "live_range (b[ring_idx m (p + word_of_nat k) := v]) m p n = live_range b m p n"
  using assms by (simp add: live_range_def slot_update)

section \<open>What a ring holds\<close>

text \<open>
  \<open>ring_holds buffer m p xs\<close>: the live items of the ring are exactly \<open>xs\<close>, in the
  consecutive positions from \<open>p\<close> on; every other slot is free. The buffer is determined
  by \<open>p\<close> and \<open>xs\<close>, so an operation that keeps such a description neither loses nor
  duplicates an item and never touches a slot without one.
\<close>

definition ring_holds :: "'a buffer \<Rightarrow> ushort \<Rightarrow> ushort \<Rightarrow> 'a list \<Rightarrow> bool" where
  "ring_holds buffer m p xs \<longleftrightarrow>
     ring_ok buffer m \<and> length xs \<le> cap_of m \<and>
     (\<forall>i < cap_of m. slot buffer m p i = (if i < length xs then Some (xs ! i) else None))"

lemma ring_holdsD:
  assumes "ring_holds b m p xs"
  shows ring_holds_ok: "ring_ok b m" and ring_holds_len: "length xs \<le> cap_of m"
    and ring_holds_slot: "i < cap_of m \<Longrightarrow> slot b m p i = (if i < length xs then Some (xs ! i) else None)"
  using assms by (auto simp: ring_holds_def)

lemma ring_holds_items: "ring_holds b m p (xs @ ys) \<Longrightarrow> ring_items b m (p + word_of_nat (length xs)) (length ys) = ys"
  by (rule nth_equalityI) (auto simp: ring_holds_def slot_shift nth_append)

lemma ring_holds_all: "ring_holds b m p xs \<Longrightarrow> ring_items b m p (length xs) = xs"
  using ring_holds_items [of b m p "[]" xs] by simp

lemma ring_holds_live: "ring_holds b m p xs \<Longrightarrow> n \<le> length xs \<Longrightarrow> live_range b m p n"
  by (auto simp: ring_holds_def live_range_def)

lemma ring_holds_unique: "ring_holds b m p xs \<Longrightarrow> ring_holds b m p ys \<Longrightarrow> length xs = length ys \<Longrightarrow> xs = ys"
  by (metis ring_holds_all)

lemma slot_cap: "is_mask m \<Longrightarrow> slot b m p (cap_of m + i) = slot b m p i"
  using ring_idx_add [of m p "cap_of m + i"] ring_idx_add [of m p i]
  by (simp add: slot_def add.left_commute [of _ "cap_of m"])

lemma slot_mod: "is_mask m \<Longrightarrow> slot b m p i = slot b m p (i mod cap_of m)"
  by (simp add: slot_def ring_idx_add mod_add_right_eq)

lemma ring_holds_allocate:
  assumes "is_mask m"
  shows "ring_holds (allocate_buffer (cap_of m)) m p []"
  using assms by (simp add: ring_holds_def ring_ok_def slot_def)

lemma ring_holds_write:
  assumes "ring_holds b m p xs" "length xs < cap_of m"
  shows "ring_write b m (p + word_of_nat (length xs)) x = Inr (b[ring_idx m (p + word_of_nat (length xs)) := Some x])"
    and "ring_holds (b[ring_idx m (p + word_of_nat (length xs)) := Some x]) m p (xs @ [x])"
  using assms by (auto simp: ring_holds_def ring_write_ok slot_update nth_append)

lemma ring_holds_read_last:
  assumes "ring_holds b m p (xs @ [x])"
  shows "ring_read b m (p + word_of_nat (length xs)) = Inr (x, b[ring_idx m (p + word_of_nat (length xs)) := None])"
    and "ring_holds (b[ring_idx m (p + word_of_nat (length xs)) := None]) m p xs"
proof -
  have ok: "ring_ok b m" and len: "length xs < cap_of m"
    using ring_holds_len [OF assms] ring_holds_ok [OF assms] by auto
  have "slot b m p (length xs) = Some x" using ring_holds_slot [OF assms len] by simp
  with ok show "ring_read b m (p + word_of_nat (length xs)) = Inr (x, b[ring_idx m (p + word_of_nat (length xs)) := None])"
    by (rule ring_read_ok)
  show "ring_holds (b[ring_idx m (p + word_of_nat (length xs)) := None]) m p xs"
    using assms len by (auto simp: ring_holds_def slot_update nth_append)
qed

lemma ring_holds_read_first:
  assumes "ring_holds b m p (x # xs)"
  shows "ring_read b m p = Inr (x, b[ring_idx m p := None])"
    and "ring_holds (b[ring_idx m p := None]) m (p + 1) xs"
proof -
  have ok: "ring_ok b m" and len: "length xs < cap_of m" and m: "is_mask m"
    using ring_holds_len [OF assms] ring_holds_ok [OF assms] by (auto simp: ring_ok_def)
  have "slot b m p 0 = Some x" using ring_holds_slot [OF assms cap_of_pos] by simp
  with ring_read_ok [OF ok, of p 0 x] show "ring_read b m p = Inr (x, b[ring_idx m p := None])"
    by simp
  have "slot (b[ring_idx m p := None]) m (p + 1) i = (if i < length xs then Some (xs ! i) else None)"
    if i: "i < cap_of m" for i
  proof (cases "Suc i < cap_of m")
    case True
    have "slot (b[ring_idx m p := None]) m (p + 1) i = slot (b[ring_idx m (p + word_of_nat 0) := None]) m p (Suc i)"
      using slot_shift [of _ m p 1 i] by simp
    also have "\<dots> = slot b m p (Suc i)" using slot_update [OF ok cap_of_pos True] by simp
    finally show ?thesis using ring_holds_slot [OF assms True] by simp
  next
    case False
    then have ci: "cap_of m = Suc i" using i by simp
    have "slot (b[ring_idx m p := None]) m (p + 1) i = slot (b[ring_idx m (p + word_of_nat 0) := None]) m p (cap_of m + 0)"
      using slot_shift [of _ m p 1 i] ci by simp
    also have "\<dots> = None"
      using slot_update [OF ok cap_of_pos cap_of_pos, of p None] 
        slot_cap [OF m, of "b[ring_idx m (p + word_of_nat 0) := None]" p 0] by simp
    finally show ?thesis using ci len by simp
  qed
  then show "ring_holds (b[ring_idx m p := None]) m (p + 1) xs"
    using ok len by (simp add: ring_holds_def)
qed

text \<open>The indices of a range, and of the range that follows it around the ring.\<close>

lemma ring_idx_image:
  assumes "is_mask m" "i < cap_of m" "n \<le> cap_of m"
  shows "ring_idx m (p + word_of_nat i) \<in> (\<lambda>j. ring_idx m (p + word_of_nat j)) ` {0..<n} \<longleftrightarrow> i < n"
  using assms by (auto simp: ring_idx_inj)

text \<open>
  The same with holes: from position \<open>p\<close> on, the ring has the slots \<open>os\<close>, and every other
  slot is free.
\<close>

definition ring_shape :: "'a buffer \<Rightarrow> ushort \<Rightarrow> ushort \<Rightarrow> 'a option list \<Rightarrow> bool" where
  "ring_shape buffer m p os \<longleftrightarrow>
     ring_ok buffer m \<and> length os \<le> cap_of m \<and>
     (\<forall>i < cap_of m. slot buffer m p i = (if i < length os then os ! i else None))"

lemma ring_shapeD:
  assumes "ring_shape b m p os"
  shows ring_shape_ok: "ring_ok b m" and ring_shape_mask: "is_mask m" and ring_shape_len: "length os \<le> cap_of m"
    and ring_shape_slot: "i < cap_of m \<Longrightarrow> slot b m p i = (if i < length os then os ! i else None)"
  using assms by (auto simp: ring_shape_def ring_ok_def)

lemma ring_holds_shape: "ring_holds b m p xs \<longleftrightarrow> ring_shape b m p (map Some xs)"
  by (simp add: ring_holds_def ring_shape_def cong: if_cong)

lemma ring_shape_write:
  assumes "ring_shape b m p os" "length os < cap_of m"
  shows "ring_write b m (p + word_of_nat (length os)) x = Inr (b[ring_idx m (p + word_of_nat (length os)) := Some x])"
    and "ring_shape (b[ring_idx m (p + word_of_nat (length os)) := Some x]) m p (os @ [Some x])"
  using assms by (auto simp: ring_shape_def ring_write_ok slot_update nth_append)

lemma ring_shape_read:
  assumes "ring_shape b m p os" "i < length os" "os ! i = Some x"
  shows "ring_read b m (p + word_of_nat i) = Inr (x, b[ring_idx m (p + word_of_nat i) := None])"
    and "ring_shape (b[ring_idx m (p + word_of_nat i) := None]) m p (os[i := None])"
proof -
  have i: "i < cap_of m" using ring_shape_len [OF assms(1)] assms(2) by simp
  show "ring_read b m (p + word_of_nat i) = Inr (x, b[ring_idx m (p + word_of_nat i) := None])"
    using ring_read_ok [OF ring_shape_ok [OF assms(1)]] ring_shape_slot [OF assms(1) i] assms(2,3) by simp
  show "ring_shape (b[ring_idx m (p + word_of_nat i) := None]) m p (os[i := None])"
    using assms i by (auto simp: ring_shape_def slot_update nth_list_update)
qed

lemma ring_shape_shift_iff:
  assumes ok: "ring_ok b m" and n: "n + length ys \<le> cap_of m"
  shows "ring_shape b m (p + word_of_nat n) ys \<longleftrightarrow>
    (\<forall>i < cap_of m. slot b m p i = (if n \<le> i \<and> i < n + length ys then ys ! (i - n) else None))"
    (is "_ = ?r")
proof -
  have m: "is_mask m" using ok by (simp add: ring_ok_def)
  have "(\<forall>i < cap_of m. slot b m (p + word_of_nat n) i = (if i < length ys then ys ! i else None)) = ?r"
    (is "?l = ?r")
  proof
    assume l: ?l
    show ?r
    proof (intro allI impI)
      fix i assume i: "i < cap_of m"
      show "slot b m p i = (if n \<le> i \<and> i < n + length ys then ys ! (i - n) else None)"
      proof (cases "n \<le> i")
        case True
        then show ?thesis using l [rule_format, of "i - n"] i by (auto simp: slot_shift)
      next
        case False
        then have "slot b m p i = slot b m (p + word_of_nat n) (i + cap_of m - n)"
          using slot_cap [OF m, of b p i] n by (simp add: slot_shift add.commute)
        then show ?thesis using l [rule_format, of "i + cap_of m - n"] i n False by auto
      qed
    qed
  next
    assume r: ?r
    show ?l
    proof (intro allI impI)
      fix i assume i: "i < cap_of m"
      show "slot b m (p + word_of_nat n) i = (if i < length ys then ys ! i else None)"
      proof (cases "n + i < cap_of m")
        case True
        then show ?thesis using r [rule_format, of "n + i"] by (auto simp: slot_shift)
      next
        case False
        then have "slot b m (p + word_of_nat n) i = slot b m p (n + i - cap_of m)"
          using slot_cap [OF m, of b p "n + i - cap_of m"] by (simp add: slot_shift)
        then show ?thesis using r [rule_format, of "n + i - cap_of m"] i n False by auto
      qed
    qed
  qed
  with ok n show ?thesis by (simp add: ring_shape_def)
qed

lemma ring_holds_shift_iff:
  assumes "ring_ok b m" "n + length ys \<le> cap_of m"
  shows "ring_holds b m (p + word_of_nat n) ys \<longleftrightarrow>
    (\<forall>i < cap_of m. slot b m p i = (if n \<le> i \<and> i < n + length ys then Some (ys ! (i - n)) else None))"
proof -
  have "(if n \<le> i \<and> i < n + length ys then map Some ys ! (i - n) else None) =
      (if n \<le> i \<and> i < n + length ys then Some (ys ! (i - n)) else None)" for i by auto
  then show ?thesis
    using ring_shape_shift_iff [of b m n "map Some ys" p] assms by (simp add: ring_holds_shape cong: if_cong)
qed

text \<open>Free slots at the front can be left out.\<close>

lemma ring_shape_skip:
  assumes "ring_shape b m p (replicate n None @ os)"
  shows "ring_shape b m (p + word_of_nat n) os"
  using ring_shape_shift_iff [of b m n os p] assms by (auto simp: ring_shape_def nth_append)

lemma ring_holds_empty:
  assumes "ring_holds b m p []" "i < cap_of m"
  shows "b ! i = None"
proof -
  have m: "is_mask m" using assms(1) by (simp add: ring_holds_def ring_ok_def)
  let ?j = "i + cap_of m - unat p mod cap_of m"
  have lt: "unat p mod cap_of m < cap_of m" by simp
  have "(unat p + ?j) mod cap_of m = (unat p mod cap_of m + ?j) mod cap_of m" by (simp add: mod_add_left_eq)
  also have "unat p mod cap_of m + ?j = i + cap_of m" using lt by linarith
  finally have "ring_idx m (p + word_of_nat ?j) = i"
    using assms(2) ring_idx_add [OF m, of p ?j] by simp
  then have "b ! i = slot b m p ?j" by (simp only: slot_def)
  also have "\<dots> = slot b m p (?j mod cap_of m)" by (rule slot_mod [OF m])
  also have "\<dots> = None" using ring_holds_slot [OF assms(1)] by simp
  finally show ?thesis .
qed

end
