(* ===== verification/Bulk_Transfer.thy ===== *)
theory Bulk_Transfer
  imports Ring
begin

text \<open>
  The bulk transfer of stolen items between ring buffers, \<^verbatim>\<open>src/src/transfer.rs\<close>. Buffers
  live in a store indexed by address, because a stealer may steal into the queue it
  steals from and then both buffers are one. \<open>transfer_items\<close> is the shipped segmented
  copy, \<open>transfer_items_scalar\<close> the per-element reference; they agree, and neither
  faults, whenever the caller's obligations hold.
\<close>

section \<open>Model\<close>

type_synonym 'a store = "nat \<Rightarrow> 'a buffer"

definition SMALL_CHUNK :: nat where
  "SMALL_CHUNK = 8"

text \<open>One raw move: \<^verbatim>\<open>dst_base.add(di).write(src_base.add(si).read())\<close>.\<close>

definition move_slot :: "'a store \<Rightarrow> nat \<Rightarrow> nat \<Rightarrow> nat \<Rightarrow> nat \<Rightarrow> 'a store res" where
  "move_slot M src si dst di =
     (if length (M src) \<le> si \<or> length (M dst) \<le> di then Inl IndexOutOfBounds
      else case M src ! si of
             None \<Rightarrow> Inl UninitRead
           | Some item \<Rightarrow>
               let M' = M(src := (M src)[si := None])
               in Inr (M'(dst := (M' dst)[di := Some item])))"

text \<open>A loop of raw moves, with the slot indices of the \<open>i\<close>-th one given by \<open>f\<close> and \<open>g\<close>.\<close>

fun move_each :: "nat \<Rightarrow> (nat \<Rightarrow> nat) \<Rightarrow> nat \<Rightarrow> (nat \<Rightarrow> nat) \<Rightarrow> nat list \<Rightarrow> 'a store \<Rightarrow> 'a store res" where
  "move_each src f dst g [] M = Inr M"
| "move_each src f dst g (i # is) M = rbind (move_slot M src (f i) dst (g i)) (move_each src f dst g is)"

text \<open>A block of a buffer overwritten in place.\<close>

definition overwrite :: "'a list \<Rightarrow> nat \<Rightarrow> 'a list \<Rightarrow> 'a list" where
  "overwrite xs d vals = take d xs @ vals @ drop (d + length vals) xs"

text \<open>
  \<^verbatim>\<open>ptr::copy_nonoverlapping\<close> as a relocation: the source slots are uninitialised
  afterwards, and overlapping ranges are undefined behaviour.
\<close>

definition copy_nonoverlapping :: "'a store \<Rightarrow> nat \<Rightarrow> nat \<Rightarrow> nat \<Rightarrow> nat \<Rightarrow> nat \<Rightarrow> 'a store res" where
  "copy_nonoverlapping M src s dst d len =
     (if length (M src) < s + len \<or> length (M dst) < d + len then Inl IndexOutOfBounds
      else if src = dst \<and> \<not> (s + len \<le> d \<or> d + len \<le> s) then Inl OverlappingCopy
      else
        let vals = take len (drop s (M src));
            M' = M(src := overwrite (M src) s (replicate len None))
        in Inr (M'(dst := overwrite (M' dst) d vals)))"

text \<open>The chunks' disjointness that a checked build asserts when self-stealing.\<close>

definition chunks_disjoint :: "nat \<Rightarrow> nat \<Rightarrow> nat \<Rightarrow> nat \<Rightarrow> (nat \<times> nat) list \<Rightarrow> bool" where
  "chunks_disjoint cap src_idx dcap dst_idx chunks =
     list_all (\<lambda>(a_start, a_end).
       let a0 = (src_idx + a_start) AND (cap - 1); al = a_end - a_start in
       list_all (\<lambda>(b_start, b_end).
         let b0 = (dst_idx + b_start) AND (dcap - 1); bl = b_end - b_start in
         a0 + al \<le> b0 \<or> b0 + bl \<le> a0) chunks) chunks"

fun transfer_chunks ::
  "nat \<Rightarrow> nat \<Rightarrow> nat \<Rightarrow> nat \<Rightarrow> nat \<Rightarrow> nat \<Rightarrow> (nat \<times> nat) list \<Rightarrow> 'a store \<Rightarrow> 'a store res" where
  "transfer_chunks src cap src_idx dst dcap dst_idx [] M = Inr M"
| "transfer_chunks src cap src_idx dst dcap dst_idx ((start, stop) # cs) M =
     (let len = stop - start in
      if len = 0 then transfer_chunks src cap src_idx dst dcap dst_idx cs M
      else
        let src_chunk = (src_idx + start) AND (cap - 1);
            dst_chunk = (dst_idx + start) AND (dcap - 1)
        in rbind
             (if len \<le> SMALL_CHUNK
              then move_each src (\<lambda>i. src_chunk + i) dst (\<lambda>i. dst_chunk + i) [0..<len] M
              else copy_nonoverlapping M src src_chunk dst dst_chunk len)
             (transfer_chunks src cap src_idx dst dcap dst_idx cs))"

definition is_power_of_two :: "nat \<Rightarrow> bool" where
  "is_power_of_two n \<longleftrightarrow> 0 < n \<and> n AND (n - 1) = 0"

definition transfer_items ::
  "'a store \<Rightarrow> nat \<Rightarrow> ushort \<Rightarrow> ushort \<Rightarrow> nat \<Rightarrow> ushort \<Rightarrow> ushort \<Rightarrow> ushort \<Rightarrow> 'a store res" where
  "transfer_items M src_buffer src_mask src_pos dst_buffer dst_mask dst_pos cnt =
     (let cap = unat src_mask + 1;
          dcap = unat dst_mask + 1;
          src_idx = unat (src_pos AND src_mask);
          dst_idx = unat (dst_pos AND dst_mask);
          n = unat cnt
      in rbind (assert_that (cap = length (M src_buffer) \<and> dcap = length (M dst_buffer))) (\<lambda>_.
         rbind (assert_that (is_power_of_two cap \<and> is_power_of_two dcap)) (\<lambda>_.
         if n \<le> 1 then
           (if n = 1 then move_slot M src_buffer src_idx dst_buffer dst_idx else Inr M)
         else
           let s = min (cap - src_idx) n;
               d = min (dcap - dst_idx) n;
               (lo, hi) = (if s \<le> d then (s, d) else (d, s))
           in rbind (assert_that (src_buffer \<noteq> dst_buffer \<or>
                       chunks_disjoint cap src_idx dcap dst_idx [(0, lo), (lo, hi), (hi, n)])) (\<lambda>_.
              transfer_chunks src_buffer cap src_idx dst_buffer dcap dst_idx
                [(0, lo), (lo, hi), (hi, n)] M))))"

definition transfer_items_scalar ::
  "'a store \<Rightarrow> nat \<Rightarrow> ushort \<Rightarrow> ushort \<Rightarrow> nat \<Rightarrow> ushort \<Rightarrow> ushort \<Rightarrow> ushort \<Rightarrow> 'a store res" where
  "transfer_items_scalar M src_buffer src_mask src_pos dst_buffer dst_mask dst_pos cnt =
     move_each src_buffer (\<lambda>offset. unat ((src_pos + word_of_nat offset) AND src_mask))
       dst_buffer (\<lambda>offset. unat ((dst_pos + word_of_nat offset) AND dst_mask))
       [0..<unat cnt] M"

section \<open>Relocation\<close>

text \<open>What a caller may do: indices in range, items live, no slot on both sides.\<close>

definition movable :: "'a store \<Rightarrow> nat \<Rightarrow> (nat \<Rightarrow> nat) \<Rightarrow> nat \<Rightarrow> (nat \<Rightarrow> nat) \<Rightarrow> nat set \<Rightarrow> bool" where
  "movable M src f dst g I \<longleftrightarrow>
     inj_on f I \<and> inj_on g I \<and>
     (\<forall>i\<in>I. f i < length (M src) \<and> g i < length (M dst) \<and> M src ! f i \<noteq> None) \<and>
     (src = dst \<longrightarrow> f ` I \<inter> g ` I = {})"

text \<open>What the move of the offsets \<open>I\<close> does to the store.\<close>

definition relocated ::
  "'a store \<Rightarrow> nat \<Rightarrow> (nat \<Rightarrow> nat) \<Rightarrow> nat \<Rightarrow> (nat \<Rightarrow> nat) \<Rightarrow> nat set \<Rightarrow> 'a store \<Rightarrow> bool" where
  "relocated M src f dst g I M' \<longleftrightarrow>
     (\<forall>a. length (M' a) = length (M a)) \<and>
     (\<forall>i\<in>I. M' dst ! g i = M src ! f i) \<and>
     (\<forall>a k. k < length (M a) \<longrightarrow> \<not> (a = dst \<and> k \<in> g ` I) \<longrightarrow>
        M' a ! k = (if a = src \<and> k \<in> f ` I then None else M a ! k))"

lemma relocatedD:
  assumes "relocated M src f dst g I M'"
  shows relocated_len: "length (M' a) = length (M a)"
    and relocated_dst: "i \<in> I \<Longrightarrow> M' dst ! g i = M src ! f i"
    and relocated_other: "k < length (M a) \<Longrightarrow> \<not> (a = dst \<and> k \<in> g ` I) \<Longrightarrow>
      M' a ! k = (if a = src \<and> k \<in> f ` I then None else M a ! k)"
  using assms unfolding relocated_def by blast+

lemma movableD:
  assumes "movable M src f dst g I" "i \<in> I"
  shows movable_src: "f i < length (M src)" and movable_dst: "g i < length (M dst)"
    and movable_live: "M src ! f i \<noteq> None"
    and movable_apart: "src = dst \<Longrightarrow> f i \<notin> g ` I" "src = dst \<Longrightarrow> g i \<notin> f ` I"
  using assms unfolding movable_def by blast+

lemma movable_inj: "movable M src f dst g I \<Longrightarrow> inj_on f I \<and> inj_on g I"
  by (simp add: movable_def)

lemma inj_on_disjoint_image: "inj_on f (I \<union> J) \<Longrightarrow> I \<inter> J = {} \<Longrightarrow> j \<in> J \<Longrightarrow> f j \<notin> f ` I"
  by (auto dest: inj_onD)

lemma relocated_unique:
  assumes "relocated M src f dst g I M1" "relocated M src f dst g I M2"
  shows "M1 = M2"
proof (intro ext nth_equalityI)
  fix a
  show "length (M1 a) = length (M2 a)" using assms by (simp add: relocated_len)
next
  fix a k
  assume "k < length (M1 a)"
  then have k: "k < length (M a)" using assms(1) by (simp add: relocated_len)
  show "M1 a ! k = M2 a ! k"
  proof (cases "a = dst \<and> k \<in> g ` I")
    case True
    then obtain i where "i \<in> I" "k = g i" "a = dst" by blast
    then show ?thesis by (simp add: relocated_dst [OF assms(1)] relocated_dst [OF assms(2)])
  next
    case False
    then show ?thesis
      using relocated_other [OF assms(1) k] relocated_other [OF assms(2) k] by simp
  qed
qed

lemma relocated_empty: "relocated M src f dst g {} M"
  by (simp add: relocated_def)

lemma movable_subset: "movable M src f dst g I \<Longrightarrow> J \<subseteq> I \<Longrightarrow> movable M src f dst g J"
  unfolding movable_def by (blast intro: inj_on_subset)

text \<open>Moving one part of the offsets leaves the rest movable, and the two moves compose.\<close>

lemma reloc_keeps_src:
  assumes mv: "movable M src f dst g (I \<union> J)" and dj: "I \<inter> J = {}"
    and r1: "relocated M src f dst g I M1" and j: "j \<in> J"
  shows "M1 src ! f j = M src ! f j"
proof -
  have "f j \<notin> f ` I" using movable_inj [OF mv] dj j by (blast dest: inj_on_disjoint_image)
  moreover have "\<not> (src = dst \<and> f j \<in> g ` I)" using mv j unfolding movable_def by blast
  moreover have "f j < length (M src)" using movable_src [OF mv, of j] j by simp
  ultimately show ?thesis by (simp add: relocated_other [OF r1, of "f j" src])
qed

lemma relocated_movable:
  assumes mv: "movable M src f dst g (I \<union> J)" and dj: "I \<inter> J = {}"
    and r1: "relocated M src f dst g I M1"
  shows "movable M1 src f dst g J"
proof -
  have sub: "movable M src f dst g J" by (rule movable_subset [OF mv]) simp
  have "M1 src ! f j \<noteq> None" if "j \<in> J" for j
    using reloc_keeps_src [OF mv dj r1 that] movable_live [OF sub that] by simp
  then show ?thesis using sub unfolding movable_def by (simp add: relocated_len [OF r1])
qed

lemma reloc_keeps_dst:
  assumes mv: "movable M src f dst g (I \<union> J)" and dj: "I \<inter> J = {}"
    and len: "length (M1 dst) = length (M dst)"
    and r2: "relocated M1 src f dst g J M2" and i: "i \<in> I"
  shows "M2 dst ! g i = M1 dst ! g i"
proof -
  have "g i \<notin> g ` J"
    using movable_inj [OF mv] dj i inj_on_disjoint_image [of g J I i] by (simp add: ac_simps)
  moreover have "\<not> (dst = src \<and> g i \<in> f ` J)" using mv i unfolding movable_def by blast
  moreover have "g i < length (M1 dst)" using movable_dst [OF mv, of i] i len by simp
  ultimately show ?thesis by (auto simp: relocated_other [OF r2, of "g i" dst])
qed

lemma relocated_compose:
  assumes mv: "movable M src f dst g (I \<union> J)" and dj: "I \<inter> J = {}"
    and r1: "relocated M src f dst g I M1" and r2: "relocated M1 src f dst g J M2"
  shows "relocated M src f dst g (I \<union> J) M2"
proof -
  have len: "length (M2 a) = length (M a)" for a
    by (simp add: relocated_len [OF r1] relocated_len [OF r2])
  have dstI: "M2 dst ! g i = M src ! f i" if "i \<in> I" for i
    using that reloc_keeps_dst [OF mv dj relocated_len [OF r1] r2 that]
    by (simp add: relocated_dst [OF r1])
  have dstJ: "M2 dst ! g j = M src ! f j" if "j \<in> J" for j
    using that by (simp add: relocated_dst [OF r2] reloc_keeps_src [OF mv dj r1])
  have "M2 a ! k = (if a = src \<and> k \<in> f ` (I \<union> J) then None else M a ! k)"
    if k: "k < length (M a)" and no: "\<not> (a = dst \<and> k \<in> g ` (I \<union> J))" for a k
  proof -
    have k1: "k < length (M1 a)" using k by (simp add: relocated_len [OF r1])
    have "M2 a ! k = (if a = src \<and> k \<in> f ` J then None else M1 a ! k)"
      by (rule relocated_other [OF r2 k1]) (use no in blast)
    moreover have "M1 a ! k = (if a = src \<and> k \<in> f ` I then None else M a ! k)"
      by (rule relocated_other [OF r1 k]) (use no in blast)
    ultimately show ?thesis by (auto simp: image_Un)
  qed
  with len dstI dstJ show ?thesis unfolding relocated_def by blast
qed

lemma move_slot_relocated:
  assumes "movable M src f dst g {i}"
  shows "\<exists>M'. move_slot M src (f i) dst (g i) = Inr M' \<and> relocated M src f dst g {i} M'"
proof -
  obtain x where x: "M src ! f i = Some x" using assms by (auto simp: movable_def)
  have "relocated M src f dst g {i}
     ((M(src := (M src)[f i := None]))(dst := ((M(src := (M src)[f i := None])) dst)[g i := Some x]))"
    using assms x by (auto simp: relocated_def movable_def nth_list_update)
  with assms x show ?thesis by (simp add: move_slot_def movable_def)
qed

lemma move_each_relocated:
  assumes "distinct is" "movable M src f dst g (set is)"
  shows "\<exists>M'. move_each src f dst g is M = Inr M' \<and> relocated M src f dst g (set is) M'"
  using assms
proof (induction "is" arbitrary: M)
  case Nil
  then show ?case by (simp add: relocated_empty)
next
  case (Cons i "is")
  have dj: "{i} \<inter> set is = {}" using Cons.prems(1) by simp
  have mv: "movable M src f dst g ({i} \<union> set is)" using Cons.prems(2) by simp
  obtain M1 where M1: "move_slot M src (f i) dst (g i) = Inr M1" "relocated M src f dst g {i} M1"
    using move_slot_relocated movable_subset [OF mv] by blast
  have "movable M1 src f dst g (set is)" by (rule relocated_movable [OF mv dj M1(2)])
  then obtain M2 where M2: "move_each src f dst g is M1 = Inr M2" "relocated M1 src f dst g (set is) M2"
    using Cons.IH Cons.prems(1) by auto
  have "relocated M src f dst g ({i} \<union> set is) M2" by (rule relocated_compose [OF mv dj M1(2) M2(2)])
  with M1(1) M2(1) show ?case by simp
qed

lemma length_overwrite [simp]: "d + length vals \<le> length xs \<Longrightarrow> length (overwrite xs d vals) = length xs"
  by (simp add: overwrite_def)

lemma nth_overwrite:
  "d + length vals \<le> length xs \<Longrightarrow> k < length xs \<Longrightarrow>
   overwrite xs d vals ! k = (if d \<le> k \<and> k < d + length vals then vals ! (k - d) else xs ! k)"
  by (auto simp: overwrite_def nth_append less_diff_conv2)

lemma blocks_apart:
  fixes s d len :: nat
  assumes "0 < len" "(\<lambda>i. s + i) ` {0..<len} \<inter> (\<lambda>i. d + i) ` {0..<len} = {}"
  shows "s + len \<le> d \<or> d + len \<le> s"
proof (rule ccontr)
  assume "\<not> ?thesis"
  then have "max s d \<in> (\<lambda>i. s + i) ` {0..<len}" "max s d \<in> (\<lambda>i. d + i) ` {0..<len}"
    by (auto simp: image_iff intro!: bexI [of _ "max s d - s"] bexI [of _ "max s d - d"])
  with assms(2) show False by blast
qed

lemma copy_nonoverlapping_relocated:
  assumes "movable M src (\<lambda>i. s + i) dst (\<lambda>i. d + i) {0..<len}" "0 < len"
  shows "\<exists>M'. copy_nonoverlapping M src s dst d len = Inr M' \<and>
           relocated M src (\<lambda>i. s + i) dst (\<lambda>i. d + i) {0..<len} M'"
proof -
  define vals where "vals = take len (drop s (M src))"
  define M1 where "M1 = M(src := overwrite (M src) s (replicate len None))"
  define M2 where "M2 = M1(dst := overwrite (M1 dst) d vals)"
  have last: "len - 1 \<in> {0..<len}" using assms(2) by simp
  have s: "s + len \<le> length (M src)" and d: "d + len \<le> length (M dst)"
    using movable_src [OF assms(1) last] movable_dst [OF assms(1) last] assms(2) by simp_all
  have apart: "s + len \<le> d \<or> d + len \<le> s" if "src = dst"
    using blocks_apart [OF assms(2)] assms(1) that by (simp add: movable_def)
  have img: "k \<in> (\<lambda>i. c + i) ` {0..<len} \<longleftrightarrow> c \<le> k \<and> k < c + len" for c k
    by (auto simp: image_iff intro: bexI [of _ "k - c"])
  have vals: "length vals = len" "i < len \<Longrightarrow> vals ! i = M src ! (s + i)" for i
    using s by (auto simp: vals_def)
  have len1: "length (M1 a) = length (M a)" for a using s by (simp add: M1_def)
  have len2: "length (M2 a) = length (M a)" for a
    using d len1 by (simp add: M2_def vals(1))
  have nth1: "M1 a ! k = (if a = src \<and> s \<le> k \<and> k < s + len then None else M a ! k)"
    if "k < length (M a)" for a k
    using that s by (auto simp: M1_def nth_overwrite)
  have nth2: "M2 a ! k = (if a = dst \<and> d \<le> k \<and> k < d + len then M src ! (s + (k - d)) else M1 a ! k)"
    if "k < length (M a)" for a k
    using that d len1 [of dst] by (auto simp: M2_def nth_overwrite vals)
  have "relocated M src (\<lambda>i. s + i) dst (\<lambda>i. d + i) {0..<len} M2"
    unfolding relocated_def img using len2 nth1 nth2 d by auto
  moreover have "copy_nonoverlapping M src s dst d len = Inr M2"
    using s d apart
    by (simp add: copy_nonoverlapping_def Let_def not_less M1_def M2_def vals_def)
  ultimately show ?thesis by blast
qed

section \<open>The transfer\<close>

text \<open>
  The obligations of the callers of \<^verbatim>\<open>transfer_items\<close>: both rings are well formed, the
  source range holds live items, the count fits in both rings, and when both buffers are
  one the destination range does not meet the source range.
\<close>

definition transfer_pre ::
  "'a store \<Rightarrow> nat \<Rightarrow> ushort \<Rightarrow> ushort \<Rightarrow> nat \<Rightarrow> ushort \<Rightarrow> ushort \<Rightarrow> nat \<Rightarrow> bool" where
  "transfer_pre M src sm sp dst dm dp n \<longleftrightarrow>
     ring_ok (M src) sm \<and> ring_ok (M dst) dm \<and> n \<le> cap_of sm \<and> n \<le> cap_of dm \<and>
     live_range (M src) sm sp n \<and>
     (src = dst \<longrightarrow> (\<forall>i < n. \<forall>j < n. ring_idx sm (sp + word_of_nat i) \<noteq> ring_idx dm (dp + word_of_nat j)))"

abbreviation src_at :: "ushort \<Rightarrow> ushort \<Rightarrow> nat \<Rightarrow> nat" where
  "src_at m p \<equiv> (\<lambda>i. ring_idx m (p + word_of_nat i))"

lemma transfer_pre_movable:
  assumes "transfer_pre M src sm sp dst dm dp n"
  shows "movable M src (src_at sm sp) dst (src_at dm dp) {0..<n}"
proof -
  have ok: "ring_ok (M src) sm" "ring_ok (M dst) dm" and n: "n \<le> cap_of sm" "n \<le> cap_of dm"
    and live: "live_range (M src) sm sp n"
    and ap: "src = dst \<Longrightarrow> i < n \<Longrightarrow> j < n \<Longrightarrow> src_at sm sp i \<noteq> src_at dm dp j" for i j
    using assms by (auto simp: transfer_pre_def)
  have "inj_on (src_at m p) {0..<n}" if "is_mask m" "n \<le> cap_of m" for m p
    using that by (auto simp: inj_on_def ring_idx_inj)
  then have "inj_on (src_at sm sp) {0..<n}" "inj_on (src_at dm dp) {0..<n}"
    using ok n by (auto simp: ring_ok_def)
  moreover have "\<forall>i\<in>{0..<n}. src_at sm sp i < length (M src) \<and> src_at dm dp i < length (M dst) \<and>
      M src ! src_at sm sp i \<noteq> None"
    using ok live by (simp add: ring_ok_def live_range_def slot_def)
  moreover have "src = dst \<longrightarrow> src_at sm sp ` {0..<n} \<inter> src_at dm dp ` {0..<n} = {}"
    using ap by auto
  ultimately show ?thesis unfolding movable_def by blast
qed

lemma transfer_items_scalar_relocated:
  assumes "transfer_pre M src sm sp dst dm dp (unat cnt)"
  shows "\<exists>M'. transfer_items_scalar M src sm sp dst dm dp cnt = Inr M' \<and>
           relocated M src (src_at sm sp) dst (src_at dm dp) {0..<unat cnt} M'"
  using move_each_relocated [of "[0..<unat cnt]"] transfer_pre_movable [OF assms]
  by (simp add: transfer_items_scalar_def ring_idx_def)

subsection \<open>Chunks\<close>

lemma and_cap_minus_1:
  assumes "is_mask m"
  shows "(n :: nat) AND (cap_of m - 1) = n mod cap_of m"
proof -
  obtain k where "cap_of m = 2 ^ k" using assms by (rule is_maskE)
  then have "cap_of m - 1 = mask k" by (simp add: mask_eq_exp_minus_1)
  then have "n AND (cap_of m - 1) = take_bit k n" by (simp only: take_bit_eq_mask)
  with \<open>cap_of m = 2 ^ k\<close> show ?thesis by (simp add: take_bit_eq_mod)
qed

lemma is_power_of_two_cap: "is_mask m \<Longrightarrow> is_power_of_two (cap_of m)"
proof -
  assume m: "is_mask m"
  then have "cap_of m AND (cap_of m - 1) = cap_of m mod cap_of m" by (rule and_cap_minus_1)
  then show ?thesis by (simp add: is_power_of_two_def)
qed

text \<open>
  Within a chunk that stops before the wrap point of a ring, the raw index is the ring
  index: the masked base plus the offset into the chunk.
\<close>

lemma chunk_index:
  assumes m: "is_mask m" and b: "start < stop" "i < stop - start"
    and w: "stop \<le> cap_of m - ring_idx m p \<or> cap_of m - ring_idx m p \<le> start"
    and c: "stop \<le> cap_of m"
  shows "src_at m p (start + i) = ((ring_idx m p + start) AND (cap_of m - 1)) + i"
proof -
  let ?c = "cap_of m" and ?r = "ring_idx m p"
  have r: "?r < ?c" using m by simp
  have "src_at m p (start + i) = (?r + (start + i)) mod ?c"
    using ring_idx_add [OF m, of p "start + i"] ring_idx_mod [OF m, of p]
    by (simp add: mod_add_left_eq)
  also have "\<dots> = (?r + start) mod ?c + i"
  proof (cases "stop \<le> ?c - ?r")
    case True
    then have "?r + (start + i) < ?c" using b r by linarith
    then show ?thesis by simp
  next
    case False
    with w have lo: "?c \<le> ?r + start" by linarith
    have hi: "?r + (start + i) - ?c < ?c" using b c r by linarith
    have "(?r + (start + i)) mod ?c = (?r + (start + i) - ?c) mod ?c"
      using lo by (subst le_mod_geq) auto
    also have "\<dots> = ?r + (start + i) - ?c" using hi by simp
    also have "\<dots> = (?r + start - ?c) + i" using lo by linarith
    also have "?r + start - ?c = (?r + start) mod ?c"
      using lo hi by (subst le_mod_geq) auto
    finally show ?thesis .
  qed
  finally show ?thesis by (simp only: and_cap_minus_1 [OF m])
qed

lemma movable_reindex:
  assumes "movable M src f dst g (h ` I)" "inj_on h I" "\<And>i. i \<in> I \<Longrightarrow> f' i = f (h i)" "\<And>i. i \<in> I \<Longrightarrow> g' i = g (h i)"
  shows "movable M src f' dst g' I"
proof -
  have img: "f' ` I = f ` h ` I" "g' ` I = g ` h ` I" using assms(3,4) by (auto simp: image_image)
  have "inj_on (f \<circ> h) I" "inj_on (g \<circ> h) I"
    using movable_inj [OF assms(1)] assms(2) by (auto intro: comp_inj_on)
  then have "inj_on f' I" "inj_on g' I"
    using assms(3,4) by (auto simp: inj_on_def)
  moreover have "\<forall>i\<in>I. f' i < length (M src) \<and> g' i < length (M dst) \<and> M src ! f' i \<noteq> None"
    using assms(1,3,4) by (simp add: movable_def)
  ultimately show ?thesis using assms(1) by (simp add: movable_def img)
qed

lemma relocated_reindex:
  assumes "relocated M src f' dst g' I M'" "\<And>i. i \<in> I \<Longrightarrow> f' i = f (h i)" "\<And>i. i \<in> I \<Longrightarrow> g' i = g (h i)"
  shows "relocated M src f dst g (h ` I) M'"
proof -
  have "f' ` I = f ` h ` I" "g' ` I = g ` h ` I" using assms(2,3) by (auto simp: image_image)
  with assms show ?thesis by (simp add: relocated_def)
qed

text \<open>The wrap condition of a chunk: it does not cross the physical end of the ring.\<close>

definition unwrapped :: "ushort \<Rightarrow> ushort \<Rightarrow> nat \<Rightarrow> nat \<Rightarrow> bool" where
  "unwrapped m p start stop \<longleftrightarrow>
     stop \<le> cap_of m - ring_idx m p \<or> cap_of m - ring_idx m p \<le> start"

lemma chunk_relocated:
  assumes mv: "movable M src (src_at sm sp) dst (src_at dm dp) {start..<stop}"
    and m: "is_mask sm" "is_mask dm" and b: "start < stop" "stop \<le> cap_of sm" "stop \<le> cap_of dm"
    and w: "unwrapped sm sp start stop" "unwrapped dm dp start stop"
    and c: "sc = (ring_idx sm sp + start) AND (cap_of sm - 1)" "dc = (ring_idx dm dp + start) AND (cap_of dm - 1)"
  shows "\<exists>M'. (if stop - start \<le> SMALL_CHUNK
               then move_each src (\<lambda>i. sc + i) dst (\<lambda>i. dc + i) [0..<stop - start] M
               else copy_nonoverlapping M src sc dst dc (stop - start)) = Inr M' \<and>
             relocated M src (src_at sm sp) dst (src_at dm dp) {start..<stop} M'"
proof -
  let ?I = "{0..<stop - start}" and ?h = "\<lambda>i. start + i"
  have h: "?h ` ?I = {start..<stop}" "inj_on ?h ?I" using b by auto
  have fs: "sc + i = src_at sm sp (?h i)" and fd: "dc + i = src_at dm dp (?h i)" if "i \<in> ?I" for i
    using chunk_index [OF m(1) b(1), of i sp] chunk_index [OF m(2) b(1), of i dp] that w b c
    by (simp_all add: unwrapped_def)
  have mv': "movable M src (\<lambda>i. sc + i) dst (\<lambda>i. dc + i) ?I"
    using movable_reindex [of M src "src_at sm sp" dst "src_at dm dp" ?h ?I] mv h fs fd by simp
  have "\<exists>M'. (if stop - start \<le> SMALL_CHUNK
               then move_each src (\<lambda>i. sc + i) dst (\<lambda>i. dc + i) [0..<stop - start] M
               else copy_nonoverlapping M src sc dst dc (stop - start)) = Inr M' \<and>
             relocated M src (\<lambda>i. sc + i) dst (\<lambda>i. dc + i) ?I M'"
    using move_each_relocated [of "[0..<stop - start]" M src "\<lambda>i. sc + i" dst "\<lambda>i. dc + i"]
      copy_nonoverlapping_relocated [OF mv'] mv' b
    by simp
  then show ?thesis
    using relocated_reindex [of M src "\<lambda>i. sc + i" dst "\<lambda>i. dc + i" ?I _ "src_at sm sp" ?h "src_at dm dp"]
      h fs fd by metis
qed

text \<open>One chunk extends the prefix of offsets already moved.\<close>

lemma transfer_chunk_step:
  assumes pre: "transfer_pre M0 src sm sp dst dm dp n"
    and prev: "relocated M0 src (src_at sm sp) dst (src_at dm dp) {0..<start} M"
    and b: "start \<le> stop" "stop \<le> n"
    and w: "unwrapped sm sp start stop" "unwrapped dm dp start stop"
  shows "\<exists>M'. transfer_chunks src (cap_of sm) (ring_idx sm sp) dst (cap_of dm) (ring_idx dm dp) ((start, stop) # cs) M
             = transfer_chunks src (cap_of sm) (ring_idx sm sp) dst (cap_of dm) (ring_idx dm dp) cs M' \<and>
             relocated M0 src (src_at sm sp) dst (src_at dm dp) {0..<stop} M'"
proof (cases "start = stop")
  case True
  with prev show ?thesis by auto
next
  case False
  with b have lt: "start < stop" by simp
  have m: "is_mask sm" "is_mask dm" and n: "stop \<le> cap_of sm" "stop \<le> cap_of dm"
    using pre b by (auto simp: transfer_pre_def ring_ok_def)
  have split: "{0..<start} \<union> {start..<stop} = {0..<stop}" "{0..<start} \<inter> {start..<stop} = {}"
    using b by auto
  have mv: "movable M0 src (src_at sm sp) dst (src_at dm dp) ({0..<start} \<union> {start..<stop})"
    using movable_subset [OF transfer_pre_movable [OF pre]] b by (simp add: split)
  have "movable M src (src_at sm sp) dst (src_at dm dp) {start..<stop}"
    by (rule relocated_movable [OF mv split(2) prev])
  from chunk_relocated [OF this m lt n w refl refl] obtain M' where M':
    "(if stop - start \<le> SMALL_CHUNK
      then move_each src (\<lambda>i. ((ring_idx sm sp + start) AND (cap_of sm - 1)) + i) dst
             (\<lambda>i. ((ring_idx dm dp + start) AND (cap_of dm - 1)) + i) [0..<stop - start] M
      else copy_nonoverlapping M src ((ring_idx sm sp + start) AND (cap_of sm - 1)) dst
             ((ring_idx dm dp + start) AND (cap_of dm - 1)) (stop - start)) = Inr M'"
    and r: "relocated M src (src_at sm sp) dst (src_at dm dp) {start..<stop} M'" by blast
  have "relocated M0 src (src_at sm sp) dst (src_at dm dp) {0..<stop} M'"
    using relocated_compose [OF mv split(2) prev r] by (simp add: split)
  with M' lt show ?thesis by (auto simp: Let_def)
qed

text \<open>A chunk's block of raw indices lies in the ring range it comes from.\<close>

lemma chunk_block:
  assumes "is_mask m" "start \<le> stop" "stop \<le> n" "n \<le> cap_of m" "unwrapped m p start stop"
    and a0: "a0 = (ring_idx m p + start) AND (cap_of m - 1)"
  shows "{a0..<a0 + (stop - start)} \<subseteq> src_at m p ` {0..<n}"
proof
  fix k
  assume k: "k \<in> {a0..<a0 + (stop - start)}"
  define i where "i = k - a0"
  from k have i: "k = a0 + i" "i < stop - start" by (auto simp: i_def)
  have "src_at m p (start + i) = a0 + i"
    unfolding a0 by (rule chunk_index [of m start stop i p]) (use assms i in \<open>auto simp: unwrapped_def\<close>)
  moreover have "start + i < n" using i assms(2,3) by linarith
  ultimately show "k \<in> src_at m p ` {0..<n}" unfolding i by (metis atLeastLessThan_iff image_eqI zero_le)
qed

text \<open>The base index of a chunk, even of an empty one, is never inside a disjoint block.\<close>

lemma base_not_inside:
  assumes m: "is_mask m" and n: "0 < n" "start \<le> n"
    and dj: "{b..<b + l} \<inter> src_at m p ` {0..<n} = {}"
    and a0: "a0 = (ring_idx m p + start) AND (cap_of m - 1)"
  shows "\<not> (b < a0 \<and> a0 < b + l)"
proof
  assume in_block: "b < a0 \<and> a0 < b + l"
  have a0m: "a0 = (unat p + start) mod cap_of m"
    unfolding a0 and_cap_minus_1 [OF m] by (simp add: ring_idx_mod [OF m] mod_add_left_eq)
  have at: "src_at m p i = (unat p + i) mod cap_of m" for i using m by (rule ring_idx_add)
  obtain i where "i < n" "src_at m p i \<in> {b..<b + l}"
  proof (cases "start < n")
    case True
    have "src_at m p start \<in> {b..<b + l}" using in_block by (simp add: at a0m)
    with True show ?thesis by (rule that)
  next
    case False
    with n have st: "unat p + start = Suc (unat p + (n - 1))" by simp
    have "a0 = Suc ((unat p + (n - 1)) mod cap_of m)"
      using in_block unfolding a0m st by (simp add: mod_Suc split: if_splits)
    then have "src_at m p (n - 1) \<in> {b..<b + l}" using in_block by (simp add: at)
    with n show ?thesis by (intro that [of "n - 1"]) auto
  qed
  with dj show False by auto
qed

lemma chunks_disjoint_ok:
  assumes pre: "transfer_pre M src sm sp src dm dp n" and n: "0 < n"
    and b: "lo \<le> hi" "hi \<le> n"
    and w: "\<And>s e. (s, e) \<in> {(0, lo), (lo, hi), (hi, n)} \<Longrightarrow> unwrapped sm sp s e \<and> unwrapped dm dp s e"
  shows "chunks_disjoint (cap_of sm) (ring_idx sm sp) (cap_of dm) (ring_idx dm dp) [(0, lo), (lo, hi), (hi, n)]"
proof -
  have m: "is_mask sm" "is_mask dm" and c: "n \<le> cap_of sm" "n \<le> cap_of dm"
    and dj: "src_at sm sp ` {0..<n} \<inter> src_at dm dp ` {0..<n} = {}"
    using pre transfer_pre_movable [OF pre] by (auto simp: transfer_pre_def ring_ok_def movable_def)
  have pair: "a0 + (ae - as) \<le> b0 \<or> b0 + (be - bs) \<le> a0"
    if ch: "(as, ae) \<in> {(0, lo), (lo, hi), (hi, n)}" "(bs, be) \<in> {(0, lo), (lo, hi), (hi, n)}"
      and base: "a0 = (ring_idx sm sp + as) AND (cap_of sm - 1)" "b0 = (ring_idx dm dp + bs) AND (cap_of dm - 1)"
    for as ae bs be a0 b0
  proof -
    have le: "as \<le> ae" "ae \<le> n" "bs \<le> be" "be \<le> n" using ch b by auto
    have A: "{a0..<a0 + (ae - as)} \<subseteq> src_at sm sp ` {0..<n}"
      using chunk_block [OF m(1) le(1,2) c(1) _ base(1)] w [OF ch(1)] by simp
    have B: "{b0..<b0 + (be - bs)} \<subseteq> src_at dm dp ` {0..<n}"
      using chunk_block [OF m(2) le(3,4) c(2) _ base(2)] w [OF ch(2)] by simp
    have 1: "\<not> (b0 < a0 \<and> a0 < b0 + (be - bs))"
      by (rule base_not_inside [OF m(1) n _ _ base(1)]) (use B dj le in auto)
    have 2: "\<not> (a0 < b0 \<and> b0 < a0 + (ae - as))"
      by (rule base_not_inside [OF m(2) n _ _ base(2)]) (use A dj le in auto)
    have "{a0..<a0 + (ae - as)} \<inter> {b0..<b0 + (be - bs)} = {}" using A B dj by blast
    then have 3: "a0 = b0 \<Longrightarrow> ae - as = 0 \<or> be - bs = 0" by (cases "ae - as"; cases "be - bs") auto
    show ?thesis using 1 2 3 by linarith
  qed
  show ?thesis
    unfolding chunks_disjoint_def Let_def list_all_iff list.set
    by (intro ballI, simp only: split_paired_all prod.case, intro ballI,
        simp only: split_paired_all prod.case, rule pair [OF _ _ refl refl])
qed

lemma wrap_point:
  fixes s lo hi n a x y :: nat
  assumes "s = lo \<or> s = hi" "lo \<le> hi" "hi \<le> n" "s = a \<or> n \<le> a"
    "x = 0 \<and> y = lo \<or> x = lo \<and> y = hi \<or> x = hi \<and> y = n"
  shows "y \<le> a \<or> a \<le> x"
  using assms by linarith

lemma transfer_items_relocated:
  assumes pre: "transfer_pre M src sm sp dst dm dp (unat cnt)"
  shows "\<exists>M'. transfer_items M src sm sp dst dm dp cnt = Inr M' \<and>
           relocated M src (src_at sm sp) dst (src_at dm dp) {0..<unat cnt} M'"
proof -
  define n where "n = unat cnt"
  note pre = pre [folded n_def]
  have m: "is_mask sm" "is_mask dm" and l: "length (M src) = cap_of sm" "length (M dst) = cap_of dm"
    and c: "n \<le> cap_of sm" "n \<le> cap_of dm"
    using pre by (auto simp: transfer_pre_def ring_ok_def)
  have caps: "unat sm + 1 = cap_of sm" "unat dm + 1 = cap_of dm" by (simp_all add: cap_of_def)
  have idx: "unat (sp AND sm) = ring_idx sm sp" "unat (dp AND dm) = ring_idx dm dp"
    by (simp_all add: ring_idx_def)
  show ?thesis
  proof (cases "n \<le> 1")
    case True
    then consider "n = 0" | "n = 1" by linarith
    then show ?thesis
    proof cases
      case 1
      then show ?thesis
        unfolding transfer_items_def Let_def caps idx n_def [symmetric]
        using m l by (simp add: is_power_of_two_cap relocated_empty)
    next
      case 2
      have "movable M src (src_at sm sp) dst (src_at dm dp) {0}"
        using transfer_pre_movable [OF pre] 2 by simp
      from move_slot_relocated [OF this] show ?thesis
        unfolding transfer_items_def Let_def caps idx n_def [symmetric]
        using 2 m l by (simp add: is_power_of_two_cap)
    qed
  next
    case False
    define s where "s = min (cap_of sm - ring_idx sm sp) n"
    define d where "d = min (cap_of dm - ring_idx dm dp) n"
    define lo where "lo = min s d"
    define hi where "hi = max s d"
    have lohi: "(if s \<le> d then (s, d) else (d, s)) = (lo, hi)" by (simp add: lo_def hi_def)
    have b: "lo \<le> hi" "hi \<le> n" by (auto simp: lo_def hi_def s_def d_def min_def max_def)
    have w: "unwrapped sm sp x y \<and> unwrapped dm dp x y"
      if "(x, y) \<in> {(0, lo), (lo, hi), (hi, n)}" for x y
    proof -
      from that have xy: "x = 0 \<and> y = lo \<or> x = lo \<and> y = hi \<or> x = hi \<and> y = n" by simp
      have "s = lo \<or> s = hi" "d = lo \<or> d = hi" by (auto simp: lo_def hi_def min_def max_def)
      moreover have "s = cap_of sm - ring_idx sm sp \<or> n \<le> cap_of sm - ring_idx sm sp"
        "d = cap_of dm - ring_idx dm dp \<or> n \<le> cap_of dm - ring_idx dm dp"
        by (auto simp: s_def d_def min_def)
      ultimately show ?thesis using wrap_point [OF _ b _ xy] by (simp add: unwrapped_def)
    qed
    have dis: "src \<noteq> dst \<or> chunks_disjoint (cap_of sm) (ring_idx sm sp) (cap_of dm) (ring_idx dm dp)
                 [(0, lo), (lo, hi), (hi, n)]"
      using chunks_disjoint_ok [of M src sm sp dm dp n lo hi] pre False b w by auto
    let ?tc = "transfer_chunks src (cap_of sm) (ring_idx sm sp) dst (cap_of dm) (ring_idx dm dp)"
    note step = transfer_chunk_step [OF pre]
    obtain M1 where M1: "?tc [(0, lo), (lo, hi), (hi, n)] M = ?tc [(lo, hi), (hi, n)] M1"
      "relocated M src (src_at sm sp) dst (src_at dm dp) {0..<lo} M1"
      using step [of 0 M lo "[(lo, hi), (hi, n)]"] w [of 0 lo] b
        relocated_empty [of M src "src_at sm sp" dst "src_at dm dp"]
      by (auto simp del: transfer_chunks.simps)
    obtain M2 where M2: "?tc [(lo, hi), (hi, n)] M1 = ?tc [(hi, n)] M2"
      "relocated M src (src_at sm sp) dst (src_at dm dp) {0..<hi} M2"
      using step [OF M1(2), of hi "[(hi, n)]"] w [of lo hi] b by (auto simp del: transfer_chunks.simps)
    obtain M3 where M3: "?tc [(hi, n)] M2 = ?tc [] M3"
      "relocated M src (src_at sm sp) dst (src_at dm dp) {0..<n} M3"
      using step [OF M2(2), of n "[]"] w [of hi n] b by (auto simp del: transfer_chunks.simps)
    have "transfer_items M src sm sp dst dm dp cnt = ?tc [(0, lo), (lo, hi), (hi, n)] M"
      unfolding transfer_items_def Let_def caps idx n_def [symmetric] s_def [symmetric] d_def [symmetric] lohi
      using l m False dis by (simp add: is_power_of_two_cap del: transfer_chunks.simps)
    then show ?thesis using M1 M2 M3 by (simp del: transfer_chunks.simps(2) add: n_def)
  qed
qed

section \<open>Transfers between rings\<close>

lemma transfer_pre_apart:
  assumes "src \<noteq> dst" "ring_holds (M src) sm sp (xs @ ys)" "ring_shape (M dst) dm dq os"
    "length os + length xs \<le> cap_of dm" "length xs = n"
  shows "transfer_pre M src sm sp dst dm (dq + word_of_nat (length os)) n"
  using assms ring_holds_len [OF assms(2)] ring_holds_live [OF assms(2), of n]
  by (simp add: transfer_pre_def ring_holds_ok ring_shape_ok)

lemma transfer_pre_self:
  assumes "ring_holds (M a) m p (xs @ ys)" "length (xs @ ys) + length xs \<le> cap_of m" "length xs = n"
  shows "transfer_pre M a m p a m (p + word_of_nat (length (xs @ ys))) n"
proof -
  have m: "is_mask m" using assms(1) by (simp add: ring_holds_def ring_ok_def)
  have "ring_idx m (p + word_of_nat i) \<noteq> ring_idx m (p + word_of_nat (length (xs @ ys)) + word_of_nat j)"
    if "i < n" "j < n" for i j
    using ring_idx_inj [OF m, of i "length (xs @ ys) + j" p] that assms by (simp add: add.assoc)
  then show ?thesis
    using assms ring_holds_live [OF assms(1), of n] by (simp add: transfer_pre_def ring_holds_ok)
qed

text \<open>The slots after a relocation, in ring coordinates.\<close>

lemma relocated_slot_src:
  assumes "relocated M src (src_at sm sp) dst g {0..<n} M'" "is_mask sm" "length (M src) = cap_of sm"
    "n \<le> cap_of sm" "i < cap_of sm" "\<not> (src = dst \<and> src_at sm sp i \<in> g ` {0..<n})"
  shows "slot (M' src) sm sp i = (if i < n then None else slot (M src) sm sp i)"
  using relocated_other [OF assms(1), of "src_at sm sp i" src] assms
  by (simp add: slot_def ring_idx_image)

lemma relocated_slot_dst:
  assumes r: "relocated M src (src_at sm sp) dst (src_at dm (dq + word_of_nat L)) {0..<n} M'"
    and m: "is_mask dm" and len: "length (M dst) = cap_of dm" and fit: "L + n \<le> cap_of dm" and j: "j < cap_of dm"
  shows "slot (M' dst) dm dq j =
    (if L \<le> j \<and> j < L + n then slot (M src) sm sp (j - L)
     else if src = dst \<and> ring_idx dm (dq + word_of_nat j) \<in> src_at sm sp ` {0..<n} then None
     else slot (M dst) dm dq j)"
proof (cases "L \<le> j \<and> j < L + n")
  case True
  then have "j - L \<in> {0..<n}" "L + (j - L) = j" by auto
  with relocated_dst [OF r, of "j - L"] True show ?thesis
    by (simp add: slot_def add.assoc flip: of_nat_add)
next
  case False
  have "ring_idx dm (dq + word_of_nat j) \<noteq> src_at dm (dq + word_of_nat L) i" if "i < n" for i
    using ring_idx_inj [OF m j, of "L + i" dq] that fit False by (auto simp: add.assoc)
  then have "ring_idx dm (dq + word_of_nat j) \<notin> src_at dm (dq + word_of_nat L) ` {0..<n}"
    by (metis (no_types, lifting) atLeastLessThan_iff imageE)
  with relocated_other [OF r, of "ring_idx dm (dq + word_of_nat j)" dst] False m len show ?thesis
    by (auto simp: slot_def)
qed

lemma relocated_frame: "relocated M src f dst g I M' \<Longrightarrow> a \<noteq> src \<Longrightarrow> a \<noteq> dst \<Longrightarrow> M' a = M a"
  by (intro nth_equalityI) (auto simp: relocated_len relocated_other)

lemma relocated_ring_ok: "relocated M src f dst g I M' \<Longrightarrow> ring_ok (M' a) m = ring_ok (M a) m"
  by (simp add: ring_ok_def relocated_len)

lemma transfer_shape_apart:
  assumes ne: "src \<noteq> dst" and S: "ring_holds (M src) sm sp (xs @ ys)" and D: "ring_shape (M dst) dm dq os"
    and fit: "length os + length xs \<le> cap_of dm" and n: "unat cnt = length xs"
  shows "\<exists>M'. transfer_items M src sm sp dst dm (dq + word_of_nat (length os)) cnt = Inr M' \<and>
      ring_holds (M' src) sm (sp + cnt) ys \<and> ring_shape (M' dst) dm dq (os @ map Some xs) \<and>
      (\<forall>a. a \<noteq> src \<longrightarrow> a \<noteq> dst \<longrightarrow> M' a = M a)"
proof -
  have okS: "is_mask sm" "length (M src) = cap_of sm" and okD: "is_mask dm" "length (M dst) = cap_of dm"
    and lenS: "length xs + length ys \<le> cap_of sm"
    using S D by (auto simp: ring_holds_def ring_shape_def ring_ok_def)
  have cnt: "sp + cnt = sp + word_of_nat (length xs)" by (simp flip: n)
  obtain M' where M': "transfer_items M src sm sp dst dm (dq + word_of_nat (length os)) cnt = Inr M'"
    and r: "relocated M src (src_at sm sp) dst (src_at dm (dq + word_of_nat (length os))) {0..<length xs} M'"
    using transfer_items_relocated [OF transfer_pre_apart [of src dst M, OF ne S D fit n [symmetric]]] n by auto
  have "ring_holds (M' src) sm (sp + cnt) ys"
    unfolding cnt
  proof (subst ring_holds_shift_iff)
    show "ring_ok (M' src) sm" using r S by (simp add: relocated_ring_ok ring_holds_ok)
    show "\<forall>i<cap_of sm. slot (M' src) sm sp i =
      (if length xs \<le> i \<and> i < length xs + length ys then Some (ys ! (i - length xs)) else None)"
      using relocated_slot_src [OF r okS] ring_holds_slot [OF S] ne lenS by (auto simp: nth_append)
  qed (use lenS in simp)
  moreover have "ring_shape (M' dst) dm dq (os @ map Some xs)"
    using relocated_slot_dst [OF r okD fit] ring_shape_slot [OF D] ring_holds_slot [OF S] ne fit lenS
      relocated_ring_ok [OF r, of dst dm] ring_shape_ok [OF D] n transfer_pre_apart [of src dst M, OF ne S D fit refl]
    by (auto simp: ring_shape_def nth_append transfer_pre_def)
  ultimately show ?thesis using M' relocated_frame [OF r] by blast
qed

lemma transfer_holds_apart:
  assumes ne: "src \<noteq> dst" and S: "ring_holds (M src) sm sp (xs @ ys)" and D: "ring_holds (M dst) dm dq zs"
    and fit: "length zs + length xs \<le> cap_of dm" and n: "unat cnt = length xs"
  shows "\<exists>M'. transfer_items M src sm sp dst dm (dq + word_of_nat (length zs)) cnt = Inr M' \<and>
      ring_holds (M' src) sm (sp + cnt) ys \<and> ring_holds (M' dst) dm dq (zs @ xs) \<and>
      (\<forall>a. a \<noteq> src \<longrightarrow> a \<noteq> dst \<longrightarrow> M' a = M a)"
  using transfer_shape_apart [of src dst M sm sp xs ys dm dq "map Some zs" cnt] assms
  by (simp add: ring_holds_shape [of "M dst"] ring_holds_shape [of _ dm])

lemma transfer_holds_self:
  assumes S: "ring_holds (M a) m p (xs @ ys)"
    and fit: "length (xs @ ys) + length xs \<le> cap_of m" and n: "unat cnt = length xs"
  shows "\<exists>M'. transfer_items M a m p a m (p + word_of_nat (length (xs @ ys))) cnt = Inr M' \<and>
      ring_holds (M' a) m (p + cnt) (ys @ xs) \<and> (\<forall>b. b \<noteq> a \<longrightarrow> M' b = M b)"
proof -
  have ok: "is_mask m" "length (M a) = cap_of m" using S by (auto simp: ring_holds_def ring_ok_def)
  have cnt: "p + cnt = p + word_of_nat (length xs)" by (simp flip: n)
  obtain M' where M': "transfer_items M a m p a m (p + word_of_nat (length (xs @ ys))) cnt = Inr M'"
    and r: "relocated M a (src_at m p) a (src_at m (p + word_of_nat (length (xs @ ys)))) {0..<length xs} M'"
    using transfer_items_relocated [OF transfer_pre_self [of M a m p xs ys, OF S fit n [symmetric]]] n by auto
  have "ring_holds (M' a) m (p + cnt) (ys @ xs)"
    unfolding cnt
  proof (subst ring_holds_shift_iff)
    show "ring_ok (M' a) m" using r S by (simp add: relocated_ring_ok ring_holds_ok)
    show "\<forall>i<cap_of m. slot (M' a) m p i =
      (if length xs \<le> i \<and> i < length xs + length (ys @ xs) then Some ((ys @ xs) ! (i - length xs)) else None)"
      using relocated_slot_dst [OF r ok fit] ring_holds_slot [OF S] fit ok
      by (auto simp: nth_append ring_idx_image)
  qed (use fit in simp)
  then show ?thesis using M' relocated_frame [OF r] by blast
qed

section \<open>Properties\<close>

text \<open>
  C3. The shipped segmented copy and the per-element reference move the same items: for
  every pair of rings, start positions and count that the booking step can produce,
  \<open>transfer_items\<close> returns, faults nowhere, passes its debug assertions and leaves the
  store exactly as \<open>transfer_items_scalar\<close> does.
\<close>

theorem bulk_matches_scalar:
  assumes "transfer_pre M src src_mask src_pos dst dst_mask dst_pos (unat cnt)"
  shows "\<exists>M'. transfer_items M src src_mask src_pos dst dst_mask dst_pos cnt = Inr M' \<and>
              transfer_items_scalar M src src_mask src_pos dst dst_mask dst_pos cnt = Inr M'"
  using transfer_items_relocated [OF assms] transfer_items_scalar_relocated [OF assms]
  by (metis relocated_unique)

theorem bulk_matches_scalar_witness:
  "\<exists>M'. transfer_items (\<lambda>a. if a = 0 then [Some ''c'', Some ''d'', None, Some ''b''] else [None, None])
           0 3 3 1 1 1 2 = Inr M' \<and>
        transfer_items_scalar (\<lambda>a. if a = 0 then [Some ''c'', Some ''d'', None, Some ''b''] else [None, None])
           0 3 3 1 1 1 2 = Inr M'"
proof (rule bulk_matches_scalar)
  have "is_mask 3" "is_mask 1"
    using is_mask_mask [of 2] is_mask_mask [of 1] by (simp_all add: mask_eq_exp_minus_1)
  then show "transfer_pre (\<lambda>a. if a = 0 then [Some ''c'', Some ''d'', None, Some ''b''] else [None, None])
    0 3 3 1 1 1 (unat (2 :: ushort))"
    by (auto simp: transfer_pre_def ring_ok_def cap_of_def live_range_def slot_def ring_idx_def
        less_2_cases_iff)
qed

end
