(* ===== verification/Booking.thy ===== *)
theory Booking
  imports Ring
begin

text \<open>
  How many items a steal books: the arithmetic both \<^verbatim>\<open>book_items\<close> loops share. The
  user closure is asked again after every failed compare-exchange, so its answer may
  change from call to call; it may also panic.
\<close>

text \<open>The number of the call, and the number of available items; \<open>None\<close> is a panic.\<close>

type_synonym count_fn = "nat \<Rightarrow> usize \<Rightarrow> usize option"

definition steal_count :: "usize \<Rightarrow> ushort \<Rightarrow> ushort \<Rightarrow> ushort" where
  "steal_count wanted max_count item_count =
     min (ucast (min wanted (ucast max_count)) :: ushort) item_count"

lemma unat_min: "unat (min a b :: 'w::len word) = min (unat a) (unat b)"
  by (simp add: min_def word_le_nat_alt)

lemma unat_steal_count:
  "unat (steal_count w m n) = min (min (unat w) (unat m)) (unat n)"
proof -
  have m: "unat (ucast m :: usize) = unat m"
    using order.strict_trans [OF unat_lt32 [of m], of 18446744073709551616]
    by (simp add: unsigned_ucast_eq take_bit_nat_eq_self_iff)
  have "unat (ucast (min w (ucast m)) :: ushort) = unat (min w (ucast m)) mod 4294967296"
    by (simp add: unsigned_ucast_eq take_bit_eq_mod)
  also have "\<dots> = min (unat w) (unat m) mod 4294967296" by (simp only: unat_min m)
  also have "\<dots> = min (unat w) (unat m)" using unat_lt32 [of m] by (simp add: min_less_iff_disj)
  finally show ?thesis by (simp add: steal_count_def unat_min)
qed

text \<open>The outcome of a booking with \<open>fails\<close> failed exchanges on a queue that does not change.\<close>

fun book_choice :: "nat \<Rightarrow> nat \<Rightarrow> count_fn \<Rightarrow> ushort \<Rightarrow> ushort \<Rightarrow> (steal_error + ushort) res" where
  "book_choice 0 call f m n =
     (case f call (ucast n) of
        None \<Rightarrow> Inl ClosurePanic
      | Some w \<Rightarrow> if steal_count w m n = 0 then Inr (Inl Empty) else Inr (Inr (steal_count w m n)))"
| "book_choice (Suc fails) call f m n =
     (case f call (ucast n) of
        None \<Rightarrow> Inl ClosurePanic
      | Some w \<Rightarrow> if steal_count w m n = 0 then Inr (Inl Empty) else book_choice fails (Suc call) f m n)"

lemma book_choice_bounds:
  "book_choice fails call f m n = Inr (Inr c) \<Longrightarrow> 0 < unat c \<and> unat c \<le> unat m \<and> unat c \<le> unat n"
  by (induction fails call f m n rule: book_choice.induct)
     (auto split: option.splits if_splits simp: unat_steal_count unat_gt_0)

text \<open>A closure that only depends on the item count is not affected by failed exchanges.\<close>

lemma book_choice_pure:
  "book_choice fails call (\<lambda>_. g) m n =
     (case g (ucast n) of
        None \<Rightarrow> Inl ClosurePanic
      | Some w \<Rightarrow> if steal_count w m n = 0 then Inr (Inl Empty) else Inr (Inr (steal_count w m n)))"
  by (induction fails arbitrary: call) (auto split: option.splits)

lemma book_choice_no_panic:
  "(\<And>i. f i (ucast n) \<noteq> None) \<Longrightarrow> \<exists>r. book_choice fails call f m n = Inr r"
  by (induction fails arbitrary: call) (auto split: option.splits)

section \<open>Capacities\<close>

text \<open>The largest capacity of a queue, half the range of its positions.\<close>

definition MAX_CAPACITY :: nat where
  "MAX_CAPACITY = 2 ^ 31"

lemma capacity_mask:
  assumes "n \<le> MAX_CAPACITY"
  shows "\<exists>m :: ushort. is_mask m \<and> cap_of m = next_power_of_two n \<and>
    checked_minus (word_of_nat (next_power_of_two n)) 1 = Inr m"
proof -
  obtain i where i: "i \<le> 31" "next_power_of_two n = 2 ^ i"
    using next_power_of_two_spec [of n 31] assms by (auto simp: MAX_CAPACITY_def)
  define m :: ushort where "m = word_of_nat (2 ^ i) - 1"
  have "m = mask i" by (simp add: m_def mask_eq_exp_minus_1)
  then have m: "is_mask m" "cap_of m = 2 ^ i"
    using i is_mask_mask unat_mask32 [of i] by (auto simp: cap_of_def)
  have "(2::nat) ^ i \<le> 2 ^ 31" using i(1) by (intro power_increasing) auto
  then have "unat (word_of_nat (2 ^ i) :: ushort) = 2 ^ i" by (simp add: unat_of_nat32 del: of_nat_power)
  then have "(1 :: ushort) \<le> word_of_nat (2 ^ i)" by (simp add: word_le_nat_alt del: of_nat_power)
  then have "checked_minus (word_of_nat (2 ^ i) :: ushort) 1 = Inr m" unfolding m_def by (rule checked_minus_ok)
  with m i(2) show ?thesis by auto
qed

lemma unat_of_nat_small: "n \<le> 2147483648 \<Longrightarrow> unat (word_of_nat n :: ushort) = n"
  by (simp add: unat_of_nat32)

lemma of_nat_eq_0_small: "n \<le> 2147483648 \<Longrightarrow> (word_of_nat n :: ushort) = 0 \<longleftrightarrow> n = 0"
  using unat_of_nat_small [of n] unat_eq_zero [of "word_of_nat n :: ushort"] by auto

lemma minus_eq_self: "(h :: ushort) - n = h \<longleftrightarrow> n = 0"
  by (auto simp: diff_eq_eq)

lemma ucast_of_nat_unat: "(ucast (c :: ushort) :: usize) = word_of_nat (unat c)" "unat (ucast c :: usize) = unat c"
proof -
  show "(ucast c :: usize) = word_of_nat (unat c)" by simp
  have "unat c < 18446744073709551616" using unat_lt32 [of c] by linarith
  then show "unat (ucast c :: usize) = unat c" by (simp add: unsigned_ucast_eq take_bit_nat_eq_self_iff)
qed

lemma unat_capacity: "is_mask m \<Longrightarrow> unat (m + 1) = cap_of m"
  using cap_of_le [of m] by (simp add: cap_of_def unat_plus32)

text \<open>What is left of a capacity of which \<open>k\<close> positions are taken.\<close>

lemma free_capacity:
  assumes m: "is_mask m" and len: "unat len = k" and k: "k \<le> cap_of m"
  shows "checked_minus (m + 1) len = Inr (word_of_nat (cap_of m - k))"
    and "word_of_nat (cap_of m - k) \<le> m + 1" and "unat (word_of_nat (cap_of m - k) :: ushort) = cap_of m - k"
proof -
  have cap: "unat (m + 1) = cap_of m" by (rule unat_capacity [OF m])
  have le: "len \<le> m + 1" using k by (simp only: word_le_nat_alt cap len)
  have "unat (m + 1 - len) = cap_of m - k" by (simp only: unat_sub [OF le] cap len)
  then have "m + 1 - len = word_of_nat (cap_of m - k)" by (metis of_nat_unat ucast_id)
  with le show "checked_minus (m + 1) len = Inr (word_of_nat (cap_of m - k))" by simp
  show u: "unat (word_of_nat (cap_of m - k) :: ushort) = cap_of m - k"
    using cap_of_le [OF m] by (intro unat_of_nat_small) linarith
  show "word_of_nat (cap_of m - k) \<le> m + 1" by (simp only: word_le_nat_alt cap u)
qed

text \<open>
  \<^verbatim>\<open>steal_and_pop\<close> may book one item more than the destination has room for: the last one
  is returned.
\<close>

lemma steal_and_pop_counts:
  assumes r: "r \<le> 2147483648" and n: "n \<le> 2147483648"
    and c: "book_choice fails 0 f (word_of_nat r + 1) (word_of_nat n) = Inr (Inr c)"
  defines "free \<equiv> (word_of_nat r :: ushort)"
  shows "checked_plus free 1 = Inr (free + 1)" and "checked_minus c 1 = Inr (c - 1)"
    and "unat c \<le> n" and "unat c = Suc (unat (c - 1))" and "unat (c - 1) \<le> r" and "c - 1 \<le> free"
proof -
  have free: "unat free = r" unfolding free_def by (rule unat_of_nat_small [OF r])
  with r show "checked_plus free 1 = Inr (free + 1)" by simp
  have f1: "unat (free + 1) = unat free + 1" using r free by (simp add: unat_plus32)
  have cb: "0 < unat c" "unat c \<le> unat free + 1" "unat c \<le> n"
    using book_choice_bounds [OF c, folded free_def] n by (simp_all add: f1 unat_of_nat_small)
  then have c1: "1 \<le> c" by (simp add: word_le_nat_alt)
  then have "unat (c - 1) = unat c - 1" by (simp add: unat_sub)
  with cb c1 free show "checked_minus c 1 = Inr (c - 1)" "unat c \<le> n" "unat c = Suc (unat (c - 1))"
    "unat (c - 1) \<le> r" "c - 1 \<le> free"
    by (simp_all add: word_le_nat_alt)
qed

lemma next_power_of_two_2: "next_power_of_two 2 = 2"
  by code_simp

lemma allocate_buffer_2: "allocate_buffer 2 = [None, None]"
  by (simp add: allocate_buffer_def numeral_2_eq_2)

end
