(* ===== verification/Work_Queue.thy ===== *)
theory Work_Queue
  imports Booking
begin

text \<open>
  The interface the two work-stealing queues share, and what it promises. A client sees a
  queue through the methods of \<^verbatim>\<open>Worker\<close>, \<^verbatim>\<open>Drain\<close> and \<^verbatim>\<open>Stealer\<close> (collected in the record
  \<open>wq_ops\<close>); the specification sees it as an \<open>aqueue\<close>: the available items, oldest first,
  and the items an unfinished drain has claimed. The locale \<open>work_queue\<close> states the law of
  every method; in it, whole client programs on any number of queues are shown to refine
  the specification. Both \<open>Lifo\<close> and \<open>Fifo\<close> interpret it.
\<close>

section \<open>Specification\<close>

text \<open>
  \<open>aq_booked\<close> counts the positions that are not available again until the unfinished drain
  ends; \<open>aq_inflight\<close> are the items it still has to yield.
\<close>

record 'a aqueue =
  aq_cap :: nat
  aq_booked :: nat
  aq_inflight :: "'a list"
  aq_items :: "'a list"

datatype discipline = TakeNewest | TakeOldest

definition aq_wf :: "'a aqueue \<Rightarrow> bool" where
  "aq_wf A \<longleftrightarrow> aq_booked A + length (aq_items A) \<le> aq_cap A \<and> aq_cap A \<le> 2147483648 \<and>
     length (aq_inflight A) \<le> aq_booked A \<and> (aq_inflight A = [] \<longrightarrow> aq_booked A = 0)"

definition aq_new :: "nat \<Rightarrow> 'a aqueue" where
  "aq_new cap = \<lparr>aq_cap = cap, aq_booked = 0, aq_inflight = [], aq_items = []\<rparr>"

definition aq_room :: "'a aqueue \<Rightarrow> nat" where
  "aq_room A = aq_cap A - (aq_booked A + length (aq_items A))"

definition aq_push :: "'a aqueue \<Rightarrow> 'a \<Rightarrow> ('a + unit) \<times> 'a aqueue" where
  "aq_push A x =
     (if aq_room A = 0 then (Inl x, A) else (Inr (), A\<lparr>aq_items := aq_items A @ [x]\<rparr>))"

definition aq_extend :: "'a aqueue \<Rightarrow> 'a list \<Rightarrow> 'a list \<times> 'a aqueue" where
  "aq_extend A xs =
     (drop (aq_room A) xs, A\<lparr>aq_items := aq_items A @ take (aq_room A) xs\<rparr>)"

text \<open>
  A pop at the end a drain is working on leaves a hole behind the claimed positions, which
  only becomes available with them.
\<close>

definition aq_pop :: "discipline \<Rightarrow> 'a aqueue \<Rightarrow> 'a option \<times> 'a aqueue" where
  "aq_pop D A =
     (if aq_items A = [] then (None, A)
      else case D of
        TakeNewest \<Rightarrow> (Some (last (aq_items A)), A\<lparr>aq_items := butlast (aq_items A)\<rparr>)
      | TakeOldest \<Rightarrow> (Some (hd (aq_items A)),
          A\<lparr>aq_items := tl (aq_items A),
            aq_booked := (if aq_booked A = 0 then 0 else Suc (aq_booked A))\<rparr>))"

definition aq_book :: "nat \<Rightarrow> count_fn \<Rightarrow> ushort \<Rightarrow> 'a aqueue \<Rightarrow> (steal_error + nat) res" where
  "aq_book fails f m A =
     (if aq_booked A \<noteq> 0 then Inr (Inl Busy)
      else if aq_items A = [] then Inr (Inl Empty)
      else rbind (book_choice fails 0 f m (word_of_nat (length (aq_items A)))) (\<lambda>r.
        Inr (case r of Inl e \<Rightarrow> Inl e | Inr c \<Rightarrow> Inr (unat c))))"

definition aq_drain :: "nat \<Rightarrow> count_fn \<Rightarrow> 'a aqueue \<Rightarrow> (steal_error option \<times> 'a aqueue) res" where
  "aq_drain fails f A =
     rbind (aq_book fails f (- 1) A) (\<lambda>r.
       Inr (case r of
          Inl e \<Rightarrow> (Some e, A)
        | Inr c \<Rightarrow> (None, A\<lparr>aq_booked := c, aq_inflight := take c (aq_items A), aq_items := drop c (aq_items A)\<rparr>)))"

definition aq_next :: "'a aqueue \<Rightarrow> 'a option \<times> 'a aqueue" where
  "aq_next A =
     (case aq_inflight A of
        [] \<Rightarrow> (None, A)
      | x # r \<Rightarrow> (Some x, A\<lparr>aq_inflight := r, aq_booked := (if r = [] then 0 else aq_booked A)\<rparr>))"

text \<open>
  Stealing. The items are taken from the source first and then added to the destination,
  which may be the same queue.
\<close>

definition aq_move :: "nat \<Rightarrow> nat \<Rightarrow> nat \<Rightarrow> nat \<Rightarrow> (nat \<Rightarrow> 'a aqueue) \<Rightarrow> nat \<Rightarrow> 'a aqueue" where
  "aq_move c k self dest S =
     (let A = S self;
          S1 = S(self := A\<lparr>aq_items := drop c (aq_items A)\<rparr>)
      in S1(dest := (S1 dest)\<lparr>aq_items := aq_items (S1 dest) @ take k (aq_items A)\<rparr>))"

definition aq_steal ::
  "nat \<Rightarrow> count_fn \<Rightarrow> nat \<Rightarrow> nat \<Rightarrow> (nat \<Rightarrow> 'a aqueue) \<Rightarrow> ((steal_error + nat) \<times> (nat \<Rightarrow> 'a aqueue)) res" where
  "aq_steal fails f self dest S =
     rbind (aq_book fails f (word_of_nat (aq_room (S dest))) (S self)) (\<lambda>r.
       Inr (case r of Inl e \<Rightarrow> (Inl e, S) | Inr c \<Rightarrow> (Inr c, aq_move c c self dest S)))"

definition aq_steal_and_pop ::
  "nat \<Rightarrow> count_fn \<Rightarrow> nat \<Rightarrow> nat \<Rightarrow> (nat \<Rightarrow> 'a aqueue) \<Rightarrow> ((steal_error + 'a \<times> nat) \<times> (nat \<Rightarrow> 'a aqueue)) res" where
  "aq_steal_and_pop fails f self dest S =
     rbind (aq_book fails f (word_of_nat (aq_room (S dest)) + 1) (S self)) (\<lambda>r.
       Inr (case r of
          Inl e \<Rightarrow> (Inl e, S)
        | Inr c \<Rightarrow> (Inr (aq_items (S self) ! (c - 1), c - 1), aq_move c (c - 1) self dest S)))"

subsection \<open>The specification keeps its invariant\<close>

lemma aq_book_bounds:
  assumes "aq_book fails f m A = Inr (Inr c)" "aq_wf A"
  shows "aq_booked A = 0" "aq_inflight A = []" "0 < c" "c \<le> length (aq_items A)" "c \<le> unat m"
proof -
  obtain w where w: "book_choice fails 0 f m (word_of_nat (length (aq_items A))) = Inr (Inr w)" "c = unat w"
    and b: "aq_booked A = 0"
    using assms(1) by (cases "book_choice fails 0 f m (word_of_nat (length (aq_items A)))")
      (auto simp: aq_book_def split: if_splits sum.splits)
  have "length (aq_items A) < 4294967296" using assms(2) by (simp add: aq_wf_def)
  then have "unat (word_of_nat (length (aq_items A)) :: ushort) = length (aq_items A)" by (simp add: unat_of_nat32)
  with book_choice_bounds [OF w(1)] w(2) show "0 < c" "c \<le> length (aq_items A)" "c \<le> unat m" by simp_all
  show "aq_booked A = 0" by (rule b)
  with assms(2) show "aq_inflight A = []" by (simp add: aq_wf_def)
qed

lemma aq_wf_new: "cap \<le> 2147483648 \<Longrightarrow> aq_wf (aq_new cap)"
  by (simp add: aq_wf_def aq_new_def)

lemma aq_wf_push: "aq_wf A \<Longrightarrow> aq_wf (snd (aq_push A x))"
  by (auto simp: aq_wf_def aq_push_def aq_room_def)

lemma aq_wf_extend: "aq_wf A \<Longrightarrow> aq_wf (snd (aq_extend A xs))"
  by (auto simp: aq_wf_def aq_extend_def aq_room_def)

lemma aq_wf_pop: "aq_wf A \<Longrightarrow> aq_wf (snd (aq_pop D A))"
  by (cases "aq_items A") (auto simp: aq_wf_def aq_pop_def split: discipline.split)

lemma aq_wf_drain:
  assumes wf: "aq_wf A" and d: "aq_drain fails f A = Inr (r, A')"
  shows "aq_wf A'"
proof -
  obtain b where b: "aq_book fails f (- 1) A = Inr b" using d by (auto simp: aq_drain_def rbind_Inr_iff)
  show ?thesis
  proof (cases b)
    case (Inl e)
    then show ?thesis using d b wf by (simp add: aq_drain_def)
  next
    case (Inr c)
    have "0 < c" "c \<le> length (aq_items A)" "aq_booked A = 0"
      using aq_book_bounds [OF b [unfolded Inr] wf] by simp_all
    with Inr show ?thesis using d b wf by (auto simp: aq_drain_def aq_wf_def)
  qed
qed

lemma aq_wf_next: "aq_wf A \<Longrightarrow> aq_wf (snd (aq_next A))"
  by (cases "aq_inflight A") (auto simp: aq_wf_def aq_next_def)

lemma aq_wf_move:
  assumes "\<And>i. aq_wf (S i)" "aq_booked (S self) = 0" "c \<le> length (aq_items (S self))" "k \<le> c" "k \<le> aq_room (S dest)"
  shows "aq_wf (aq_move c k self dest S i)"
  using assms(1) [of i] assms(1) [of self] assms(1) [of dest] assms(2-)
  by (auto simp: aq_move_def aq_wf_def aq_room_def Let_def)

section \<open>Client programs\<close>

text \<open>The methods of a queue type.\<close>

record ('q, 'd, 'a) wq_ops =
  wq_new :: "nat \<Rightarrow> 'q res"
  wq_capacity :: "'q \<Rightarrow> usize"
  wq_push :: "'q \<Rightarrow> 'a \<Rightarrow> (('a + unit) \<times> 'q) res"
  wq_extend :: "'q \<Rightarrow> 'a list \<Rightarrow> ('a list \<times> 'q) res"
  wq_pop :: "nat \<Rightarrow> 'q \<Rightarrow> ('a option \<times> 'q) res"
  wq_spare_capacity :: "'q \<Rightarrow> usize res"
  wq_is_empty :: "'q \<Rightarrow> bool"
  wq_drain :: "nat \<Rightarrow> count_fn \<Rightarrow> 'q \<Rightarrow> ((steal_error + 'd) \<times> 'q) res"
  wq_next :: "nat \<Rightarrow> 'd \<Rightarrow> 'q \<Rightarrow> ('a option \<times> 'd \<times> 'q) res"
  wq_size_hint :: "'d \<Rightarrow> usize \<times> usize option"
  wq_steal :: "nat \<Rightarrow> nat \<Rightarrow> count_fn \<Rightarrow> nat \<Rightarrow> nat \<Rightarrow> (nat \<Rightarrow> 'q) \<Rightarrow> ((steal_error + usize) \<times> (nat \<Rightarrow> 'q)) res"
  wq_steal_and_pop :: "nat \<Rightarrow> nat \<Rightarrow> count_fn \<Rightarrow> nat \<Rightarrow> nat \<Rightarrow> (nat \<Rightarrow> 'q) \<Rightarrow>
     ((steal_error + 'a \<times> usize) \<times> (nat \<Rightarrow> 'q)) res"
  wq_drop :: "'q \<Rightarrow> ('a list \<times> 'q) res"

text \<open>
  A call of a client on the queues \<open>0, 1, \<dots>\<close>. Calls that end in compare-exchange loops say
  how often these fail spuriously. \<open>Next\<close> and \<open>SizeHint\<close> use the most recent drain of the
  queue.
\<close>

datatype 'a call =
    Push nat 'a
  | Extend nat "'a list"
  | Pop nat nat
  | SpareCapacity nat
  | IsEmpty nat
  | Drain nat nat count_fn
  | Next nat nat
  | SizeHint nat
  | Steal nat nat count_fn nat nat
  | StealAndPop nat nat count_fn nat nat

datatype 'a reply =
    Pushed
  | Full 'a
  | Rest "'a list"
  | Item "'a option"
  | Count nat
  | Flag bool
  | Failed steal_error
  | Stolen 'a nat
  | Nothing

record ('q, 'd) wq_state =
  queues :: "nat \<Rightarrow> 'q"
  drains :: "nat \<Rightarrow> 'd option"

definition push_reply :: "'a + unit \<Rightarrow> 'a reply" where
  "push_reply r = (case r of Inl x \<Rightarrow> Full x | Inr _ \<Rightarrow> Pushed)"

fun wq_call :: "('q, 'd, 'a) wq_ops \<Rightarrow> 'a call \<Rightarrow> ('q, 'd) wq_state \<Rightarrow> ('a reply \<times> ('q, 'd) wq_state) res" where
  "wq_call W (Push i x) C =
     rbind (wq_push W (queues C i) x) (\<lambda>(r, q). Inr (push_reply r, C\<lparr>queues := (queues C)(i := q)\<rparr>))"
| "wq_call W (Extend i xs) C =
     rbind (wq_extend W (queues C i) xs) (\<lambda>(r, q). Inr (Rest r, C\<lparr>queues := (queues C)(i := q)\<rparr>))"
| "wq_call W (Pop n i) C =
     rbind (wq_pop W n (queues C i)) (\<lambda>(r, q). Inr (Item r, C\<lparr>queues := (queues C)(i := q)\<rparr>))"
| "wq_call W (SpareCapacity i) C =
     rbind (wq_spare_capacity W (queues C i)) (\<lambda>n. Inr (Count (unat n), C))"
| "wq_call W (IsEmpty i) C = Inr (Flag (wq_is_empty W (queues C i)), C)"
| "wq_call W (Drain i n f) C =
     rbind (wq_drain W n f (queues C i)) (\<lambda>(r, q).
       Inr (case r of
          Inl e \<Rightarrow> (Failed e, C\<lparr>queues := (queues C)(i := q)\<rparr>)
        | Inr d \<Rightarrow> (Nothing, C\<lparr>queues := (queues C)(i := q), drains := (drains C)(i := Some d)\<rparr>)))"
| "wq_call W (Next n i) C =
     (case drains C i of
        None \<Rightarrow> Inr (Nothing, C)
      | Some d \<Rightarrow> rbind (wq_next W n d (queues C i)) (\<lambda>(r, d', q).
          Inr (Item r, C\<lparr>queues := (queues C)(i := q), drains := (drains C)(i := Some d')\<rparr>)))"
| "wq_call W (SizeHint i) C =
     (case drains C i of
        None \<Rightarrow> Inr (Nothing, C)
      | Some d \<Rightarrow> Inr (Count (unat (fst (wq_size_hint W d))), C))"
| "wq_call W (Steal n n' f self dest) C =
     rbind (wq_steal W n n' f self dest (queues C)) (\<lambda>(r, Q).
       Inr (case r of Inl e \<Rightarrow> Failed e | Inr k \<Rightarrow> Count (unat k), C\<lparr>queues := Q\<rparr>))"
| "wq_call W (StealAndPop n n' f self dest) C =
     rbind (wq_steal_and_pop W n n' f self dest (queues C)) (\<lambda>(r, Q).
       Inr (case r of Inl e \<Rightarrow> Failed e | Inr (x, k) \<Rightarrow> Stolen x (unat k), C\<lparr>queues := Q\<rparr>))"

fun wq_run :: "('q, 'd, 'a) wq_ops \<Rightarrow> 'a call list \<Rightarrow> ('q, 'd) wq_state \<Rightarrow> ('a reply list \<times> ('q, 'd) wq_state) res" where
  "wq_run W [] C = Inr ([], C)"
| "wq_run W (c # cs) C =
     rbind (wq_call W c C) (\<lambda>(r, C'). rbind (wq_run W cs C') (\<lambda>(rs, C''). Inr (r # rs, C'')))"

text \<open>The same calls on the specification; the flag says which queues have had a drain.\<close>

type_synonym 'a aq_state = "nat \<Rightarrow> bool \<times> 'a aqueue"

abbreviation aq_of :: "'a aq_state \<Rightarrow> nat \<Rightarrow> 'a aqueue" where
  "aq_of S i \<equiv> snd (S i)"

definition aq_set :: "'a aq_state \<Rightarrow> nat \<Rightarrow> 'a aqueue \<Rightarrow> 'a aq_state" where
  "aq_set S i A = S(i := (fst (S i), A))"

definition aq_with :: "'a aq_state \<Rightarrow> (nat \<Rightarrow> 'a aqueue) \<Rightarrow> 'a aq_state" where
  "aq_with S T = (\<lambda>i. (fst (S i), T i))"

fun aq_call :: "discipline \<Rightarrow> 'a call \<Rightarrow> 'a aq_state \<Rightarrow> ('a reply \<times> 'a aq_state) res" where
  "aq_call D (Push i x) S = (let (r, A) = aq_push (aq_of S i) x in Inr (push_reply r, aq_set S i A))"
| "aq_call D (Extend i xs) S = (let (r, A) = aq_extend (aq_of S i) xs in Inr (Rest r, aq_set S i A))"
| "aq_call D (Pop n i) S = (let (r, A) = aq_pop D (aq_of S i) in Inr (Item r, aq_set S i A))"
| "aq_call D (SpareCapacity i) S = Inr (Count (aq_room (aq_of S i)), S)"
| "aq_call D (IsEmpty i) S = Inr (Flag (aq_items (aq_of S i) = []), S)"
| "aq_call D (Drain i n f) S =
     rbind (aq_drain n f (aq_of S i)) (\<lambda>(r, A).
       Inr (case r of Some e \<Rightarrow> (Failed e, S) | None \<Rightarrow> (Nothing, S(i := (True, A)))))"
| "aq_call D (Next n i) S =
     (if fst (S i) then let (r, A) = aq_next (aq_of S i) in Inr (Item r, aq_set S i A) else Inr (Nothing, S))"
| "aq_call D (SizeHint i) S =
     (if fst (S i) then Inr (Count (length (aq_inflight (aq_of S i))), S) else Inr (Nothing, S))"
| "aq_call D (Steal n n' f self dest) S =
     rbind (aq_steal n f self dest (aq_of S)) (\<lambda>(r, T).
       Inr (case r of Inl e \<Rightarrow> Failed e | Inr k \<Rightarrow> Count k, aq_with S T))"
| "aq_call D (StealAndPop n n' f self dest) S =
     rbind (aq_steal_and_pop n f self dest (aq_of S)) (\<lambda>(r, T).
       Inr (case r of Inl e \<Rightarrow> Failed e | Inr (x, k) \<Rightarrow> Stolen x k, aq_with S T))"

fun aq_run :: "discipline \<Rightarrow> 'a call list \<Rightarrow> 'a aq_state \<Rightarrow> ('a reply list \<times> 'a aq_state) res" where
  "aq_run D [] S = Inr ([], S)"
| "aq_run D (c # cs) S =
     rbind (aq_call D c S) (\<lambda>(r, S'). rbind (aq_run D cs S') (\<lambda>(rs, S''). Inr (r # rs, S'')))"

section \<open>Conservation of items\<close>

fun call_in :: "'a call \<Rightarrow> 'a multiset" where
  "call_in (Push i x) = {#x#}"
| "call_in (Extend i xs) = mset xs"
| "call_in _ = {#}"

fun reply_out :: "'a reply \<Rightarrow> 'a multiset" where
  "reply_out (Full x) = {#x#}"
| "reply_out (Rest xs) = mset xs"
| "reply_out (Item (Some x)) = {#x#}"
| "reply_out (Stolen x n) = {#x#}"
| "reply_out _ = {#}"

fun call_queues :: "'a call \<Rightarrow> nat set" where
  "call_queues (Push i x) = {i}"
| "call_queues (Extend i xs) = {i}"
| "call_queues (Pop n i) = {i}"
| "call_queues (SpareCapacity i) = {i}"
| "call_queues (IsEmpty i) = {i}"
| "call_queues (Drain i n f) = {i}"
| "call_queues (Next n i) = {i}"
| "call_queues (SizeHint i) = {i}"
| "call_queues (Steal n n' f self dest) = {self, dest}"
| "call_queues (StealAndPop n n' f self dest) = {self, dest}"

definition aq_contents :: "'a aqueue \<Rightarrow> 'a multiset" where
  "aq_contents A = mset (aq_inflight A) + mset (aq_items A)"

definition aq_total :: "nat set \<Rightarrow> 'a aq_state \<Rightarrow> 'a multiset" where
  "aq_total N S = (\<Sum>i\<in>N. aq_contents (aq_of S i))"

lemma aq_total_set:
  assumes "finite N" "i \<in> N"
  shows "aq_total N (S(i := (b, A))) + aq_contents (aq_of S i) = aq_total N S + aq_contents A"
proof -
  have "aq_total N (S(i := (b, A))) = aq_contents A + (\<Sum>j\<in>N - {i}. aq_contents (aq_of S j))"
    using assms by (simp add: aq_total_def sum.remove)
  moreover have "aq_total N S = aq_contents (aq_of S i) + (\<Sum>j\<in>N - {i}. aq_contents (aq_of S j))"
    using assms by (simp add: aq_total_def sum.remove)
  ultimately show ?thesis by (simp add: ac_simps)
qed

text \<open>A change of one queue that keeps the balance keeps it for all queues together.\<close>

lemma aq_total_balance:
  assumes "finite N" "i \<in> N" "aq_contents A + out = aq_contents (aq_of S i) + inp"
  shows "aq_total N (S(i := (b, A))) + out = aq_total N S + inp"
proof -
  have "aq_total N (S(i := (b, A))) + out + aq_contents (aq_of S i) = aq_total N S + aq_contents A + out"
    using aq_total_set [OF assms(1,2), of S b A] by (simp add: ac_simps)
  also have "\<dots> = aq_total N S + inp + aq_contents (aq_of S i)" using assms(3) by (simp add: ac_simps)
  finally show ?thesis by simp
qed

lemma aq_push_balance:
  "aq_contents (snd (aq_push A x)) + reply_out (push_reply (fst (aq_push A x))) = aq_contents A + {#x#}"
  by (simp add: aq_push_def aq_contents_def push_reply_def)

lemma aq_extend_balance: "aq_contents (snd (aq_extend A xs)) + mset (fst (aq_extend A xs)) = aq_contents A + mset xs"
  by (simp add: aq_extend_def aq_contents_def) (metis append_take_drop_id mset_append)

lemma aq_pop_balance: "aq_contents (snd (aq_pop D A)) + reply_out (Item (fst (aq_pop D A))) = aq_contents A"
proof -
  have "mset (butlast xs) + {#last xs#} = mset xs" if "xs \<noteq> []" for xs :: "'a list"
    using that by (metis append_butlast_last_id mset_append mset_single_iff_right)
  then show ?thesis
    by (cases "aq_items A") (auto simp: aq_pop_def aq_contents_def split: discipline.split)
qed

lemma aq_next_balance: "aq_contents (snd (aq_next A)) + reply_out (Item (fst (aq_next A))) = aq_contents A"
  by (auto simp: aq_next_def aq_contents_def split: list.splits)

lemma aq_drain_cases:
  assumes d: "aq_drain n f A = Inr (r, A')" and wf: "aq_wf A"
  obtains (failed) e where "r = Some e" "A' = A"
  | (booked) c where "r = None" "aq_inflight A = []"
      "A' = A\<lparr>aq_booked := c, aq_inflight := take c (aq_items A), aq_items := drop c (aq_items A)\<rparr>"
proof -
  obtain b where b: "aq_book n f (- 1) A = Inr b" using d by (auto simp: aq_drain_def rbind_Inr_iff)
  show thesis
    using d b aq_book_bounds(2) [of n f "- 1" A, OF _ wf]
    by (cases b) (auto simp: aq_drain_def intro: that)
qed

lemma aq_move_balance:
  assumes N: "finite N" "self \<in> N" "dest \<in> N" and k: "k \<le> c"
  shows "aq_total N (aq_with S (aq_move c k self dest (aq_of S))) + mset (drop k (take c (aq_items (aq_of S self)))) = aq_total N S"
proof -
  let ?A = "aq_of S self" and ?xs = "aq_items (aq_of S self)"
  define S1 where "S1 = S(self := (fst (S self), ?A\<lparr>aq_items := drop c ?xs\<rparr>))"
  define B where "B = (aq_of S1 dest)\<lparr>aq_items := aq_items (aq_of S1 dest) @ take k ?xs\<rparr>"
  have "take c ?xs = take k ?xs @ drop k (take c ?xs)"
    using k by (metis append_take_drop_id min.absorb1 take_take)
  then have split: "mset ?xs = mset (drop c ?xs) + mset (take k ?xs) + mset (drop k (take c ?xs))"
    by (metis append_take_drop_id mset_append add.commute add.assoc)
  have "aq_total N S1 + (mset (take k ?xs) + mset (drop k (take c ?xs))) = aq_total N S + {#}"
    unfolding S1_def using N split by (intro aq_total_balance) (auto simp: aq_contents_def)
  moreover have "aq_total N (S1(dest := (fst (S1 dest), B))) + {#} = aq_total N S1 + mset (take k ?xs)"
    using N by (intro aq_total_balance) (auto simp: aq_contents_def B_def)
  moreover have "aq_with S (aq_move c k self dest (aq_of S)) = S1(dest := (fst (S1 dest), B))"
    by (auto simp: aq_with_def aq_move_def S1_def B_def Let_def fun_eq_iff)
  ultimately show ?thesis by (simp add: ac_simps)
qed

definition aq_state_wf :: "'a aq_state \<Rightarrow> bool" where
  "aq_state_wf S \<longleftrightarrow> (\<forall>i. aq_wf (aq_of S i))"

lemma aq_state_wf_set: "aq_state_wf S \<Longrightarrow> aq_wf A \<Longrightarrow> aq_state_wf (S(i := (b, A)))"
  by (simp add: aq_state_wf_def)

lemma aq_room_le: "aq_wf A \<Longrightarrow> aq_room A \<le> 2147483648"
  unfolding aq_wf_def aq_room_def by linarith

lemma unat_room: "aq_wf A \<Longrightarrow> unat (word_of_nat (aq_room A) :: ushort) = aq_room A"
  using aq_room_le [of A] by (simp add: unat_of_nat32)

lemma unat_room_Suc: "aq_wf A \<Longrightarrow> unat (word_of_nat (aq_room A) + 1 :: ushort) = Suc (aq_room A)"
  using aq_room_le [of A] by (simp add: unat_room unat_plus32)

lemma aq_steal_cases:
  assumes d: "aq_steal n f self dest T = Inr (r, T')" and wf: "\<And>i. aq_wf (T i)"
  obtains (failed) e where "r = Inl e" "T' = T"
  | (moved) c where "r = Inr c" "T' = aq_move c c self dest T" "0 < c" "c \<le> length (aq_items (T self))"
      "c \<le> aq_room (T dest)" "aq_booked (T self) = 0"
proof -
  obtain b where b: "aq_book n f (word_of_nat (aq_room (T dest))) (T self) = Inr b"
    using d by (auto simp: aq_steal_def rbind_Inr_iff)
  show thesis
  proof (cases b)
    case (Inl e)
    then show ?thesis using d b by (auto simp: aq_steal_def intro: failed)
  next
    case (Inr c)
    show ?thesis
      using d b Inr aq_book_bounds [OF b [unfolded Inr] wf] unat_room [OF wf [of dest]]
      by (intro moved [of c]) (auto simp: aq_steal_def)
  qed
qed

lemma aq_steal_and_pop_cases:
  assumes d: "aq_steal_and_pop n f self dest T = Inr (r, T')" and wf: "\<And>i. aq_wf (T i)"
  obtains (failed) e where "r = Inl e" "T' = T"
  | (moved) c where "r = Inr (aq_items (T self) ! (c - 1), c - 1)" "T' = aq_move c (c - 1) self dest T" "0 < c"
      "c \<le> length (aq_items (T self))" "c - 1 \<le> aq_room (T dest)" "aq_booked (T self) = 0"
proof -
  obtain b where b: "aq_book n f (word_of_nat (aq_room (T dest)) + 1) (T self) = Inr b"
    using d by (auto simp: aq_steal_and_pop_def rbind_Inr_iff)
  show thesis
  proof (cases b)
    case (Inl e)
    then show ?thesis using d b by (auto simp: aq_steal_and_pop_def intro: failed)
  next
    case (Inr c)
    show ?thesis
      using d b Inr aq_book_bounds [OF b [unfolded Inr] wf] unat_room_Suc [OF wf [of dest]]
      by (intro moved [of c]) (auto simp: aq_steal_and_pop_def)
  qed
qed

lemma drop_take_last: "0 < c \<Longrightarrow> c \<le> length xs \<Longrightarrow> drop (c - 1) (take c xs) = [xs ! (c - 1)]"
  by (cases c) (auto simp: take_Suc_conv_app_nth)

lemma aq_call_balance:
  assumes c: "aq_call D c S = Inr (r, S')" and wf: "aq_state_wf S" and N: "finite N" "call_queues c \<subseteq> N"
  shows "aq_total N S' + reply_out r = aq_total N S + call_in c \<and> aq_state_wf S'"
proof (cases c)
  case (Push i x)
  have "aq_total N (S(i := (fst (S i), snd (aq_push (aq_of S i) x)))) + reply_out (push_reply (fst (aq_push (aq_of S i) x)))
      = aq_total N S + {#x#}"
    using N Push by (intro aq_total_balance aq_push_balance) auto
  moreover have "aq_state_wf S'"
    using c wf aq_wf_push [of "aq_of S i" x] by (auto simp: Push aq_set_def split_beta Let_def aq_state_wf_def)
  ultimately show ?thesis using c by (auto simp: Push aq_set_def split_beta Let_def)
next
  case (Extend i xs)
  have "aq_total N (S(i := (fst (S i), snd (aq_extend (aq_of S i) xs)))) + mset (fst (aq_extend (aq_of S i) xs))
      = aq_total N S + mset xs"
    using N Extend by (intro aq_total_balance aq_extend_balance) auto
  moreover have "aq_state_wf S'"
    using c wf aq_wf_extend [of "aq_of S i" xs] by (auto simp: Extend aq_set_def split_beta Let_def aq_state_wf_def)
  ultimately show ?thesis using c by (auto simp: Extend aq_set_def split_beta Let_def)
next
  case (Pop n i)
  have "aq_total N (S(i := (fst (S i), snd (aq_pop D (aq_of S i))))) + reply_out (Item (fst (aq_pop D (aq_of S i))))
      = aq_total N S + {#}"
    using N Pop by (intro aq_total_balance) (auto simp: aq_pop_balance)
  moreover have "aq_state_wf S'"
    using c wf aq_wf_pop [of "aq_of S i" D] by (auto simp: Pop aq_set_def split_beta Let_def aq_state_wf_def)
  ultimately show ?thesis using c by (auto simp: Pop aq_set_def split_beta Let_def)
next
  case (Next n i)
  have "aq_total N (S(i := (fst (S i), snd (aq_next (aq_of S i))))) + reply_out (Item (fst (aq_next (aq_of S i))))
      = aq_total N S + {#}"
    using N Next by (intro aq_total_balance) (auto simp: aq_next_balance)
  moreover have "aq_state_wf S'"
    using c wf aq_wf_next [of "aq_of S i"]
    by (auto simp: Next aq_set_def split_beta Let_def aq_state_wf_def split: if_splits)
  ultimately show ?thesis using c by (auto simp: Next aq_set_def split_beta Let_def split: if_splits)
next
  case (Drain i n f)
  obtain d A' where d: "aq_drain n f (aq_of S i) = Inr (d, A')" using c by (auto simp: Drain rbind_Inr_iff)
  have wfi: "aq_wf (aq_of S i)" using wf by (simp add: aq_state_wf_def)
  from d wfi show ?thesis
  proof (cases rule: aq_drain_cases)
    case (failed e)
    then show ?thesis using c d wf by (auto simp: Drain)
  next
    case (booked k)
    have "aq_total N (S(i := (True, A'))) + {#} = aq_total N S + {#}"
      using N booked by (intro aq_total_balance)
        (auto simp: Drain aq_contents_def simp flip: mset_append)
    then show ?thesis
      using c d booked aq_state_wf_set [OF wf aq_wf_drain [OF wfi d]] by (auto simp: Drain)
  qed
next
  case (Steal n n' f self dest)
  obtain d T where d: "aq_steal n f self dest (aq_of S) = Inr (d, T)" using c by (auto simp: Steal rbind_Inr_iff)
  have wfi: "aq_wf (aq_of S i)" for i using wf by (simp add: aq_state_wf_def)
  from d wfi show ?thesis
  proof (cases rule: aq_steal_cases)
    case (failed e)
    then show ?thesis using c d wf by (auto simp: Steal aq_with_def)
  next
    case (moved k)
    then show ?thesis
      using c d N aq_move_balance [of N self dest k k S] aq_wf_move [of "aq_of S" self k k dest, OF wfi]
      by (auto simp: Steal aq_state_wf_def aq_with_def)
  qed
next
  case (StealAndPop n n' f self dest)
  obtain d T where d: "aq_steal_and_pop n f self dest (aq_of S) = Inr (d, T)" using c by (auto simp: StealAndPop rbind_Inr_iff)
  have wfi: "aq_wf (aq_of S i)" for i using wf by (simp add: aq_state_wf_def)
  from d wfi show ?thesis
  proof (cases rule: aq_steal_and_pop_cases)
    case (failed e)
    then show ?thesis using c d wf by (auto simp: StealAndPop aq_with_def)
  next
    case (moved k)
    then show ?thesis
      using c d N aq_move_balance [of N self dest "k - 1" k S] aq_wf_move [of "aq_of S" self k "k - 1" dest, OF wfi]
      by (auto simp: StealAndPop aq_state_wf_def aq_with_def drop_take_last [unfolded One_nat_def])
  qed
qed (use c wf in \<open>auto split: if_splits\<close>)

lemma aq_run_balance:
  assumes "aq_run D cs S = Inr (rs, S')" "aq_state_wf S" "finite N" "\<forall>c \<in> set cs. call_queues c \<subseteq> N"
  shows "aq_total N S' + (\<Sum>r\<leftarrow>rs. reply_out r) = aq_total N S + (\<Sum>c\<leftarrow>cs. call_in c) \<and> aq_state_wf S'"
  using assms
proof (induction cs arbitrary: S rs)
  case (Cons c cs)
  obtain r S1 rs1 where c: "aq_call D c S = Inr (r, S1)" and cs: "aq_run D cs S1 = Inr (rs1, S')" "rs = r # rs1"
    using Cons.prems(1) by (auto simp: rbind_Inr_iff)
  have 1: "aq_total N S1 + reply_out r = aq_total N S + call_in c" "aq_state_wf S1"
    using aq_call_balance [OF c Cons.prems(2,3)] Cons.prems(4) by auto
  have 2: "aq_total N S' + (\<Sum>r\<leftarrow>rs1. reply_out r) = aq_total N S1 + (\<Sum>c\<leftarrow>cs. call_in c)" "aq_state_wf S'"
    using Cons.IH [OF cs(1) 1(2) Cons.prems(3)] Cons.prems(4) by auto
  have "aq_total N S' + (\<Sum>r\<leftarrow>rs. reply_out r) = aq_total N S1 + reply_out r + (\<Sum>c\<leftarrow>cs. call_in c)"
    using 2(1) cs(2) by (simp add: ac_simps)
  with 1(1) 2(2) show ?case by (simp add: ac_simps)
qed simp

section \<open>Closures\<close>

fun closure_of :: "'a call \<Rightarrow> count_fn option" where
  "closure_of (Drain i n f) = Some f"
| "closure_of (Steal n n' f self dest) = Some f"
| "closure_of (StealAndPop n n' f self dest) = Some f"
| "closure_of _ = None"

text \<open>The closure of a \<open>total_call\<close> never panics, that of a \<open>pure_call\<close> has no state.\<close>

definition total_call :: "'a call \<Rightarrow> bool" where
  "total_call c \<longleftrightarrow> (\<forall>f. closure_of c = Some f \<longrightarrow> (\<forall>k n. f k n \<noteq> None))"

definition pure_call :: "'a call \<Rightarrow> bool" where
  "pure_call c \<longleftrightarrow> (\<forall>f. closure_of c = Some f \<longrightarrow> (\<exists>g. f = (\<lambda>_. g)))"

text \<open>The call when no compare-exchange fails spuriously.\<close>

fun without_failures :: "'a call \<Rightarrow> 'a call" where
  "without_failures (Pop n i) = Pop 0 i"
| "without_failures (Drain i n f) = Drain i 0 f"
| "without_failures (Next n i) = Next 0 i"
| "without_failures (Steal n n' f self dest) = Steal 0 0 f self dest"
| "without_failures (StealAndPop n n' f self dest) = StealAndPop 0 0 f self dest"
| "without_failures c = c"

lemma aq_book_total: "(\<And>k n. f k n \<noteq> None) \<Longrightarrow> \<exists>r. aq_book n f m A = Inr r"
  using book_choice_no_panic [of f "word_of_nat (length (aq_items A))" n 0 m]
  by (auto simp: aq_book_def)

lemma aq_call_total:
  assumes "total_call c"
  shows "\<exists>r S'. aq_call D c S = Inr (r, S')"
proof -
  have book: "\<exists>r. aq_book n f m A = Inr r" if "closure_of c = Some f" for n f m and A :: "'a aqueue"
    using assms that by (intro aq_book_total) (auto simp: total_call_def)
  show ?thesis
  proof (cases c)
    case (Drain i n f)
    then show ?thesis using book [of f n "- 1" "aq_of S i"] by (auto simp: aq_drain_def split: sum.split)
  next
    case (Steal n n' f self dest)
    then show ?thesis
      using book [of f n "word_of_nat (aq_room (aq_of S dest))" "aq_of S self"] by (auto simp: aq_steal_def split: sum.split)
  next
    case (StealAndPop n n' f self dest)
    then show ?thesis
      using book [of f n "word_of_nat (aq_room (aq_of S dest)) + 1" "aq_of S self"]
      by (auto simp: aq_steal_and_pop_def split: sum.split)
  qed (auto simp: Let_def split_beta)
qed

lemma aq_run_total: "\<forall>c \<in> set cs. total_call c \<Longrightarrow> \<exists>rs S'. aq_run D cs S = Inr (rs, S')"
proof (induction cs arbitrary: S)
  case (Cons c cs)
  obtain r S1 where "aq_call D c S = Inr (r, S1)" using aq_call_total Cons.prems by fastforce
  moreover obtain rs S2 where "aq_run D cs S1 = Inr (rs, S2)" using Cons by fastforce
  ultimately show ?case by simp
qed simp

lemma aq_book_pure: "aq_book n (\<lambda>_. g) m A = aq_book 0 (\<lambda>_. g) m A"
  by (simp add: aq_book_def book_choice_pure del: book_choice.simps)

lemma aq_call_pure: "pure_call c \<Longrightarrow> aq_call D (without_failures c) S = aq_call D c S"
proof (cases c)
  case (Drain i n f)
  assume "pure_call c"
  with Drain obtain g where "f = (\<lambda>_. g)" by (auto simp: pure_call_def)
  with Drain show ?thesis by (simp add: aq_drain_def aq_book_pure [of n])
next
  case (Steal n n' f self dest)
  assume "pure_call c"
  with Steal obtain g where "f = (\<lambda>_. g)" by (auto simp: pure_call_def)
  with Steal show ?thesis by (simp add: aq_steal_def aq_book_pure [of n])
next
  case (StealAndPop n n' f self dest)
  assume "pure_call c"
  with StealAndPop obtain g where "f = (\<lambda>_. g)" by (auto simp: pure_call_def)
  with StealAndPop show ?thesis by (simp add: aq_steal_and_pop_def aq_book_pure [of n])
qed simp_all

lemma aq_run_pure: "\<forall>c \<in> set cs. pure_call c \<Longrightarrow> aq_run D (map without_failures cs) S = aq_run D cs S"
  by (induction cs arbitrary: S) (simp_all add: aq_call_pure)

section \<open>Runs from new queues\<close>

definition wq_start :: "(nat \<Rightarrow> 'q) \<Rightarrow> ('q, 'd) wq_state" where
  "wq_start q = \<lparr>queues = q, drains = (\<lambda>_. None)\<rparr>"

definition aq_start :: "(nat \<Rightarrow> nat) \<Rightarrow> 'a aq_state" where
  "aq_start n = (\<lambda>i. (False, aq_new (next_power_of_two (n i))))"

text \<open>No drain of the queue has items left to yield.\<close>

definition drain_finished :: "('q, 'd, 'a) wq_ops \<Rightarrow> ('q, 'd) wq_state \<Rightarrow> nat \<Rightarrow> bool" where
  "drain_finished W C i = (case drains C i of None \<Rightarrow> True | Some d \<Rightarrow> fst (wq_size_hint W d) = 0)"

lemma aq_total_start: "aq_total N (aq_start n) = {#}"
  by (simp add: aq_total_def aq_start_def aq_new_def aq_contents_def)

text \<open>The replies of a run can be computed without its final state.\<close>

lemma replies_ofE:
  assumes "map_sum id fst m = Inr rs"
  obtains S where "m = Inr (rs, S)"
  using assms by (cases m) auto

section \<open>The interface\<close>

locale work_queue =
  fixes W :: "('q, 'd, 'a) wq_ops" and D :: discipline and rep :: "'q \<Rightarrow> 'd option \<Rightarrow> 'a aqueue \<Rightarrow> bool"
  assumes rep_wf: "rep q d A \<Longrightarrow> aq_wf A"
    and new_law: "res_rel (\<lambda>q A. rep q None A) (wq_new W n)
      (if n \<le> MAX_CAPACITY then Inr (aq_new (next_power_of_two n)) else Inl AssertFailed)"
    and capacity_law: "rep q d A \<Longrightarrow> wq_capacity W q = word_of_nat (aq_cap A)"
    and push_law: "rep q d A \<Longrightarrow>
      res_rel (\<lambda>(r, q') (r', A'). r = r' \<and> rep q' d A') (wq_push W q x) (Inr (aq_push A x))"
    and extend_law: "rep q d A \<Longrightarrow>
      res_rel (\<lambda>(r, q') (r', A'). r = r' \<and> rep q' d A') (wq_extend W q xs) (Inr (aq_extend A xs))"
    and pop_law: "rep q d A \<Longrightarrow>
      res_rel (\<lambda>(r, q') (r', A'). r = r' \<and> rep q' d A') (wq_pop W n q) (Inr (aq_pop D A))"
    and spare_law: "rep q d A \<Longrightarrow> wq_spare_capacity W q = Inr (word_of_nat (aq_room A))"
    and is_empty_law: "rep q d A \<Longrightarrow> wq_is_empty W q \<longleftrightarrow> aq_items A = []"
    and drain_law: "rep q d A \<Longrightarrow>
      res_rel (\<lambda>(r, q') (r', A'). case r of
           Inl e \<Rightarrow> r' = Some e \<and> q' = q \<and> A' = A
         | Inr d' \<Rightarrow> r' = None \<and> rep q' (Some d') A') (wq_drain W n f q) (aq_drain n f A)"
    and next_law: "rep q (Some dr) A \<Longrightarrow>
      res_rel (\<lambda>(r, d', q') (r', A'). r = r' \<and> rep q' (Some d') A') (wq_next W n dr q) (Inr (aq_next A))"
    and size_hint_law: "rep q (Some dr) A \<Longrightarrow>
      wq_size_hint W dr = (word_of_nat (length (aq_inflight A)), Some (word_of_nat (length (aq_inflight A))))"
    and idle_law: "rep q None A \<Longrightarrow> aq_inflight A = []"
    and steal_law: "(\<And>i. rep (Q i) (ds i) (S i)) \<Longrightarrow>
      res_rel (\<lambda>(r, Q') (r', S'). map_sum id unat r = r' \<and> (\<forall>i. rep (Q' i) (ds i) (S' i)))
        (wq_steal W n n' f self dest Q) (aq_steal n f self dest S)"
    and steal_and_pop_law: "(\<And>i. rep (Q i) (ds i) (S i)) \<Longrightarrow>
      res_rel (\<lambda>(r, Q') (r', S'). map_sum id (apsnd unat) r = r' \<and> (\<forall>i. rep (Q' i) (ds i) (S' i)))
        (wq_steal_and_pop W n n' f self dest Q) (aq_steal_and_pop n f self dest S)"
    and drop_law: "rep q d A \<Longrightarrow> aq_booked A = 0 \<Longrightarrow> \<exists>q'. wq_drop W q = Inr (aq_items A, q')"
    and cap_law: "rep q d A \<Longrightarrow> 0 < aq_cap A"
begin

definition state_rel :: "('q, 'd) wq_state \<Rightarrow> 'a aq_state \<Rightarrow> bool" where
  "state_rel C S \<longleftrightarrow> (\<forall>i. rep (queues C i) (drains C i) (aq_of S i) \<and> fst (S i) = (drains C i \<noteq> None))"

lemma state_relD: "state_rel C S \<Longrightarrow> rep (queues C i) (drains C i) (aq_of S i)"
  by (simp add: state_rel_def)

lemma unat_size: "rep q d A \<Longrightarrow> n \<le> aq_cap A \<Longrightarrow> unat (word_of_nat n :: usize) = n"
  by (drule rep_wf) (simp add: unat_of_nat aq_wf_def)

lemma call_refines:
  assumes "state_rel C S"
  shows "res_rel (\<lambda>(r, C') (r', S'). r = r' \<and> state_rel C' S') (wq_call W c C) (aq_call D c S)"
proof -
  note rep = state_relD [OF assms]
  show ?thesis
  proof (cases c)
    case (Push i x)
    show ?thesis
      using push_law [OF rep [of i], of x] assms
      by (auto simp: Push Let_def split_beta aq_set_def state_rel_def dest!: res_rel_InrD)
  next
    case (Extend i xs)
    show ?thesis
      using extend_law [OF rep [of i], of xs] assms
      by (auto simp: Extend Let_def split_beta aq_set_def state_rel_def dest!: res_rel_InrD)
  next
    case (Pop n i)
    show ?thesis
      using pop_law [OF rep [of i], of n] assms
      by (auto simp: Pop Let_def split_beta aq_set_def state_rel_def dest!: res_rel_InrD)
  next
    case (SpareCapacity i)
    have "aq_room (aq_of S i) \<le> aq_cap (aq_of S i)" by (simp add: aq_room_def)
    from unat_size [OF rep this] show ?thesis using assms by (simp add: SpareCapacity spare_law [OF rep])
  next
    case (IsEmpty i)
    show ?thesis using assms by (simp add: IsEmpty is_empty_law [OF rep])
  next
    case (Drain i n f)
    show ?thesis
      unfolding Drain wq_call.simps aq_call.simps
      by (rule res_rel_bind [OF drain_law [OF rep]])
         (use assms in \<open>auto simp: state_rel_def split: sum.splits\<close>)
  next
    case (Next n i)
    show ?thesis
    proof (cases "drains C i")
      case None
      then show ?thesis using assms by (simp add: Next state_rel_def)
    next
      case (Some d)
      then show ?thesis
        using next_law [of "queues C i" d, OF rep [of i, unfolded Some], of n] assms
        by (auto simp: Next Let_def split_beta aq_set_def state_rel_def dest!: res_rel_InrD)
    qed
  next
    case (SizeHint i)
    show ?thesis
    proof (cases "drains C i")
      case None
      then show ?thesis using assms by (simp add: SizeHint state_rel_def)
    next
      case (Some d)
      have r: "rep (queues C i) (Some d) (aq_of S i)" using rep [of i] Some by simp
      then have "length (aq_inflight (aq_of S i)) \<le> aq_cap (aq_of S i)" using rep_wf by (fastforce simp: aq_wf_def)
      with r show ?thesis using assms Some
        by (simp add: SizeHint size_hint_law [OF r] unat_size [OF r] state_rel_def)
    qed
  next
    case (Steal n n' f self dest)
    show ?thesis
      unfolding Steal wq_call.simps aq_call.simps
      by (rule res_rel_bind [OF steal_law [of "queues C", OF rep]])
         (use assms in \<open>auto simp: state_rel_def aq_with_def split: sum.splits\<close>)
  next
    case (StealAndPop n n' f self dest)
    show ?thesis
      unfolding StealAndPop wq_call.simps aq_call.simps
      by (rule res_rel_bind [OF steal_and_pop_law [of "queues C", OF rep]])
         (use assms in \<open>auto simp: state_rel_def aq_with_def split: sum.splits\<close>)
  qed
qed

theorem run_refines:
  "state_rel C S \<Longrightarrow> res_rel (\<lambda>(rs, C') (rs', S'). rs = rs' \<and> state_rel C' S') (wq_run W cs C) (aq_run D cs S)"
proof (induction cs arbitrary: C S)
  case (Cons c cs)
  show ?case
    unfolding wq_run.simps aq_run.simps
    by (rule res_rel_bind [OF call_refines [OF Cons.prems]])
       (auto split: prod.splits intro!: res_rel_bind [OF Cons.IH])
qed simp

lemma start_rel: "(\<And>i. wq_new W (n i) = Inr (q i)) \<Longrightarrow> state_rel (wq_start q) (aq_start n)"
proof -
  assume new: "\<And>i. wq_new W (n i) = Inr (q i)"
  have "rep (q i) None (aq_new (next_power_of_two (n i)))" for i
    using new_law [of "n i"] new [of i] by (auto split: if_splits)
  then show ?thesis by (simp add: state_rel_def wq_start_def aq_start_def)
qed

lemma state_rel_wf: "state_rel C S \<Longrightarrow> aq_state_wf S"
  using state_relD rep_wf by (fastforce simp: aq_state_wf_def)

theorem replies_from_new:
  assumes "\<And>i. wq_new W (n i) = Inr (q i)"
  shows "res_rel (\<lambda>(rs, C) (rs', S). rs = rs' \<and> (\<forall>i. rep (queues C i) (drains C i) (aq_of S i)))
    (wq_run W cs (wq_start q)) (aq_run D cs (aq_start n))"
proof -
  have "res_rel (\<lambda>(rs, C) (rs', S). rs = rs' \<and> state_rel C S) (wq_run W cs (wq_start q)) (aq_run D cs (aq_start n))"
    by (rule run_refines [OF start_rel [of n q, OF assms]])
  then show ?thesis by (rule sum.rel_mono_strong) (auto simp: state_rel_def)
qed

theorem no_fault_from_new:
  assumes "\<And>i. wq_new W (n i) = Inr (q i)" "\<forall>c \<in> set cs. total_call c"
  shows "\<exists>rs C. wq_run W cs (wq_start q) = Inr (rs, C)"
  using replies_from_new [of n q cs, OF assms(1)] aq_run_total [OF assms(2), of D "aq_start n"]
  by (auto dest!: res_rel_InrD)

theorem failures_unobservable:
  assumes new: "\<And>i. wq_new W (n i) = Inr (q i)" and p: "\<forall>c \<in> set cs. pure_call c"
  shows "res_rel (\<lambda>(rs, C) (rs', C'). rs = rs')
    (wq_run W cs (wq_start q)) (wq_run W (map without_failures cs) (wq_start q))"
  using replies_from_new [of n q cs, OF new] replies_from_new [of n q "map without_failures cs", OF new]
  unfolding aq_run_pure [OF p]
  by (cases "aq_run D cs (aq_start n)"; cases "wq_run W cs (wq_start q)";
      cases "wq_run W (map without_failures cs) (wq_start q)") auto

lemma drain_finished_idle:
  assumes "state_rel C S" "drain_finished W C i"
  shows "aq_booked (aq_of S i) = 0" "aq_inflight (aq_of S i) = []"
proof -
  have r: "rep (queues C i) (drains C i) (aq_of S i)" and f: "fst (S i) = (drains C i \<noteq> None)"
    using assms(1) by (simp_all add: state_rel_def)
  have len: "length (aq_inflight (aq_of S i)) < 18446744073709551616"
    and wf: "aq_inflight (aq_of S i) = [] \<longrightarrow> aq_booked (aq_of S i) = 0"
    using rep_wf [OF r] by (auto simp: aq_wf_def)
  show *: "aq_inflight (aq_of S i) = []"
  proof (cases "drains C i")
    case None
    then show ?thesis using idle_law r by simp
  next
    case (Some d)
    then have "(word_of_nat (length (aq_inflight (aq_of S i))) :: usize) = 0"
      using assms(2) size_hint_law [of "queues C i" d] r by (simp add: drain_finished_def)
    then have "unat (word_of_nat (length (aq_inflight (aq_of S i))) :: usize) = 0" by simp
    with len show ?thesis by (simp add: unat_of_nat)
  qed
  with wf show "aq_booked (aq_of S i) = 0" by simp
qed

theorem conservation:
  assumes new: "\<And>i. wq_new W (n i) = Inr (q i)" and run: "wq_run W cs (wq_start q) = Inr (rs, C)"
    and N: "finite N" "\<forall>c \<in> set cs. call_queues c \<subseteq> N" and fin: "\<forall>i \<in> N. drain_finished W C i"
  shows "\<exists>ds. (\<forall>i \<in> N. \<exists>q'. wq_drop W (queues C i) = Inr (ds i, q')) \<and>
    (\<Sum>i\<in>N. mset (ds i)) + (\<Sum>r\<leftarrow>rs. reply_out r) = (\<Sum>c\<leftarrow>cs. call_in c)"
proof -
  have st: "state_rel (wq_start q) (aq_start n)" by (rule start_rel [of n q, OF new])
  obtain S where S: "aq_run D cs (aq_start n) = Inr (rs, S)" "state_rel C S"
    using run_refines [OF st, of cs] run by (cases "aq_run D cs (aq_start n)") auto
  have "aq_total N S + (\<Sum>r\<leftarrow>rs. reply_out r) = (\<Sum>c\<leftarrow>cs. call_in c)"
    using aq_run_balance [OF S(1) state_rel_wf [OF st] N] by (simp add: aq_total_start)
  moreover have "aq_total N S = (\<Sum>i\<in>N. mset (aq_items (aq_of S i)))"
    unfolding aq_total_def using fin drain_finished_idle(2) [OF S(2)]
    by (intro sum.cong) (simp_all add: aq_contents_def)
  moreover have "\<forall>i \<in> N. \<exists>q'. wq_drop W (queues C i) = Inr (aq_items (aq_of S i), q')"
    using drop_law [OF state_relD [OF S(2)]] drain_finished_idle(1) [OF S(2)] fin by blast
  ultimately show ?thesis by (intro exI [of _ "\<lambda>i. aq_items (aq_of S i)"]) simp
qed

end

end
