(* ===== verification/Lifo.thy ===== *)
theory Lifo
  imports Bulk_Transfer Work_Queue
begin

text \<open>
  The LIFO work-stealing queue, \<^verbatim>\<open>src/src/lifo.rs\<close>, one operation at a time: what each
  method of \<^verbatim>\<open>Queue\<close>, \<^verbatim>\<open>Worker\<close>, \<^verbatim>\<open>Drain\<close> and \<^verbatim>\<open>Stealer\<close> does when no other thread runs
  between its atomic accesses. The owner may use the queue while one of its \<^verbatim>\<open>Drain\<close>
  iterators is alive, so a state may have booked items that are not moved out yet. The
  theory of the interleavings is \<open>Lifo_Concurrent\<close>.

  A weak compare-exchange may fail spuriously; the operations that loop on one take the
  number of spurious failures it will have. A user closure takes the number of the call
  (it is an \<^verbatim>\<open>FnMut\<close>) and answers \<open>None\<close> when it panics.
\<close>

section \<open>Model\<close>

record 'a lifo_queue =
  push_count :: ushort
  pop_count_and_head :: ulong
  lifo_head :: ushort
  lifo_buffer :: "'a buffer"
  lifo_mask :: ushort

subsection \<open>Queue\<close>

definition lifo_read_at :: "'a lifo_queue \<Rightarrow> ushort \<Rightarrow> ('a \<times> 'a lifo_queue) res" where
  "lifo_read_at q position =
     rbind (ring_read (lifo_buffer q) (lifo_mask q) position) (\<lambda>(item, b).
       Inr (item, q\<lparr>lifo_buffer := b\<rparr>))"

definition lifo_write_at :: "'a lifo_queue \<Rightarrow> ushort \<Rightarrow> 'a \<Rightarrow> 'a lifo_queue res" where
  "lifo_write_at q position item =
     rbind (ring_write (lifo_buffer q) (lifo_mask q) position item) (\<lambda>b.
       Inr (q\<lparr>lifo_buffer := b\<rparr>))"

text \<open>
  The compare-exchange loop of \<^verbatim>\<open>book_items\<close>. The exchange succeeds if the word still is
  what was read and the attempt does not fail spuriously; otherwise the loop goes on with
  the word it found.
\<close>

function lifo_book_loop ::
  "nat \<Rightarrow> nat \<Rightarrow> count_fn \<Rightarrow> ushort \<Rightarrow> ushort \<Rightarrow> ulong \<Rightarrow> 'a lifo_queue \<Rightarrow>
   ((steal_error + ushort \<times> ushort \<times> ushort) \<times> 'a lifo_queue) res" where
  "lifo_book_loop fails call count_fn max_count old_head pch q =
     (let (pop_count, head) = unpack pch in
      if old_head \<noteq> head then Inr (Inl Busy, q)
      else
        let tail = push_count q - pop_count;
            item_count = tail - head
        in if item_count = 0 then Inr (Inl Empty, q)
           else case count_fn call (ucast item_count) of
             None \<Rightarrow> Inl ClosurePanic
           | Some wanted \<Rightarrow>
               let cnt = min (ucast (min wanted (ucast max_count)) :: ushort) item_count in
               if cnt = 0 then Inr (Inl Empty, q)
               else
                 let new_head = head + cnt;
                     new_pch = pack pop_count new_head
                 in if pop_count_and_head q = pch \<and> fails = 0
                    then Inr (Inr (head, new_head, cnt), q\<lparr>pop_count_and_head := new_pch\<rparr>)
                    else lifo_book_loop (fails - 1) (Suc call) count_fn max_count old_head
                           (pop_count_and_head q) q)"
  by pat_completeness auto
termination
  by (relation "measure (\<lambda>(fails, call, f, m, h, pch, q). fails + (if pop_count_and_head q = pch then 0 else 1))")
     auto

declare lifo_book_loop.simps [simp del]

definition lifo_book_items ::
  "nat \<Rightarrow> count_fn \<Rightarrow> ushort \<Rightarrow> 'a lifo_queue \<Rightarrow>
   ((steal_error + ushort \<times> ushort \<times> ushort) \<times> 'a lifo_queue) res" where
  "lifo_book_items fails count_fn max_count q =
     lifo_book_loop fails 0 count_fn max_count (lifo_head q) (pop_count_and_head q) q"

definition lifo_capacity :: "'a lifo_queue \<Rightarrow> ushort" where
  "lifo_capacity q = lifo_mask q + 1"

text \<open>\<^verbatim>\<open>Drop for Queue\<close>: the items it drops, in order.\<close>

fun lifo_drop_loop :: "'a lifo_queue \<Rightarrow> ushort \<Rightarrow> nat list \<Rightarrow> ('a list \<times> 'a lifo_queue) res" where
  "lifo_drop_loop q head [] = Inr ([], q)"
| "lifo_drop_loop q head (offset # offsets) =
     rbind (lifo_read_at q (head + word_of_nat offset)) (\<lambda>(item, q').
     rbind (lifo_drop_loop q' head offsets) (\<lambda>(items, q''). Inr (item # items, q'')))"

definition lifo_drop :: "'a lifo_queue \<Rightarrow> ('a list \<times> 'a lifo_queue) res" where
  "lifo_drop q =
     (let head = lifo_head q;
          pop_count = fst (unpack (pop_count_and_head q));
          tail = push_count q - pop_count;
          cnt = tail - head
      in lifo_drop_loop q head [0..<unat cnt])"

subsection \<open>Worker\<close>

definition lifo_new :: "nat \<Rightarrow> 'a lifo_queue res" where
  "lifo_new min_capacity =
     rbind (assert_that (min_capacity \<le> MAX_CAPACITY)) (\<lambda>_.
       let capacity = next_power_of_two min_capacity in
       rbind (checked_minus (word_of_nat capacity) 1) (\<lambda>mask.
       Inr \<lparr>push_count = 0, pop_count_and_head = 0, lifo_head = 0,
            lifo_buffer = allocate_buffer capacity, lifo_mask = mask\<rparr>))"

definition lifo_worker_capacity :: "'a lifo_queue \<Rightarrow> usize" where
  "lifo_worker_capacity q = ucast (lifo_capacity q)"

definition lifo_spare_capacity :: "'a lifo_queue \<Rightarrow> usize res" where
  "lifo_spare_capacity q =
     (let pop_count = fst (unpack (pop_count_and_head q));
          tail = push_count q - pop_count;
          len = tail - lifo_head q
      in rbind (checked_minus (lifo_capacity q) len) (\<lambda>spare. Inr (ucast spare)))"

definition lifo_is_empty :: "'a lifo_queue \<Rightarrow> bool" where
  "lifo_is_empty q =
     (let (pop_count, head) = unpack (pop_count_and_head q);
          tail = push_count q - pop_count
      in tail = head)"

text \<open>\<open>Inl item\<close> is the full queue handing the item back.\<close>

definition lifo_push :: "'a lifo_queue \<Rightarrow> 'a \<Rightarrow> (('a + unit) \<times> 'a lifo_queue) res" where
  "lifo_push q item =
     (let pop_count = fst (unpack (pop_count_and_head q));
          tail = push_count q - pop_count;
          head = lifo_head q
      in if tail - head > lifo_mask q then Inr (Inl item, q)
         else rbind (lifo_write_at q tail item) (\<lambda>q'.
              Inr (Inr (), q'\<lparr>push_count := push_count q + 1\<rparr>)))"

text \<open>The items the iterator still holds when it is dropped are returned beside the queue.\<close>

fun lifo_extend_loop :: "'a lifo_queue \<Rightarrow> ushort \<Rightarrow> ushort \<Rightarrow> 'a list \<Rightarrow> (ushort \<times> 'a list \<times> 'a lifo_queue) res" where
  "lifo_extend_loop q max_tail tail [] = Inr (tail, [], q)"
| "lifo_extend_loop q max_tail tail (item # iter) =
     (if tail = max_tail then Inr (tail, item # iter, q)
      else rbind (lifo_write_at q tail item) (\<lambda>q'. lifo_extend_loop q' max_tail (tail + 1) iter))"

definition lifo_extend :: "'a lifo_queue \<Rightarrow> 'a list \<Rightarrow> ('a list \<times> 'a lifo_queue) res" where
  "lifo_extend q iter =
     (let pop_count = fst (unpack (pop_count_and_head q));
          tail = push_count q - pop_count;
          head = lifo_head q;
          max_tail = head + lifo_capacity q
      in rbind (lifo_extend_loop q max_tail tail iter) (\<lambda>(tail', rest, q').
           Inr (rest, q'\<lparr>push_count := tail' + pop_count\<rparr>)))"

text \<open>The compare-exchange loop of \<^verbatim>\<open>pop\<close>: \<open>None\<close> when the queue is empty.\<close>

function lifo_pop_loop ::
  "nat \<Rightarrow> ulong \<Rightarrow> ushort \<Rightarrow> ushort \<Rightarrow> ushort \<Rightarrow> 'a lifo_queue \<Rightarrow> 'a lifo_queue option" where
  "lifo_pop_loop fails pch head tail new_pop_count q =
     (if tail = head then None
      else
        let new_pch = pack new_pop_count head in
        if pop_count_and_head q = pch \<and> fails = 0
        then Some (q\<lparr>pop_count_and_head := new_pch\<rparr>)
        else lifo_pop_loop (fails - 1) (pop_count_and_head q) (snd (unpack (pop_count_and_head q)))
               tail new_pop_count q)"
  by pat_completeness auto
termination
  by (relation "measure (\<lambda>(fails, pch, head, tail, n, q). fails + (if pop_count_and_head q = pch then 0 else 1))")
     auto

declare lifo_pop_loop.simps [simp del]

definition lifo_pop :: "nat \<Rightarrow> 'a lifo_queue \<Rightarrow> ('a option \<times> 'a lifo_queue) res" where
  "lifo_pop fails q =
     (let pch = pop_count_and_head q;
          (pop_count, head) = unpack pch;
          tail = push_count q - pop_count;
          new_pop_count = pop_count + 1
      in case lifo_pop_loop fails pch head tail new_pop_count q of
           None \<Rightarrow> Inr (None, q)
         | Some q' \<Rightarrow> rbind (lifo_read_at q' (tail - 1)) (\<lambda>(item, q''). Inr (Some item, q'')))"

subsection \<open>Drain\<close>

record lifo_drain_iter =
  current :: ushort
  end_pos :: ushort

definition lifo_drain :: "nat \<Rightarrow> count_fn \<Rightarrow> 'a lifo_queue \<Rightarrow> ((steal_error + lifo_drain_iter) \<times> 'a lifo_queue) res" where
  "lifo_drain fails count_fn q =
     rbind (lifo_book_items fails count_fn (- 1) q) (\<lambda>(r, q').
       case r of
         Inl e \<Rightarrow> Inr (Inl e, q')
       | Inr (old_head, new_head, _) \<Rightarrow> Inr (Inr \<lparr>current = old_head, end_pos = new_head\<rparr>, q'))"

definition lifo_drain_next :: "lifo_drain_iter \<Rightarrow> 'a lifo_queue \<Rightarrow> ('a option \<times> lifo_drain_iter \<times> 'a lifo_queue) res" where
  "lifo_drain_next it q =
     (if current it = end_pos it then Inr (None, it, q)
      else rbind (lifo_read_at q (current it)) (\<lambda>(item, q').
        let it' = it\<lparr>current := current it + 1\<rparr>;
            q'' = (if current it' = end_pos it' then q'\<lparr>lifo_head := end_pos it'\<rparr> else q')
        in Inr (Some item, it', q'')))"

definition lifo_drain_size_hint :: "lifo_drain_iter \<Rightarrow> usize \<times> usize option" where
  "lifo_drain_size_hint it = (let sz = ucast (end_pos it - current it) in (sz, Some sz))"

text \<open>\<^verbatim>\<open>Drop for Drain\<close>: the iterator runs to its end.\<close>

function lifo_drain_drop :: "lifo_drain_iter \<Rightarrow> 'a lifo_queue \<Rightarrow> ('a list \<times> 'a lifo_queue) res" where
  "lifo_drain_drop it q =
     rbind (lifo_drain_next it q) (\<lambda>(item, it', q').
       case item of
         None \<Rightarrow> Inr ([], q')
       | Some x \<Rightarrow> rbind (lifo_drain_drop it' q') (\<lambda>(xs, q''). Inr (x # xs, q'')))"
  by pat_completeness auto
termination
proof (relation "measure (\<lambda>(it, q). unat (end_pos it - current it))")
  fix it q res item it' rest q' x
  assume "lifo_drain_next it q = Inr res" "(item, rest) = res" "(it', q') = rest" "item = Some x"
  then have "it' = it\<lparr>current := current it + 1\<rparr>" "current it \<noteq> end_pos it"
    by (auto simp: lifo_drain_next_def Let_def rbind_Inr_iff split: if_splits)
  then show "((it', q'), it, q) \<in> measure (\<lambda>(it, q). unat (end_pos it - current it))"
    using unat_minus_Suc [of "end_pos it" "current it"] by simp
qed simp

declare lifo_drain_drop.simps [simp del]

subsection \<open>Stealer\<close>

text \<open>
  The queues live in a store, because a stealer may be given the worker of the queue it
  steals from. \<open>lifo_transfer\<close> is the call of \<open>transfer_items\<close> on their buffers.
\<close>

type_synonym 'a lifo_store = "nat \<Rightarrow> 'a lifo_queue"

definition lifo_transfer ::
  "'a lifo_store \<Rightarrow> nat \<Rightarrow> ushort \<Rightarrow> nat \<Rightarrow> ushort \<Rightarrow> ushort \<Rightarrow> 'a lifo_store res" where
  "lifo_transfer Q src old_head dst dest_tail transfer_count =
     rbind (transfer_items (\<lambda>a. lifo_buffer (Q a)) src (lifo_mask (Q src)) old_head
              dst (lifo_mask (Q dst)) dest_tail transfer_count) (\<lambda>M.
       Inr (\<lambda>a. (Q a)\<lparr>lifo_buffer := M a\<rparr>))"

definition lifo_steal ::
  "nat \<Rightarrow> count_fn \<Rightarrow> nat \<Rightarrow> nat \<Rightarrow> 'a lifo_store \<Rightarrow> ((steal_error + usize) \<times> 'a lifo_store) res" where
  "lifo_steal fails count_fn self dest Q =
     (let dest_push_count = push_count (Q dest);
          dest_pop_count = fst (unpack (pop_count_and_head (Q dest)));
          dest_tail = dest_push_count - dest_pop_count;
          dest_head = lifo_head (Q dest)
      in rbind (checked_minus (lifo_capacity (Q dest)) (dest_tail - dest_head)) (\<lambda>dest_free_capacity.
         rbind (assert_that (dest_free_capacity \<le> lifo_capacity (Q dest))) (\<lambda>_.
         rbind (lifo_book_items fails count_fn dest_free_capacity (Q self)) (\<lambda>(r, q).
         case r of
           Inl e \<Rightarrow> Inr (Inl e, Q(self := q))
         | Inr (old_head, new_head, transfer_count) \<Rightarrow>
             rbind (assert_that (transfer_count \<le> dest_free_capacity)) (\<lambda>_.
             rbind (lifo_transfer (Q(self := q)) self old_head dest dest_tail transfer_count) (\<lambda>Q1.
             let Q2 = Q1(dest := (Q1 dest)\<lparr>push_count := dest_push_count + transfer_count\<rparr>);
                 Q3 = Q2(self := (Q2 self)\<lparr>lifo_head := new_head\<rparr>)
             in Inr (Inr (ucast transfer_count), Q3)))))))"

definition lifo_steal_and_pop ::
  "nat \<Rightarrow> count_fn \<Rightarrow> nat \<Rightarrow> nat \<Rightarrow> 'a lifo_store \<Rightarrow> ((steal_error + 'a \<times> usize) \<times> 'a lifo_store) res" where
  "lifo_steal_and_pop fails count_fn self dest Q =
     (let dest_push_count = push_count (Q dest);
          dest_pop_count = fst (unpack (pop_count_and_head (Q dest)));
          dest_tail = dest_push_count - dest_pop_count;
          dest_head = lifo_head (Q dest)
      in rbind (checked_minus (lifo_capacity (Q dest)) (dest_tail - dest_head)) (\<lambda>dest_free_capacity.
         rbind (assert_that (dest_free_capacity \<le> lifo_capacity (Q dest))) (\<lambda>_.
         rbind (checked_plus dest_free_capacity 1) (\<lambda>max_count.
         rbind (lifo_book_items fails count_fn max_count (Q self)) (\<lambda>(r, q).
         case r of
           Inl e \<Rightarrow> Inr (Inl e, Q(self := q))
         | Inr (old_head, new_head, cnt) \<Rightarrow>
             rbind (checked_minus cnt 1) (\<lambda>transfer_count.
             rbind (assert_that (transfer_count \<le> dest_free_capacity)) (\<lambda>_.
             rbind (lifo_transfer (Q(self := q)) self old_head dest dest_tail transfer_count) (\<lambda>Q1.
             rbind (lifo_read_at (Q1 self) (old_head + transfer_count)) (\<lambda>(last_item, q1).
             let Q2 = Q1(self := q1);
                 Q3 = Q2(dest := (Q2 dest)\<lparr>push_count := dest_push_count + transfer_count\<rparr>);
                 Q4 = Q3(self := (Q3 self)\<lparr>lifo_head := new_head\<rparr>)
             in Inr (Inr (last_item, ucast transfer_count), Q4))))))))))"

section \<open>What a queue holds\<close>

text \<open>
  \<open>lifo_rep q booked inflight items\<close>: from head to tail, the queue has \<open>booked\<close> positions
  that an unfinished steal or drain has claimed, the last of which still hold the items
  \<open>inflight\<close>, and then the available \<open>items\<close>, oldest first; every other slot is free.
  The queue is full when \<open>booked\<close> and \<open>items\<close> take up the whole ring.
\<close>

abbreviation lifo_pops :: "'a lifo_queue \<Rightarrow> ushort" where
  "lifo_pops q \<equiv> fst (unpack (pop_count_and_head q))"

abbreviation lifo_next_head :: "'a lifo_queue \<Rightarrow> ushort" where
  "lifo_next_head q \<equiv> snd (unpack (pop_count_and_head q))"

abbreviation lifo_tail :: "'a lifo_queue \<Rightarrow> ushort" where
  "lifo_tail q \<equiv> push_count q - lifo_pops q"

abbreviation lifo_cap :: "'a lifo_queue \<Rightarrow> nat" where
  "lifo_cap q \<equiv> cap_of (lifo_mask q)"

definition lifo_items :: "'a lifo_queue \<Rightarrow> 'a list" where
  "lifo_items q =
     ring_items (lifo_buffer q) (lifo_mask q) (lifo_next_head q) (unat (lifo_tail q - lifo_next_head q))"

definition lifo_booked :: "'a lifo_queue \<Rightarrow> nat" where
  "lifo_booked q = unat (lifo_next_head q - lifo_head q)"

definition lifo_rep :: "'a lifo_queue \<Rightarrow> nat \<Rightarrow> 'a list \<Rightarrow> 'a list \<Rightarrow> bool" where
  "lifo_rep q booked inflight items \<longleftrightarrow>
     ring_holds (lifo_buffer q) (lifo_mask q)
       (lifo_next_head q - word_of_nat (length inflight)) (inflight @ items) \<and>
     lifo_tail q = lifo_next_head q + word_of_nat (length items) \<and>
     lifo_next_head q = lifo_head q + word_of_nat booked \<and>
     length inflight \<le> booked \<and> booked + length items \<le> lifo_cap q"

lemma push_count_of_tail: "(p :: ushort) - c = h + n \<Longrightarrow> p = c + h + n"
  by (metis add.assoc add.commute diff_add_cancel)

lemma lifo_repD:
  assumes "lifo_rep q b fl xs"
  shows lifo_rep_holds: "ring_holds (lifo_buffer q) (lifo_mask q) (lifo_next_head q - word_of_nat (length fl)) (fl @ xs)"
    and lifo_rep_tail: "lifo_tail q = lifo_next_head q + word_of_nat (length xs)"
    and lifo_rep_head: "lifo_next_head q = lifo_head q + word_of_nat b"
    and lifo_rep_inflight: "length fl \<le> b"
    and lifo_rep_fits: "b + length xs \<le> lifo_cap q"
    and lifo_rep_mask: "is_mask (lifo_mask q)"
    and lifo_rep_push_count: "push_count q = lifo_pops q + lifo_next_head q + word_of_nat (length xs)"
proof -
  show "ring_holds (lifo_buffer q) (lifo_mask q) (lifo_next_head q - word_of_nat (length fl)) (fl @ xs)"
    and *: "lifo_tail q = lifo_next_head q + word_of_nat (length xs)"
    and "lifo_next_head q = lifo_head q + word_of_nat b"
    and "length fl \<le> b" and "b + length xs \<le> lifo_cap q"
    using assms unfolding lifo_rep_def by blast+
  show "is_mask (lifo_mask q)" using assms unfolding lifo_rep_def ring_holds_def ring_ok_def by blast
  show "push_count q = lifo_pops q + lifo_next_head q + word_of_nat (length xs)"
    using * by (rule push_count_of_tail)
qed

lemma lifo_rep_small:
  assumes "lifo_rep q b fl xs"
  shows "b + length xs \<le> 2147483648"
  using lifo_rep_fits [OF assms] cap_of_le [OF lifo_rep_mask [OF assms]] by linarith

lemma lifo_rep_items: "lifo_rep q b fl xs \<Longrightarrow> lifo_items q = xs"
  using ring_holds_items [OF lifo_rep_holds] lifo_rep_small [of q b fl xs]
  by (simp add: lifo_items_def lifo_rep_tail unat_of_nat_small)

lemma lifo_rep_booked: "lifo_rep q b fl xs \<Longrightarrow> lifo_booked q = b"
  using lifo_rep_small [of q b fl xs] lifo_rep_head [of q b fl xs]
  by (simp add: lifo_booked_def unat_of_nat_small)

lemma lifo_rep_len:
  assumes "lifo_rep q b fl xs"
  shows "lifo_tail q - lifo_head q = word_of_nat (b + length xs)"
    and "unat (lifo_tail q - lifo_head q) = b + length xs"
proof -
  show *: "lifo_tail q - lifo_head q = word_of_nat (b + length xs)"
    using lifo_rep_tail [OF assms] lifo_rep_head [OF assms] by simp
  show "unat (lifo_tail q - lifo_head q) = b + length xs"
    using lifo_rep_small [OF assms] by (simp only: * unat_of_nat_small)
qed

lemma lifo_capacity_cap: "is_mask (lifo_mask q) \<Longrightarrow> unat (lifo_capacity q) = lifo_cap q"
  by (simp add: lifo_capacity_def unat_capacity)

section \<open>Operations\<close>

subsection \<open>Creation and queries\<close>

lemma lifo_new_ok:
  assumes "n \<le> MAX_CAPACITY"
  shows "\<exists>q. lifo_new n = Inr q \<and> lifo_rep q 0 [] [] \<and> lifo_cap q = next_power_of_two n"
proof -
  obtain m where m: "is_mask m" "cap_of m = next_power_of_two n"
    "checked_minus (word_of_nat (next_power_of_two n)) 1 = Inr m"
    using capacity_mask [OF assms] by blast
  show ?thesis
    using assms m ring_holds_allocate [OF m(1), of 0] by (simp add: lifo_new_def Let_def lifo_rep_def)
qed

lemma lifo_spare_ok:
  assumes "lifo_rep q b fl xs"
  shows "lifo_spare_capacity q = Inr (word_of_nat (lifo_cap q - (b + length xs)))"
proof -
  have m: "is_mask (lifo_mask q)" by (rule lifo_rep_mask [OF assms])
  have le: "lifo_tail q - lifo_head q \<le> lifo_capacity q"
    using lifo_rep_len(2) [OF assms] lifo_rep_fits [OF assms] lifo_capacity_cap [OF m]
    by (simp add: word_le_nat_alt)
  have "unat (lifo_capacity q - (lifo_tail q - lifo_head q)) = lifo_cap q - (b + length xs)"
    using unat_sub [OF le] lifo_rep_len(2) [OF assms] lifo_capacity_cap [OF m] by simp
  then have "ucast (lifo_capacity q - (lifo_tail q - lifo_head q))
      = (word_of_nat (lifo_cap q - (b + length xs)) :: usize)"
    by (metis of_nat_unat)
  then show ?thesis using le by (simp add: lifo_spare_capacity_def Let_def)
qed

lemma lifo_is_empty_iff: "lifo_rep q b fl xs \<Longrightarrow> lifo_is_empty q \<longleftrightarrow> xs = []"
  using lifo_rep_tail [of q b fl xs] lifo_rep_small [of q b fl xs]
  by (simp add: lifo_is_empty_def Let_def split_beta of_nat_eq_0_small)

subsection \<open>Push and extend\<close>

lemma lifo_rep_tail_pos:
  assumes "lifo_rep q b fl xs"
  shows "lifo_tail q = lifo_next_head q - word_of_nat (length fl) + word_of_nat (length (fl @ xs))"
  using lifo_rep_tail [OF assms] by simp

lemma lifo_push_full:
  assumes "lifo_rep q b fl xs" "b + length xs = lifo_cap q"
  shows "lifo_push q x = Inr (Inl x, q)"
proof -
  have "unat (lifo_mask q) < unat (lifo_tail q - lifo_head q)"
    using lifo_rep_len(2) [OF assms(1)] assms(2) by (simp add: cap_of_def)
  then show ?thesis by (simp add: lifo_push_def Let_def word_less_nat_alt)
qed

lemma lifo_push_ok:
  assumes r: "lifo_rep q b fl xs" and room: "b + length xs < lifo_cap q"
  shows "\<exists>q'. lifo_push q x = Inr (Inr (), q') \<and> lifo_rep q' b fl (xs @ [x]) \<and>
     pop_count_and_head q' = pop_count_and_head q \<and> lifo_head q' = lifo_head q \<and> lifo_mask q' = lifo_mask q"
proof -
  let ?p = "lifo_next_head q - word_of_nat (length fl)"
  let ?b = "(lifo_buffer q)[ring_idx (lifo_mask q) (lifo_tail q) := Some x]"
  have guard: "\<not> lifo_mask q < lifo_tail q - lifo_head q"
    using lifo_rep_len(2) [OF r] room by (simp add: word_less_nat_alt cap_of_def)
  have "length (fl @ xs) < lifo_cap q" using room lifo_rep_inflight [OF r] by simp
  from ring_holds_write [OF lifo_rep_holds [OF r] this, of x, folded lifo_rep_tail_pos [OF r]]
  have w: "ring_write (lifo_buffer q) (lifo_mask q) (lifo_tail q) x = Inr ?b"
    and h: "ring_holds ?b (lifo_mask q) ?p (fl @ (xs @ [x]))" by simp_all
  have "lifo_rep (q\<lparr>lifo_buffer := ?b, push_count := push_count q + 1\<rparr>) b fl (xs @ [x])"
    using h r lifo_rep_tail [OF r] room by (simp add: lifo_rep_def algebra_simps)
  with guard w show ?thesis by (simp add: lifo_push_def Let_def lifo_write_at_def)
qed

lemma lifo_extend_loop_ok:
  assumes "ring_holds (lifo_buffer q) (lifo_mask q) p zs" "length zs + k \<le> lifo_cap q"
    "tail = p + word_of_nat (length zs)" "max_tail = tail + word_of_nat k" "k \<le> 2147483648"
  shows "\<exists>b'. lifo_extend_loop q max_tail tail iter
       = Inr (tail + word_of_nat (length (take k iter)), drop k iter, q\<lparr>lifo_buffer := b'\<rparr>) \<and>
     ring_holds b' (lifo_mask q) p (zs @ take k iter)"
  using assms
proof (induction iter arbitrary: q tail zs k)
  case Nil
  then show ?case by (auto intro: exI [of _ "lifo_buffer q"])
next
  case (Cons x iter)
  show ?case
  proof (cases k)
    case 0
    with Cons.prems show ?thesis by (auto intro: exI [of _ "lifo_buffer q"])
  next
    case (Suc k')
    have ne: "tail \<noteq> max_tail" using Cons.prems(4,5) of_nat_eq_0_small [of k] Suc by simp
    let ?b = "(lifo_buffer q)[ring_idx (lifo_mask q) tail := Some x]"
    have len: "length zs < lifo_cap q" using Cons.prems(2) Suc by simp
    have w: "ring_write (lifo_buffer q) (lifo_mask q) tail x = Inr ?b"
      and h: "ring_holds ?b (lifo_mask q) p (zs @ [x])"
      using ring_holds_write [OF Cons.prems(1) len, of x] Cons.prems(3) by simp_all
    have "\<exists>b'. lifo_extend_loop (q\<lparr>lifo_buffer := ?b\<rparr>) max_tail (tail + 1) iter
       = Inr (tail + 1 + word_of_nat (length (take k' iter)), drop k' iter, (q\<lparr>lifo_buffer := ?b\<rparr>)\<lparr>lifo_buffer := b'\<rparr>) \<and>
       ring_holds b' (lifo_mask (q\<lparr>lifo_buffer := ?b\<rparr>)) p ((zs @ [x]) @ take k' iter)"
      using h Cons.prems Suc by (intro Cons.IH) (simp_all add: algebra_simps)
    then show ?thesis using ne w Suc by (auto simp: lifo_write_at_def algebra_simps)
  qed
qed

lemma lifo_extend_ok:
  assumes r: "lifo_rep q b fl xs"
  defines "room \<equiv> lifo_cap q - (b + length xs)"
  shows "\<exists>q'. lifo_extend q iter = Inr (drop room iter, q') \<and> lifo_rep q' b fl (xs @ take room iter) \<and>
     pop_count_and_head q' = pop_count_and_head q \<and> lifo_head q' = lifo_head q \<and> lifo_mask q' = lifo_mask q"
proof -
  let ?p = "lifo_next_head q - word_of_nat (length fl)"
  have fits: "b + length xs \<le> lifo_cap q" by (rule lifo_rep_fits [OF r])
  have "unat (lifo_capacity q) = b + length xs + room"
    using lifo_capacity_cap [OF lifo_rep_mask [OF r]] fits by (simp add: room_def)
  then have "lifo_capacity q = word_of_nat (b + length xs + room)" by (metis of_nat_unat ucast_id)
  then have mt: "lifo_head q + lifo_capacity q = lifo_tail q + word_of_nat room"
    using lifo_rep_len(1) [OF r] by (simp add: algebra_simps)
  have small: "room \<le> 2147483648"
    using cap_of_le [OF lifo_rep_mask [OF r]] by (simp add: room_def)
  have fit: "length (fl @ xs) + room \<le> lifo_cap q"
    using fits lifo_rep_inflight [OF r] by (simp add: room_def)
  obtain b' where b': "lifo_extend_loop q (lifo_head q + lifo_capacity q) (lifo_tail q) iter
       = Inr (lifo_tail q + word_of_nat (length (take room iter)), drop room iter, q\<lparr>lifo_buffer := b'\<rparr>)"
    and h: "ring_holds b' (lifo_mask q) ?p ((fl @ xs) @ take room iter)"
    using lifo_extend_loop_ok [OF lifo_rep_holds [OF r] fit lifo_rep_tail_pos [OF r] mt small] by blast
  let ?q = "q\<lparr>lifo_buffer := b', push_count := push_count q + word_of_nat (length (take room iter))\<rparr>"
  have "lifo_rep ?q b fl (xs @ take room iter)"
    using h r fits lifo_rep_tail [OF r] by (simp add: lifo_rep_def room_def algebra_simps)
  with b' show ?thesis by (simp add: lifo_extend_def Let_def algebra_simps)
qed

subsection \<open>Pop\<close>

lemma lifo_pop_loop_eq:
  "lifo_pop_loop fails (pop_count_and_head q) (lifo_next_head q) tail n q =
     (if tail = lifo_next_head q then None else Some (q\<lparr>pop_count_and_head := pack n (lifo_next_head q)\<rparr>))"
  by (induction fails; subst lifo_pop_loop.simps) simp_all

lemma lifo_pop_empty: "lifo_rep q b fl [] \<Longrightarrow> lifo_pop fails q = Inr (None, q)"
  using lifo_rep_tail [of q b fl "[]"]
  by (simp add: lifo_pop_def Let_def split_beta lifo_pop_loop_eq)

lemma lifo_pop_ok:
  assumes r: "lifo_rep q b fl (xs @ [x])"
  shows "\<exists>q'. lifo_pop fails q = Inr (Some x, q') \<and> lifo_rep q' b fl xs \<and>
     lifo_next_head q' = lifo_next_head q \<and> lifo_head q' = lifo_head q \<and> lifo_mask q' = lifo_mask q"
proof -
  let ?p = "lifo_next_head q - word_of_nat (length fl)"
  let ?b = "(lifo_buffer q)[ring_idx (lifo_mask q) (lifo_tail q - 1) := None]"
  have "length (xs @ [x]) \<le> 2147483648" using lifo_rep_small [OF r] by simp
  then have ne: "lifo_tail q \<noteq> lifo_next_head q"
    using lifo_rep_tail [OF r] of_nat_eq_0_small [of "length (xs @ [x])"] by simp
  have pos: "lifo_tail q - 1 = ?p + word_of_nat (length (fl @ xs))"
    using lifo_rep_tail_pos [OF r] by (simp add: algebra_simps)
  have "ring_holds (lifo_buffer q) (lifo_mask q) ?p ((fl @ xs) @ [x])" using lifo_rep_holds [OF r] by simp
  from ring_holds_read_last [OF this, folded pos]
  have rd: "ring_read (lifo_buffer q) (lifo_mask q) (lifo_tail q - 1) = Inr (x, ?b)"
    and h: "ring_holds ?b (lifo_mask q) ?p (fl @ xs)" by simp_all
  have "lifo_rep (q\<lparr>pop_count_and_head := pack (lifo_pops q + 1) (lifo_next_head q), lifo_buffer := ?b\<rparr>) b fl xs"
    using h r lifo_rep_tail [OF r] by (simp add: lifo_rep_def algebra_simps)
  with rd ne show ?thesis
    by (simp add: lifo_pop_def Let_def split_beta lifo_pop_loop_eq lifo_read_at_def)
qed

subsection \<open>Booking\<close>

lemma lifo_book_busy:
  assumes "lifo_rep q b fl xs" "0 < b"
  shows "lifo_book_items fails f m q = Inr (Inl Busy, q)"
proof -
  have "lifo_head q \<noteq> lifo_next_head q"
    using lifo_rep_head [OF assms(1)] lifo_rep_small [OF assms(1)] assms(2) of_nat_eq_0_small [of b] by simp
  then show ?thesis
    by (simp add: lifo_book_items_def lifo_book_loop.simps [of fails] split_beta)
qed

lemma lifo_book_loop_eq:
  assumes "lifo_head q = lifo_next_head q" "n = lifo_tail q - lifo_next_head q" "n \<noteq> 0"
  shows "lifo_book_loop fails call f m (lifo_head q) (pop_count_and_head q) q =
    rbind (book_choice fails call f m n) (\<lambda>r.
      Inr (case r of Inl e \<Rightarrow> (Inl e, q)
           | Inr c \<Rightarrow> (Inr (lifo_next_head q, lifo_next_head q + c, c),
                       q\<lparr>pop_count_and_head := pack (lifo_pops q) (lifo_next_head q + c)\<rparr>)))"
  using assms
  by (induction fails arbitrary: call; subst lifo_book_loop.simps)
     (auto simp: split_beta Let_def steal_count_def split: option.splits)

lemma lifo_book_empty:
  assumes "lifo_rep q 0 [] []"
  shows "lifo_book_items fails f m q = Inr (Inl Empty, q)"
  using lifo_rep_head [OF assms] lifo_rep_tail [OF assms]
  by (simp add: lifo_book_items_def lifo_book_loop.simps [of fails] split_beta Let_def)

lemma lifo_book_choice:
  assumes r: "lifo_rep q 0 [] xs" and ne: "xs \<noteq> []"
  shows "lifo_book_items fails f m q =
    rbind (book_choice fails 0 f m (word_of_nat (length xs))) (\<lambda>r.
      Inr (case r of Inl e \<Rightarrow> (Inl e, q)
           | Inr c \<Rightarrow> (Inr (lifo_next_head q, lifo_next_head q + c, c),
                       q\<lparr>pop_count_and_head := pack (lifo_pops q) (lifo_next_head q + c)\<rparr>)))"
proof -
  have "lifo_head q = lifo_next_head q" using lifo_rep_head [OF r] by simp
  moreover have "word_of_nat (length xs) = lifo_tail q - lifo_next_head q" using lifo_rep_tail [OF r] by simp
  moreover have "(word_of_nat (length xs) :: ushort) \<noteq> 0"
    using ne lifo_rep_small [OF r] of_nat_eq_0_small [of "length xs"] by simp
  ultimately show ?thesis unfolding lifo_book_items_def by (rule lifo_book_loop_eq)
qed

lemma lifo_book_rep:
  assumes r: "lifo_rep q 0 [] xs" and c: "unat c \<le> length xs"
  shows "lifo_rep (q\<lparr>pop_count_and_head := pack (lifo_pops q) (lifo_next_head q + c)\<rparr>)
           (unat c) (take (unat c) xs) (drop (unat c) xs)"
proof -
  have "c = word_of_nat (unat c)" by simp
  moreover have "lifo_tail q = lifo_next_head q + word_of_nat (length xs)" by (rule lifo_rep_tail [OF r])
  moreover have "(word_of_nat (length xs - unat c) :: ushort) = word_of_nat (length xs) - c"
    using c by (simp add: of_nat_diff)
  ultimately show ?thesis
    using r c lifo_rep_head [OF r] by (simp add: lifo_rep_def min_def)
qed

subsection \<open>Drain\<close>

text \<open>A live drain iterator over the in-flight items \<open>fl\<close> of the queue.\<close>

definition drain_at :: "lifo_drain_iter \<Rightarrow> 'a lifo_queue \<Rightarrow> 'a list \<Rightarrow> bool" where
  "drain_at it q fl \<longleftrightarrow>
     end_pos it = lifo_next_head q \<and> current it = lifo_next_head q - word_of_nat (length fl)"

lemma lifo_drain_ok:
  assumes r: "lifo_rep q 0 [] xs" and ne: "xs \<noteq> []"
    and c: "book_choice fails 0 f (- 1) (word_of_nat (length xs)) = Inr (Inr c)"
  shows "\<exists>it q'. lifo_drain fails f q = Inr (Inr it, q') \<and> 0 < unat c \<and> unat c \<le> length xs \<and>
     lifo_rep q' (unat c) (take (unat c) xs) (drop (unat c) xs) \<and> drain_at it q' (take (unat c) xs) \<and>
     lifo_mask q' = lifo_mask q"
proof -
  have b: "0 < unat c" "unat c \<le> length xs"
    using book_choice_bounds [OF c] lifo_rep_small [OF r] by (simp_all add: unat_of_nat_small)
  with lifo_book_rep [OF r] show ?thesis
    by (auto simp: lifo_drain_def lifo_book_choice [OF r ne] c drain_at_def min_def)
qed

lemma lifo_drain_next_done: "drain_at it q [] \<Longrightarrow> lifo_drain_next it q = Inr (None, it, q)"
  by (simp add: lifo_drain_next_def drain_at_def)

lemma lifo_drain_next_ok:
  assumes r: "lifo_rep q b (x # fl) xs" and d: "drain_at it q (x # fl)"
  shows "\<exists>it' q'. lifo_drain_next it q = Inr (Some x, it', q') \<and>
     lifo_rep q' (if fl = [] then 0 else b) fl xs \<and> drain_at it' q' fl \<and>
     pop_count_and_head q' = pop_count_and_head q \<and> push_count q' = push_count q \<and> lifo_mask q' = lifo_mask q"
proof -
  let ?b = "(lifo_buffer q)[ring_idx (lifo_mask q) (current it) := None]"
  have cur: "current it = lifo_next_head q - word_of_nat (length (x # fl))" and e: "end_pos it = lifo_next_head q"
    using d by (simp_all add: drain_at_def)
  have fl: "length (x # fl) \<le> b" "b \<le> 2147483648"
    using lifo_rep_inflight [OF r] lifo_rep_small [OF r] by simp_all
  have ne: "current it \<noteq> end_pos it"
    unfolding cur e minus_eq_self using of_nat_eq_0_small [of "length (x # fl)"] fl
    by (auto simp del: of_nat_Suc list.size)
  have "ring_holds (lifo_buffer q) (lifo_mask q) (current it) (x # (fl @ xs))"
    using lifo_rep_holds [OF r] by (simp add: cur)
  from ring_holds_read_first [OF this]
  have rd: "ring_read (lifo_buffer q) (lifo_mask q) (current it) = Inr (x, ?b)"
    and h: "ring_holds ?b (lifo_mask q) (current it + 1) (fl @ xs)" by simp_all
  have nx: "current it + 1 = lifo_next_head q - word_of_nat (length fl)" by (simp add: cur)
  have last: "current it + 1 = end_pos it \<longleftrightarrow> fl = []"
    using of_nat_eq_0_small [of "length fl"] fl by (simp add: nx e)
  let ?q = "q\<lparr>lifo_buffer := ?b\<rparr>"
  let ?q' = "if fl = [] then ?q\<lparr>lifo_head := end_pos it\<rparr> else ?q"
  have "lifo_rep ?q' (if fl = [] then 0 else b) fl xs"
    using h r fl lifo_rep_fits [OF r] by (auto simp: lifo_rep_def nx e)
  moreover have "lifo_drain_next it q = Inr (Some x, it\<lparr>current := current it + 1\<rparr>, ?q')"
    using ne rd last by (simp add: lifo_drain_next_def lifo_read_at_def Let_def)
  moreover have "drain_at (it\<lparr>current := current it + 1\<rparr>) ?q' fl"
    by (simp add: drain_at_def nx e)
  ultimately show ?thesis by auto
qed

lemma lifo_drain_drop_ok:
  assumes "lifo_rep q b fl xs" "drain_at it q fl" "fl = [] \<Longrightarrow> b = 0"
  shows "\<exists>q'. lifo_drain_drop it q = Inr (fl, q') \<and> lifo_rep q' 0 [] xs"
  using assms
proof (induction fl arbitrary: q it b)
  case Nil
  then show ?case by (simp add: lifo_drain_drop.simps [of it] lifo_drain_next_done)
next
  case (Cons x fl)
  obtain it' q' where n: "lifo_drain_next it q = Inr (Some x, it', q')"
    and r: "lifo_rep q' (if fl = [] then 0 else b) fl xs" "drain_at it' q' fl"
    using lifo_drain_next_ok [OF Cons.prems(1,2)] by blast
  obtain q'' where "lifo_drain_drop it' q' = Inr (fl, q'')" "lifo_rep q'' 0 [] xs"
    using Cons.IH [OF r] by auto
  with n show ?case by (simp add: lifo_drain_drop.simps [of it])
qed

subsection \<open>Dropping the queue\<close>

lemma lifo_drop_loop_ok:
  assumes "ring_holds (lifo_buffer q) (lifo_mask q) (head + word_of_nat k) zs"
  shows "\<exists>b'. lifo_drop_loop q head [k..<k + length zs] = Inr (zs, q\<lparr>lifo_buffer := b'\<rparr>) \<and>
     ring_holds b' (lifo_mask q) (head + word_of_nat (k + length zs)) []"
  using assms
proof (induction zs arbitrary: q k)
  case Nil
  then show ?case by (auto intro: exI [of _ "lifo_buffer q"])
next
  case (Cons x zs)
  let ?b = "(lifo_buffer q)[ring_idx (lifo_mask q) (head + word_of_nat k) := None]"
  have rd: "ring_read (lifo_buffer q) (lifo_mask q) (head + word_of_nat k) = Inr (x, ?b)"
    and h: "ring_holds ?b (lifo_mask q) (head + word_of_nat (Suc k)) zs"
    using ring_holds_read_first [OF Cons.prems] by (simp_all add: ac_simps)
  have "\<exists>b'. lifo_drop_loop (q\<lparr>lifo_buffer := ?b\<rparr>) head [Suc k..<Suc k + length zs]
       = Inr (zs, (q\<lparr>lifo_buffer := ?b\<rparr>)\<lparr>lifo_buffer := b'\<rparr>) \<and>
       ring_holds b' (lifo_mask q) (head + word_of_nat (Suc k + length zs)) []"
    using Cons.IH [of "q\<lparr>lifo_buffer := ?b\<rparr>" "Suc k"] h by simp
  moreover have "[k..<k + length (x # zs)] = k # [Suc k..<Suc k + length zs]"
    using upt_conv_Cons [of k "k + length (x # zs)"] by (simp del: upt_Suc)
  ultimately show ?case using rd by (auto simp: lifo_read_at_def simp del: upt_Suc)
qed

lemma lifo_drop_ok:
  assumes r: "lifo_rep q b fl xs" and b: "length fl = b"
  shows "\<exists>q'. lifo_drop q = Inr (fl @ xs, q') \<and> (\<forall>i < lifo_cap q. lifo_buffer q' ! i = None)"
proof -
  have hd: "lifo_head q = lifo_next_head q - word_of_nat (length fl)" using lifo_rep_head [OF r] b by simp
  obtain b' where b': "lifo_drop_loop q (lifo_head q) [0..<0 + length (fl @ xs)] = Inr (fl @ xs, q\<lparr>lifo_buffer := b'\<rparr>)"
    and h: "ring_holds b' (lifo_mask q) (lifo_head q + word_of_nat (0 + length (fl @ xs))) []"
    using lifo_drop_loop_ok [of q "lifo_head q" 0 "fl @ xs"] lifo_rep_holds [OF r] hd by auto
  have "b' ! i = None" if "i < lifo_cap q" for i
    using ring_holds_empty [OF h that] .
  with b' lifo_rep_len(2) [OF r] b show ?thesis by (auto simp: lifo_drop_def Let_def)
qed

text \<open>
  The head the destructor starts from is the one that only the end of a steal moves. A
  \<^verbatim>\<open>Drain\<close> that was leaked (\<^verbatim>\<open>mem::forget\<close>) after it yielded an item has left moved-out
  slots behind that head.
\<close>

lemma lifo_drop_moved_out:
  assumes r: "lifo_rep q b fl xs" and b: "length fl < b"
  shows "lifo_drop q = Inl UninitRead"
proof -
  let ?p = "lifo_next_head q - word_of_nat (length fl)" and ?d = "b - length fl" and ?m = "lifo_mask q"
  have m: "is_mask ?m" and fits: "b + length xs \<le> lifo_cap q" by (fact lifo_rep_mask [OF r], fact lifo_rep_fits [OF r])
  have hd: "lifo_head q + word_of_nat ?d = ?p"
    using lifo_rep_head [OF r] b by (simp add: of_nat_diff)
  have "slot (lifo_buffer q) ?m ?p (lifo_cap q - ?d) = slot (lifo_buffer q) ?m (lifo_head q) (lifo_cap q + 0)"
    using slot_shift [of "lifo_buffer q" ?m "lifo_head q" ?d "lifo_cap q - ?d"] fits by (simp add: hd)
  also have "\<dots> = slot (lifo_buffer q) ?m (lifo_head q) 0" by (rule slot_cap [OF m])
  finally have "lifo_buffer q ! ring_idx ?m (lifo_head q) = slot (lifo_buffer q) ?m ?p (lifo_cap q - ?d)"
    by (simp add: slot_0)
  also have "\<dots> = None" using ring_holds_slot [OF lifo_rep_holds [OF r], of "lifo_cap q - ?d"] b fits by auto
  finally have "ring_read (lifo_buffer q) ?m (lifo_head q) = Inl UninitRead"
    using ring_holds_ok [OF lifo_rep_holds [OF r]] m by (simp add: ring_read_def Let_def ring_ok_def)
  moreover have "unat (lifo_tail q - lifo_head q) = Suc (b + length xs - 1)"
    using lifo_rep_len(2) [OF r] b by simp
  ultimately show ?thesis
    by (simp add: lifo_drop_def Let_def lifo_read_at_def upt_conv_Cons del: upt_Suc)
qed

subsection \<open>Steal\<close>

lemma lifo_free_capacity:
  assumes "lifo_rep q b fl xs"
  defines "free \<equiv> (word_of_nat (lifo_cap q - (b + length xs)) :: ushort)"
  shows "checked_minus (lifo_capacity q) (lifo_tail q - lifo_head q) = Inr free"
    and "free \<le> lifo_capacity q" and "unat free = lifo_cap q - (b + length xs)"
  unfolding free_def lifo_capacity_def
  using free_capacity [OF lifo_rep_mask [OF assms(1)] lifo_rep_len(2) [OF assms(1)] lifo_rep_fits [OF assms(1)]] by simp_all

lemma lifo_steal_error:
  assumes d: "lifo_rep (Q dest) b fl ys"
    and e: "lifo_book_items fails f (word_of_nat (lifo_cap (Q dest) - (b + length ys))) (Q self) = Inr (Inl e, Q self)"
  shows "lifo_steal fails f self dest Q = Inr (Inl e, Q)"
  using lifo_free_capacity [OF d] e by (simp add: lifo_steal_def Let_def)

text \<open>
  The move of \<open>k\<close> booked items. Booking has only changed the word \<open>pop_count_and_head\<close> of
  the source, so the move can be read off the queues as they were before.
\<close>

lemma lifo_transfer_booked:
  "lifo_transfer (Q(self := (Q self)\<lparr>pop_count_and_head := v\<rparr>)) self p dest t k =
     rbind (transfer_items (\<lambda>a. lifo_buffer (Q a)) self (lifo_mask (Q self)) p dest (lifo_mask (Q dest)) t k) (\<lambda>M.
       Inr (\<lambda>a. ((Q(self := (Q self)\<lparr>pop_count_and_head := v\<rparr>)) a)\<lparr>lifo_buffer := M a\<rparr>))"
proof -
  have "(\<lambda>a. lifo_buffer ((Q(self := (Q self)\<lparr>pop_count_and_head := v\<rparr>)) a)) = (\<lambda>a. lifo_buffer (Q a))" by auto
  then show ?thesis unfolding lifo_transfer_def by simp
qed

lemma lifo_transfer_apart:
  assumes ne: "self \<noteq> dest" and s: "lifo_rep (Q self) 0 [] xs" and d: "lifo_rep (Q dest) b fl ys"
    and k: "unat k \<le> length xs" "unat k \<le> lifo_cap (Q dest) - (b + length ys)"
  shows "\<exists>M. lifo_transfer (Q(self := (Q self)\<lparr>pop_count_and_head := v\<rparr>)) self (lifo_next_head (Q self)) dest (lifo_tail (Q dest)) k
       = Inr (\<lambda>a. ((Q(self := (Q self)\<lparr>pop_count_and_head := v\<rparr>)) a)\<lparr>lifo_buffer := M a\<rparr>) \<and>
     ring_holds (M self) (lifo_mask (Q self)) (lifo_next_head (Q self) + k) (drop (unat k) xs) \<and>
     ring_holds (M dest) (lifo_mask (Q dest)) (lifo_next_head (Q dest) - word_of_nat (length fl)) ((fl @ ys) @ take (unat k) xs) \<and>
     (\<forall>a. a \<noteq> self \<longrightarrow> a \<noteq> dest \<longrightarrow> M a = lifo_buffer (Q a))"
proof -
  define M0 where "M0 = (\<lambda>a. lifo_buffer (Q a))"
  have "ring_holds (M0 self) (lifo_mask (Q self)) (lifo_next_head (Q self)) (take (unat k) xs @ drop (unat k) xs)"
    using lifo_rep_holds [OF s] by (simp add: M0_def)
  moreover have "ring_holds (M0 dest) (lifo_mask (Q dest)) (lifo_next_head (Q dest) - word_of_nat (length fl)) (fl @ ys)"
    using lifo_rep_holds [OF d] by (simp add: M0_def)
  moreover have "length (fl @ ys) + length (take (unat k) xs) \<le> lifo_cap (Q dest)" "unat k = length (take (unat k) xs)"
    using k lifo_rep_inflight [OF d] lifo_rep_fits [OF d] by simp_all
  ultimately obtain M where
    "transfer_items M0 self (lifo_mask (Q self)) (lifo_next_head (Q self)) dest (lifo_mask (Q dest)) (lifo_tail (Q dest)) k = Inr M"
    and *: "ring_holds (M self) (lifo_mask (Q self)) (lifo_next_head (Q self) + k) (drop (unat k) xs)"
      "ring_holds (M dest) (lifo_mask (Q dest)) (lifo_next_head (Q dest) - word_of_nat (length fl)) ((fl @ ys) @ take (unat k) xs)"
      "\<forall>a. a \<noteq> self \<longrightarrow> a \<noteq> dest \<longrightarrow> M a = M0 a"
    unfolding lifo_rep_tail_pos [OF d] using transfer_holds_apart [OF ne] by blast
  then have "lifo_transfer (Q(self := (Q self)\<lparr>pop_count_and_head := v\<rparr>)) self (lifo_next_head (Q self)) dest (lifo_tail (Q dest)) k
       = Inr (\<lambda>a. ((Q(self := (Q self)\<lparr>pop_count_and_head := v\<rparr>)) a)\<lparr>lifo_buffer := M a\<rparr>)"
    unfolding lifo_transfer_booked M0_def [symmetric] by simp
  with * show ?thesis unfolding M0_def by blast
qed

text \<open>The two queues after a steal, in terms of what their buffers hold.\<close>

lemma lifo_rep_stolen:
  assumes s: "lifo_rep q 0 [] xs" and c: "unat c \<le> length xs"
    and h: "ring_holds b (lifo_mask q) (lifo_next_head q + c) (drop (unat c) xs)"
  shows "lifo_rep (q\<lparr>pop_count_and_head := pack (lifo_pops q) (lifo_next_head q + c), lifo_buffer := b, lifo_head := lifo_next_head q + c\<rparr>)
    0 [] (drop (unat c) xs)"
proof -
  have "(word_of_nat (length xs) :: ushort) = c + word_of_nat (length xs - unat c)"
    using c by (simp add: of_nat_diff)
  then show ?thesis using h lifo_rep_tail [OF s] lifo_rep_fits [OF s] by (simp add: lifo_rep_def add.assoc)
qed

lemma lifo_rep_received:
  assumes d: "lifo_rep q b fl ys" and k: "unat k = length zs" "length zs \<le> lifo_cap q - (b + length ys)"
    and h: "ring_holds buf (lifo_mask q) (lifo_next_head q - word_of_nat (length fl)) ((fl @ ys) @ zs)"
  shows "lifo_rep (q\<lparr>lifo_buffer := buf, push_count := push_count q + k\<rparr>) b fl (ys @ zs)"
proof -
  have "k = word_of_nat (length zs)" by (simp flip: k(1))
  then have "push_count q + k - lifo_pops q = lifo_next_head q + word_of_nat (length (ys @ zs))"
    using lifo_rep_push_count [OF d] by simp
  then show ?thesis
    using h k lifo_rep_head [OF d] lifo_rep_inflight [OF d] lifo_rep_fits [OF d] by (simp add: lifo_rep_def)
qed

lemma lifo_steal_apart:
  assumes ne: "self \<noteq> dest" and s: "lifo_rep (Q self) 0 [] xs" and d: "lifo_rep (Q dest) b fl ys"
    and xs: "xs \<noteq> []"
    and c: "book_choice fails 0 f (word_of_nat (lifo_cap (Q dest) - (b + length ys))) (word_of_nat (length xs)) = Inr (Inr c)"
  shows "\<exists>Q'. lifo_steal fails f self dest Q = Inr (Inr (ucast c), Q') \<and>
     lifo_rep (Q' self) 0 [] (drop (unat c) xs) \<and> lifo_rep (Q' dest) b fl (ys @ take (unat c) xs) \<and>
     (\<forall>a. a \<noteq> self \<longrightarrow> a \<noteq> dest \<longrightarrow> Q' a = Q a) \<and>
     lifo_mask (Q' self) = lifo_mask (Q self) \<and> lifo_mask (Q' dest) = lifo_mask (Q dest) \<and>
     pop_count_and_head (Q' dest) = pop_count_and_head (Q dest)"
proof -
  define free :: ushort where "free = word_of_nat (lifo_cap (Q dest) - (b + length ys))"
  note free = lifo_free_capacity [OF d, folded free_def]
  have cb: "unat c \<le> length xs" "unat c \<le> lifo_cap (Q dest) - (b + length ys)" "c \<le> free"
    using book_choice_bounds [OF c, folded free_def] lifo_rep_small [OF s] free(3)
    by (simp_all add: unat_of_nat_small word_le_nat_alt)
  define v where "v = pack (lifo_pops (Q self)) (lifo_next_head (Q self) + c)"
  obtain M where M: "lifo_transfer (Q(self := (Q self)\<lparr>pop_count_and_head := v\<rparr>)) self (lifo_next_head (Q self)) dest (lifo_tail (Q dest)) c
        = Inr (\<lambda>a. ((Q(self := (Q self)\<lparr>pop_count_and_head := v\<rparr>)) a)\<lparr>lifo_buffer := M a\<rparr>)"
    and hs: "ring_holds (M self) (lifo_mask (Q self)) (lifo_next_head (Q self) + c) (drop (unat c) xs)"
    and hd: "ring_holds (M dest) (lifo_mask (Q dest)) (lifo_next_head (Q dest) - word_of_nat (length fl)) ((fl @ ys) @ take (unat c) xs)"
    and fr: "\<forall>a. a \<noteq> self \<longrightarrow> a \<noteq> dest \<longrightarrow> M a = lifo_buffer (Q a)"
    using lifo_transfer_apart [of self dest Q, OF ne s d cb(1,2)] by blast
  define Q' where "Q' = (\<lambda>a. if a = self then (Q self)\<lparr>pop_count_and_head := v, lifo_buffer := M a, lifo_head := lifo_next_head (Q self) + c\<rparr>
      else if a = dest then (Q a)\<lparr>lifo_buffer := M a, push_count := push_count (Q dest) + c\<rparr> else Q a)"
  have book: "lifo_book_items fails f free (Q self) =
      Inr (Inr (lifo_next_head (Q self), lifo_next_head (Q self) + c, c), (Q self)\<lparr>pop_count_and_head := v\<rparr>)"
    using c by (simp add: lifo_book_choice [OF s xs] v_def free_def)
  have "lifo_steal fails f self dest Q = Inr (Inr (ucast c), Q')"
    using free(1,2) M cb(3) ne fr book
    by (simp add: lifo_steal_def Let_def Q'_def fun_eq_iff)
  moreover have "lifo_rep (Q' self) 0 [] (drop (unat c) xs)"
    using lifo_rep_stolen [OF s cb(1) hs] by (simp add: Q'_def v_def)
  moreover have "lifo_rep (Q' dest) b fl (ys @ take (unat c) xs)"
    using lifo_rep_received [OF d _ _ hd, of c] cb ne by (simp add: Q'_def)
  ultimately show ?thesis using ne by (intro exI [of _ Q']) (simp add: Q'_def)
qed

text \<open>Stealing into the queue itself moves the oldest items to its other end.\<close>

lemma lifo_transfer_self:
  assumes s: "lifo_rep (Q self) 0 [] xs" and k: "unat k \<le> length xs" "unat k \<le> lifo_cap (Q self) - length xs"
  shows "\<exists>M. lifo_transfer (Q(self := (Q self)\<lparr>pop_count_and_head := v\<rparr>)) self (lifo_next_head (Q self)) self (lifo_tail (Q self)) k
       = Inr (\<lambda>a. ((Q(self := (Q self)\<lparr>pop_count_and_head := v\<rparr>)) a)\<lparr>lifo_buffer := M a\<rparr>) \<and>
     ring_holds (M self) (lifo_mask (Q self)) (lifo_next_head (Q self) + k) (drop (unat k) xs @ take (unat k) xs) \<and>
     (\<forall>a. a \<noteq> self \<longrightarrow> M a = lifo_buffer (Q a))"
proof -
  define M0 where "M0 = (\<lambda>a. lifo_buffer (Q a))"
  have "ring_holds (M0 self) (lifo_mask (Q self)) (lifo_next_head (Q self)) (take (unat k) xs @ drop (unat k) xs)"
    using lifo_rep_holds [OF s] by (simp add: M0_def)
  moreover have "length (take (unat k) xs @ drop (unat k) xs) + length (take (unat k) xs) \<le> lifo_cap (Q self)"
    "unat k = length (take (unat k) xs)"
    using k lifo_rep_fits [OF s] by simp_all
  moreover have "lifo_tail (Q self) = lifo_next_head (Q self) + word_of_nat (length (take (unat k) xs @ drop (unat k) xs))"
    using lifo_rep_tail [OF s] by simp
  ultimately obtain M where
    "transfer_items M0 self (lifo_mask (Q self)) (lifo_next_head (Q self)) self (lifo_mask (Q self)) (lifo_tail (Q self)) k = Inr M"
    and "ring_holds (M self) (lifo_mask (Q self)) (lifo_next_head (Q self) + k) (drop (unat k) xs @ take (unat k) xs)"
      "\<forall>a. a \<noteq> self \<longrightarrow> M a = M0 a"
    using transfer_holds_self by metis
  then show ?thesis unfolding lifo_transfer_booked M0_def [symmetric] by (auto simp: M0_def)
qed

lemma lifo_rep_rotated:
  assumes s: "lifo_rep q 0 [] xs" and c: "unat c \<le> length xs"
    and k: "unat k = length zs" "length zs \<le> lifo_cap q - length xs"
    and h: "ring_holds b (lifo_mask q) (lifo_next_head q + c) (drop (unat c) xs @ zs)"
  shows "lifo_rep (q\<lparr>pop_count_and_head := pack (lifo_pops q) (lifo_next_head q + c), lifo_buffer := b,
     push_count := push_count q + k, lifo_head := lifo_next_head q + c\<rparr>) 0 [] (drop (unat c) xs @ zs)"
proof -
  have "push_count q + k = lifo_pops q + lifo_next_head q + word_of_nat (length xs) + k"
    using lifo_rep_push_count [OF s] by simp
  moreover have "(word_of_nat (length xs) :: ushort) = c + word_of_nat (length xs - unat c)"
    using c by (simp add: of_nat_diff)
  moreover have "k = word_of_nat (length zs)" by (simp flip: k(1))
  moreover have "length xs - unat c + length zs \<le> lifo_cap q" using k lifo_rep_fits [OF s] by simp
  ultimately show ?thesis using h by (simp add: lifo_rep_def algebra_simps)
qed

lemma lifo_steal_self:
  assumes s: "lifo_rep (Q self) 0 [] xs" and xs: "xs \<noteq> []"
    and c: "book_choice fails 0 f (word_of_nat (lifo_cap (Q self) - length xs)) (word_of_nat (length xs)) = Inr (Inr c)"
  shows "\<exists>Q'. lifo_steal fails f self self Q = Inr (Inr (ucast c), Q') \<and>
     lifo_rep (Q' self) 0 [] (drop (unat c) xs @ take (unat c) xs) \<and> (\<forall>a. a \<noteq> self \<longrightarrow> Q' a = Q a) \<and>
     lifo_mask (Q' self) = lifo_mask (Q self)"
proof -
  define free :: ushort where "free = word_of_nat (lifo_cap (Q self) - length xs)"
  note free = lifo_free_capacity [OF s, unfolded add_0, folded free_def]
  have cb: "unat c \<le> length xs" "unat c \<le> lifo_cap (Q self) - length xs" "c \<le> free"
    using book_choice_bounds [OF c, folded free_def] lifo_rep_small [OF s] free(3)
    by (simp_all add: unat_of_nat_small word_le_nat_alt)
  define v where "v = pack (lifo_pops (Q self)) (lifo_next_head (Q self) + c)"
  obtain M where M: "lifo_transfer (Q(self := (Q self)\<lparr>pop_count_and_head := v\<rparr>)) self (lifo_next_head (Q self)) self (lifo_tail (Q self)) c
        = Inr (\<lambda>a. ((Q(self := (Q self)\<lparr>pop_count_and_head := v\<rparr>)) a)\<lparr>lifo_buffer := M a\<rparr>)"
    and h: "ring_holds (M self) (lifo_mask (Q self)) (lifo_next_head (Q self) + c) (drop (unat c) xs @ take (unat c) xs)"
    and fr: "\<forall>a. a \<noteq> self \<longrightarrow> M a = lifo_buffer (Q a)"
    using lifo_transfer_self [of Q self, OF s cb(1,2)] by blast
  define Q' where "Q' = Q(self := (Q self)\<lparr>pop_count_and_head := v, lifo_buffer := M self,
      push_count := push_count (Q self) + c, lifo_head := lifo_next_head (Q self) + c\<rparr>)"
  have book: "lifo_book_items fails f free (Q self) =
      Inr (Inr (lifo_next_head (Q self), lifo_next_head (Q self) + c, c), (Q self)\<lparr>pop_count_and_head := v\<rparr>)"
    using c by (simp add: lifo_book_choice [OF s xs] v_def free_def)
  have "lifo_steal fails f self self Q = Inr (Inr (ucast c), Q')"
    using free(1,2) M cb(3) fr book by (simp add: lifo_steal_def Let_def Q'_def fun_eq_iff)
  moreover have "lifo_rep (Q' self) 0 [] (drop (unat c) xs @ take (unat c) xs)"
    using lifo_rep_rotated [OF s cb(1) _ _ h, of c] cb by (simp add: Q'_def v_def)
  ultimately show ?thesis by (intro exI [of _ Q']) (simp add: Q'_def)
qed

subsection \<open>Steal and pop\<close>

lemma lifo_room_le: "lifo_rep q b fl xs \<Longrightarrow> lifo_cap q - (b + length xs) \<le> 2147483648"
  using cap_of_le [OF lifo_rep_mask [of q b fl xs]] by simp

lemma lifo_steal_and_pop_apart:
  assumes ne: "self \<noteq> dest" and s: "lifo_rep (Q self) 0 [] xs" and d: "lifo_rep (Q dest) b fl ys"
    and xs: "xs \<noteq> []"
    and c: "book_choice fails 0 f (word_of_nat (lifo_cap (Q dest) - (b + length ys)) + 1) (word_of_nat (length xs)) = Inr (Inr c)"
  shows "\<exists>Q'. lifo_steal_and_pop fails f self dest Q = Inr (Inr (xs ! (unat c - 1), ucast (c - 1)), Q') \<and>
     lifo_rep (Q' self) 0 [] (drop (unat c) xs) \<and> lifo_rep (Q' dest) b fl (ys @ take (unat c - 1) xs) \<and>
     (\<forall>a. a \<noteq> self \<longrightarrow> a \<noteq> dest \<longrightarrow> Q' a = Q a) \<and>
     lifo_mask (Q' self) = lifo_mask (Q self) \<and> lifo_mask (Q' dest) = lifo_mask (Q dest) \<and>
     pop_count_and_head (Q' dest) = pop_count_and_head (Q dest)"
proof -
  define free :: ushort where "free = word_of_nat (lifo_cap (Q dest) - (b + length ys))"
  define k where "k = c - 1"
  note free = lifo_free_capacity [OF d, folded free_def]
  note cb = steal_and_pop_counts [OF lifo_room_le [OF d] _ c, folded free_def k_def]
  have small: "length xs \<le> 2147483648" using lifo_rep_small [OF s] by simp
  note cb = cb [OF small]
  define v where "v = pack (lifo_pops (Q self)) (lifo_next_head (Q self) + c)"
  define p where "p = lifo_next_head (Q self)"
  have k: "unat k \<le> length xs" using cb(3,4) by simp
  obtain M where M: "lifo_transfer (Q(self := (Q self)\<lparr>pop_count_and_head := v\<rparr>)) self p dest (lifo_tail (Q dest)) k
        = Inr (\<lambda>a. ((Q(self := (Q self)\<lparr>pop_count_and_head := v\<rparr>)) a)\<lparr>lifo_buffer := M a\<rparr>)"
    and hs: "ring_holds (M self) (lifo_mask (Q self)) (p + k) (drop (unat k) xs)"
    and hd: "ring_holds (M dest) (lifo_mask (Q dest)) (lifo_next_head (Q dest) - word_of_nat (length fl)) ((fl @ ys) @ take (unat k) xs)"
    and fr: "\<forall>a. a \<noteq> self \<longrightarrow> a \<noteq> dest \<longrightarrow> M a = lifo_buffer (Q a)"
    using lifo_transfer_apart [of self dest Q, OF ne s d k cb(5)] unfolding p_def by blast
  define buf where "buf = (M self)[ring_idx (lifo_mask (Q self)) (p + k) := None]"
  have "drop (unat k) xs = xs ! unat k # drop (unat c) xs" using cb(3,4) by (simp add: Cons_nth_drop_Suc)
  from ring_holds_read_first [OF hs [unfolded this]]
  have rd: "ring_read (M self) (lifo_mask (Q self)) (p + k) = Inr (xs ! unat k, buf)"
    and hs': "ring_holds buf (lifo_mask (Q self)) (p + c) (drop (unat c) xs)"
    by (simp_all add: buf_def k_def algebra_simps)
  define Q' where "Q' = (\<lambda>a. if a = self then (Q self)\<lparr>pop_count_and_head := v, lifo_buffer := buf, lifo_head := p + c\<rparr>
      else if a = dest then (Q a)\<lparr>lifo_buffer := M a, push_count := push_count (Q dest) + k\<rparr> else Q a)"
  have book: "lifo_book_items fails f (free + 1) (Q self) =
      Inr (Inr (p, p + c, c), (Q self)\<lparr>pop_count_and_head := v\<rparr>)"
    using c by (simp add: lifo_book_choice [OF s xs] v_def free_def p_def)
  have "lifo_steal_and_pop fails f self dest Q = Inr (Inr (xs ! unat k, ucast k), Q')"
    using free(1,2) M cb(1,2,6) ne fr book rd
    by (simp add: lifo_steal_and_pop_def lifo_read_at_def Let_def Q'_def fun_eq_iff)
  moreover have "lifo_rep (Q' self) 0 [] (drop (unat c) xs)"
    using lifo_rep_stolen [OF s cb(3) hs' [unfolded p_def]] by (simp add: Q'_def v_def p_def)
  moreover have "lifo_rep (Q' dest) b fl (ys @ take (unat k) xs)"
    using lifo_rep_received [OF d _ _ hd, of k] cb ne by (simp add: Q'_def)
  ultimately show ?thesis using ne cb(4) by (intro exI [of _ Q']) (simp add: Q'_def k_def)
qed

lemma lifo_steal_and_pop_self:
  assumes s: "lifo_rep (Q self) 0 [] xs" and xs: "xs \<noteq> []"
    and c: "book_choice fails 0 f (word_of_nat (lifo_cap (Q self) - length xs) + 1) (word_of_nat (length xs)) = Inr (Inr c)"
  shows "\<exists>Q'. lifo_steal_and_pop fails f self self Q = Inr (Inr (xs ! (unat c - 1), ucast (c - 1)), Q') \<and>
     lifo_rep (Q' self) 0 [] (drop (unat c) xs @ take (unat c - 1) xs) \<and> (\<forall>a. a \<noteq> self \<longrightarrow> Q' a = Q a) \<and>
     lifo_mask (Q' self) = lifo_mask (Q self)"
proof -
  define free :: ushort where "free = word_of_nat (lifo_cap (Q self) - length xs)"
  define k where "k = c - 1"
  note free = lifo_free_capacity [OF s, unfolded add_0, folded free_def]
  have small: "length xs \<le> 2147483648" using lifo_rep_small [OF s] by simp
  note cb = steal_and_pop_counts [OF lifo_room_le [OF s, unfolded add_0] small c, folded free_def k_def]
  define v where "v = pack (lifo_pops (Q self)) (lifo_next_head (Q self) + c)"
  define p where "p = lifo_next_head (Q self)"
  have k: "unat k \<le> length xs" using cb(3,4) by simp
  obtain M where M: "lifo_transfer (Q(self := (Q self)\<lparr>pop_count_and_head := v\<rparr>)) self p self (lifo_tail (Q self)) k
        = Inr (\<lambda>a. ((Q(self := (Q self)\<lparr>pop_count_and_head := v\<rparr>)) a)\<lparr>lifo_buffer := M a\<rparr>)"
    and hs: "ring_holds (M self) (lifo_mask (Q self)) (p + k) (drop (unat k) xs @ take (unat k) xs)"
    and fr: "\<forall>a. a \<noteq> self \<longrightarrow> M a = lifo_buffer (Q a)"
    using lifo_transfer_self [of Q self, OF s k cb(5)] unfolding p_def by blast
  define buf where "buf = (M self)[ring_idx (lifo_mask (Q self)) (p + k) := None]"
  have "drop (unat k) xs @ take (unat k) xs = xs ! unat k # (drop (unat c) xs @ take (unat k) xs)"
    using cb(3,4) Cons_nth_drop_Suc [of "unat k" xs] by simp
  from ring_holds_read_first [OF hs [unfolded this]]
  have rd: "ring_read (M self) (lifo_mask (Q self)) (p + k) = Inr (xs ! unat k, buf)"
    and hs': "ring_holds buf (lifo_mask (Q self)) (p + c) (drop (unat c) xs @ take (unat k) xs)"
    by (simp_all add: buf_def k_def algebra_simps)
  define Q' where "Q' = Q(self := (Q self)\<lparr>pop_count_and_head := v, lifo_buffer := buf,
      push_count := push_count (Q self) + k, lifo_head := p + c\<rparr>)"
  have book: "lifo_book_items fails f (free + 1) (Q self) =
      Inr (Inr (p, p + c, c), (Q self)\<lparr>pop_count_and_head := v\<rparr>)"
    using c by (simp add: lifo_book_choice [OF s xs] v_def free_def p_def)
  have "lifo_steal_and_pop fails f self self Q = Inr (Inr (xs ! unat k, ucast k), Q')"
    using free(1,2) M cb(1,2,6) fr book rd
    by (simp add: lifo_steal_and_pop_def lifo_read_at_def Let_def Q'_def fun_eq_iff)
  moreover have "lifo_rep (Q' self) 0 [] (drop (unat c) xs @ take (unat k) xs)"
    using lifo_rep_rotated [OF s cb(3) _ _ hs' [unfolded p_def], of k] cb k by (simp add: Q'_def v_def p_def)
  ultimately show ?thesis using cb(4) by (intro exI [of _ Q']) (simp add: Q'_def k_def)
qed

section \<open>The queue implements the interface\<close>

definition lifo_ops :: "('a lifo_queue, lifo_drain_iter, 'a) wq_ops" where
  "lifo_ops =
     \<lparr>wq_new = lifo_new, wq_capacity = lifo_worker_capacity, wq_push = lifo_push, wq_extend = lifo_extend, wq_pop = lifo_pop,
      wq_spare_capacity = lifo_spare_capacity, wq_is_empty = lifo_is_empty,
      wq_drain = lifo_drain, wq_next = (\<lambda>_. lifo_drain_next), wq_size_hint = lifo_drain_size_hint,
      wq_steal = (\<lambda>n _. lifo_steal n), wq_steal_and_pop = (\<lambda>n _. lifo_steal_and_pop n),
      wq_drop = lifo_drop\<rparr>"

lemma lifo_ops_simps [simp]:
  "wq_new lifo_ops = lifo_new" "wq_capacity lifo_ops = lifo_worker_capacity"
  "wq_push lifo_ops = lifo_push" "wq_extend lifo_ops = lifo_extend" "wq_pop lifo_ops = lifo_pop"
  "wq_spare_capacity lifo_ops = lifo_spare_capacity" "wq_is_empty lifo_ops = lifo_is_empty"
  "wq_drain lifo_ops = lifo_drain" "wq_next lifo_ops n = lifo_drain_next"
  "wq_size_hint lifo_ops = lifo_drain_size_hint" "wq_steal lifo_ops n n' = lifo_steal n"
  "wq_steal_and_pop lifo_ops n n' = lifo_steal_and_pop n" "wq_drop lifo_ops = lifo_drop"
  by (simp_all add: lifo_ops_def)

text \<open>The latest drain, if there is one, has the in-flight items left to yield.\<close>

definition lifo_drain_rel :: "'a lifo_queue \<Rightarrow> lifo_drain_iter option \<Rightarrow> 'a list \<Rightarrow> bool" where
  "lifo_drain_rel q d fl \<longleftrightarrow>
     (case d of
        None \<Rightarrow> fl = []
      | Some it \<Rightarrow> end_pos it - current it = word_of_nat (length fl) \<and>
          (fl \<noteq> [] \<longrightarrow> end_pos it = lifo_next_head q))"

definition lifo_rel :: "'a lifo_queue \<Rightarrow> lifo_drain_iter option \<Rightarrow> 'a aqueue \<Rightarrow> bool" where
  "lifo_rel q d A \<longleftrightarrow>
     lifo_rep q (aq_booked A) (aq_inflight A) (aq_items A) \<and> aq_cap A = lifo_cap q \<and>
     (aq_inflight A = [] \<longrightarrow> aq_booked A = 0) \<and> lifo_drain_rel q d (aq_inflight A)"

lemma lifo_relD:
  assumes "lifo_rel q d A"
  shows lifo_rel_rep: "lifo_rep q (aq_booked A) (aq_inflight A) (aq_items A)"
    and lifo_rel_cap: "aq_cap A = lifo_cap q"
    and lifo_rel_idle: "aq_inflight A = [] \<Longrightarrow> aq_booked A = 0"
    and lifo_rel_drain: "lifo_drain_rel q d (aq_inflight A)"
  using assms by (auto simp: lifo_rel_def)

lemma lifo_rel_wf: "lifo_rel q d A \<Longrightarrow> aq_wf A"
  using lifo_relD [of q d A] lifo_repD [of q "aq_booked A" "aq_inflight A" "aq_items A"] cap_of_le
  by (auto simp: aq_wf_def)

lemma lifo_rel_room: "lifo_rel q d A \<Longrightarrow> aq_room A = lifo_cap q - (aq_booked A + length (aq_items A))"
  by (simp add: lifo_rel_def aq_room_def)

lemma lifo_drain_rel_cong:
  "lifo_next_head q' = lifo_next_head q \<Longrightarrow> lifo_drain_rel q' d fl = lifo_drain_rel q d fl"
  by (simp add: lifo_drain_rel_def split: option.split)

lemma lifo_drain_rel_Nil: "lifo_drain_rel q d [] = lifo_drain_rel q' d []"
  by (simp add: lifo_drain_rel_def split: option.split)

lemma lifo_push_law:
  assumes r: "lifo_rel q d A"
  shows "res_rel (\<lambda>(r, q') (r', A'). r = r' \<and> lifo_rel q' d A') (lifo_push q x) (Inr (aq_push A x))"
proof (cases "aq_room A = 0")
  case True
  then have "lifo_push q x = Inr (Inl x, q)"
    using lifo_push_full [OF lifo_rel_rep [OF r]] lifo_rel_room [OF r] lifo_rep_fits [OF lifo_rel_rep [OF r]] by simp
  with True r show ?thesis by (simp add: aq_push_def)
next
  case False
  then have "aq_booked A + length (aq_items A) < lifo_cap q" using lifo_rel_room [OF r] by simp
  from lifo_push_ok [OF lifo_rel_rep [OF r] this, of x] lifo_relD [OF r] False show ?thesis
    by (auto simp: aq_push_def lifo_rel_def lifo_drain_rel_def split: option.splits)
qed

lemma lifo_extend_law:
  assumes r: "lifo_rel q d A"
  shows "res_rel (\<lambda>(r, q') (r', A'). r = r' \<and> lifo_rel q' d A') (lifo_extend q xs) (Inr (aq_extend A xs))"
  using lifo_extend_ok [OF lifo_rel_rep [OF r], of xs] lifo_relD [OF r]
  by (auto simp: aq_extend_def lifo_rel_room [OF r] lifo_rel_def lifo_drain_rel_def split: option.splits)

lemma lifo_pop_law:
  assumes r: "lifo_rel q d A"
  shows "res_rel (\<lambda>(r, q') (r', A'). r = r' \<and> lifo_rel q' d A') (lifo_pop n q) (Inr (aq_pop TakeNewest A))"
proof (cases "aq_items A" rule: rev_cases)
  case Nil
  with r lifo_pop_empty [of q "aq_booked A" "aq_inflight A" n] lifo_rel_rep [OF r] show ?thesis by (simp add: aq_pop_def)
next
  case (snoc xs x)
  from lifo_pop_ok [OF lifo_rel_rep [OF r, unfolded snoc], of n] lifo_relD [OF r] snoc show ?thesis
    by (auto simp: aq_pop_def lifo_rel_def lifo_drain_rel_def split: option.splits)
qed

text \<open>A booking on the queue ends like a booking of the specification.\<close>

lemma lifo_book_law:
  assumes r: "lifo_rel q d A"
  obtains (fault) e where "aq_book n f m A = Inl e" "lifo_book_items n f m q = Inl e"
  | (failed) e where "aq_book n f m A = Inr (Inl e)" "lifo_book_items n f m q = Inr (Inl e, q)"
  | (booked) c where "aq_book n f m A = Inr (Inr (unat c))" "lifo_rep q 0 [] (aq_items A)"
      "aq_booked A = 0" "aq_inflight A = []" "aq_items A \<noteq> []"
      "book_choice n 0 f m (word_of_nat (length (aq_items A))) = Inr (Inr c)"
proof -
  note rep = lifo_rel_rep [OF r]
  consider (busy) "aq_booked A \<noteq> 0" | (empty) "aq_booked A = 0" "aq_inflight A = []" "aq_items A = []"
    | (items) "aq_booked A = 0" "aq_inflight A = []" "aq_items A \<noteq> []"
    using lifo_rep_inflight [OF rep] by (cases "aq_booked A = 0"; cases "aq_items A = []") auto
  then show thesis
  proof cases
    case busy
    then show ?thesis using lifo_book_busy [OF rep] by (intro failed [of Busy]) (simp_all add: aq_book_def)
  next
    case empty
    then show ?thesis using lifo_book_empty [of q] rep by (intro failed [of Empty]) (simp_all add: aq_book_def)
  next
    case items
    then have rep': "lifo_rep q 0 [] (aq_items A)" using rep by simp
    show ?thesis
    proof (cases "book_choice n 0 f m (word_of_nat (length (aq_items A)))")
      case (Inl e)
      then show ?thesis
        using items by (intro fault [of e]) (simp_all add: aq_book_def lifo_book_choice [OF rep'])
    next
      case (Inr b)
      then show ?thesis
        using items rep' by (cases b) (auto simp: aq_book_def lifo_book_choice [OF rep'] intro: failed booked)
    qed
  qed
qed

lemma lifo_drain_law:
  assumes r: "lifo_rel q d A"
  shows "res_rel (\<lambda>(r, q') (r', A'). case r of
       Inl e \<Rightarrow> r' = Some e \<and> q' = q \<and> A' = A
     | Inr d' \<Rightarrow> r' = None \<and> lifo_rel q' (Some d') A') (lifo_drain n f q) (aq_drain n f A)"
  using r
proof (cases rule: lifo_book_law [where n = n and f = f and m = "- 1"])
  case (booked c)
  obtain it q' where *: "lifo_drain n f q = Inr (Inr it, q')" "0 < unat c" "unat c \<le> length (aq_items A)"
    "lifo_rep q' (unat c) (take (unat c) (aq_items A)) (drop (unat c) (aq_items A))"
    "drain_at it q' (take (unat c) (aq_items A))" "lifo_mask q' = lifo_mask q"
    using lifo_drain_ok [OF booked(2,5,6)] by blast
  then show ?thesis
    using booked lifo_rel_cap [OF r] by (auto simp: aq_drain_def lifo_rel_def lifo_drain_rel_def drain_at_def)
qed (simp_all add: aq_drain_def lifo_drain_def)

lemma lifo_next_law:
  assumes r: "lifo_rel q (Some it) A"
  shows "res_rel (\<lambda>(r, d', q') (r', A'). r = r' \<and> lifo_rel q' (Some d') A') (lifo_drain_next it q) (Inr (aq_next A))"
proof (cases "aq_inflight A")
  case Nil
  then have "current it = end_pos it" using lifo_rel_drain [OF r] by (simp add: lifo_drain_rel_def)
  with Nil r show ?thesis by (simp add: lifo_drain_next_def aq_next_def)
next
  case (Cons x fl)
  have "drain_at it q (x # fl)"
    using lifo_rel_drain [OF r] Cons by (auto simp: lifo_drain_rel_def drain_at_def algebra_simps)
  from lifo_drain_next_ok [OF lifo_rel_rep [OF r, unfolded Cons] this] Cons lifo_rel_cap [OF r] show ?thesis
    by (auto simp: aq_next_def lifo_rel_def lifo_drain_rel_def drain_at_def)
qed

lemma lifo_size_hint_law:
  assumes r: "lifo_rel q (Some it) A"
  shows "lifo_drain_size_hint it = (word_of_nat (length (aq_inflight A)), Some (word_of_nat (length (aq_inflight A))))"
proof -
  have e: "end_pos it - current it = word_of_nat (length (aq_inflight A))"
    using lifo_rel_drain [OF r] by (simp add: lifo_drain_rel_def)
  have "length (aq_inflight A) < 4294967296"
    using lifo_rel_wf [OF r] by (simp add: aq_wf_def)
  then have "ucast (word_of_nat (length (aq_inflight A)) :: ushort) = (word_of_nat (length (aq_inflight A)) :: usize)"
    by (simp add: ucast_of_nat_unat(1) unat_of_nat32)
  with e show ?thesis by (simp add: lifo_drain_size_hint_def Let_def)
qed

lemma lifo_rel_update:
  assumes r: "lifo_rel q d A" and s: "lifo_rep q' (aq_booked A) (aq_inflight A) xs" "lifo_mask q' = lifo_mask q"
    and n: "aq_inflight A \<noteq> [] \<Longrightarrow> lifo_next_head q' = lifo_next_head q"
  shows "lifo_rel q' d (A\<lparr>aq_items := xs\<rparr>)"
  using assms by (auto simp: lifo_rel_def lifo_drain_rel_def split: option.splits)

lemma lifo_steal_law:
  assumes r: "\<And>i. lifo_rel (Q i) (ds i) (S i)"
  shows "res_rel (\<lambda>(r, Q') (r', S'). map_sum id unat r = r' \<and> (\<forall>i. lifo_rel (Q' i) (ds i) (S' i)))
    (lifo_steal n f self dest Q) (aq_steal n f self dest S)"
proof -
  note free = lifo_free_capacity [OF lifo_rel_rep [OF r [of dest]], folded lifo_rel_room [OF r [of dest]]]
  show ?thesis
    using r [of self]
  proof (cases rule: lifo_book_law [where n = n and f = f and m = "word_of_nat (aq_room (S dest))"])
    case (booked c)
    note ch = booked(6)
    show ?thesis
    proof (cases "self = dest")
      case True
      obtain Q' where Q': "lifo_steal n f self self Q = Inr (Inr (ucast c), Q')"
        "lifo_rep (Q' self) 0 [] (drop (unat c) (aq_items (S self)) @ take (unat c) (aq_items (S self)))"
        "\<forall>a. a \<noteq> self \<longrightarrow> Q' a = Q a" "lifo_mask (Q' self) = lifo_mask (Q self)"
        using lifo_steal_self [of Q self, OF booked(2,5)] ch booked(3) lifo_rel_room [OF r [of dest]] True by fastforce
      have "lifo_rel (Q' self) (ds self) ((S self)\<lparr>aq_items := drop (unat c) (aq_items (S self)) @ take (unat c) (aq_items (S self))\<rparr>)"
        by (rule lifo_rel_update [OF r]) (use booked Q' in simp_all)
      with True Q' booked r show ?thesis
        by (auto simp: aq_steal_def aq_move_def Let_def ucast_of_nat_unat(2))
    next
      case False
      obtain Q' where Q': "lifo_steal n f self dest Q = Inr (Inr (ucast c), Q')"
        "lifo_rep (Q' self) 0 [] (drop (unat c) (aq_items (S self)))"
        "lifo_rep (Q' dest) (aq_booked (S dest)) (aq_inflight (S dest)) (aq_items (S dest) @ take (unat c) (aq_items (S self)))"
        "\<forall>a. a \<noteq> self \<longrightarrow> a \<noteq> dest \<longrightarrow> Q' a = Q a" "lifo_mask (Q' self) = lifo_mask (Q self)"
        "lifo_mask (Q' dest) = lifo_mask (Q dest)" "pop_count_and_head (Q' dest) = pop_count_and_head (Q dest)"
        using lifo_steal_apart [of self dest Q, OF False booked(2) lifo_rel_rep [OF r [of dest]] booked(5)]
          ch lifo_rel_room [OF r [of dest]] by fastforce
      have "lifo_rel (Q' self) (ds self) ((S self)\<lparr>aq_items := drop (unat c) (aq_items (S self))\<rparr>)"
        by (rule lifo_rel_update [OF r]) (use booked Q' in simp_all)
      moreover have "lifo_rel (Q' dest) (ds dest) ((S dest)\<lparr>aq_items := aq_items (S dest) @ take (unat c) (aq_items (S self))\<rparr>)"
        by (rule lifo_rel_update [OF r]) (use Q' in simp_all)
      ultimately show ?thesis using False Q'(1,4) booked(1) r
        by (auto simp: aq_steal_def aq_move_def Let_def ucast_of_nat_unat(2))
    qed
  qed (use free r in \<open>auto simp: aq_steal_def lifo_steal_def Let_def\<close>)
qed

lemma lifo_steal_and_pop_law:
  assumes r: "\<And>i. lifo_rel (Q i) (ds i) (S i)"
  shows "res_rel (\<lambda>(r, Q') (r', S'). map_sum id (apsnd unat) r = r' \<and> (\<forall>i. lifo_rel (Q' i) (ds i) (S' i)))
    (lifo_steal_and_pop n f self dest Q) (aq_steal_and_pop n f self dest S)"
proof -
  note free = lifo_free_capacity [OF lifo_rel_rep [OF r [of dest]], folded lifo_rel_room [OF r [of dest]]]
  have plus: "checked_plus (word_of_nat (aq_room (S dest)) :: ushort) 1 = Inr (word_of_nat (aq_room (S dest)) + 1)"
    using aq_room_le [OF lifo_rel_wf [OF r [of dest]]] unat_room [OF lifo_rel_wf [OF r [of dest]]] by (simp add: checked_plus_def)
  show ?thesis
    using r [of self]
  proof (cases rule: lifo_book_law [where n = n and f = f and m = "word_of_nat (aq_room (S dest)) + 1"])
    case (booked c)
    note ch = booked(6)
    have "0 < unat c" using book_choice_bounds [OF ch] by simp
    then have c1: "unat (c - 1) = unat c - 1" by (simp add: unat_minus_one unat_gt_0)
    show ?thesis
    proof (cases "self = dest")
      case True
      obtain Q' where Q': "lifo_steal_and_pop n f self self Q = Inr (Inr (aq_items (S self) ! (unat c - 1), ucast (c - 1)), Q')"
        "lifo_rep (Q' self) 0 [] (drop (unat c) (aq_items (S self)) @ take (unat c - 1) (aq_items (S self)))"
        "\<forall>a. a \<noteq> self \<longrightarrow> Q' a = Q a" "lifo_mask (Q' self) = lifo_mask (Q self)"
        using lifo_steal_and_pop_self [of Q self, OF booked(2,5)] ch booked(3) lifo_rel_room [OF r [of dest]] True by fastforce
      have "lifo_rel (Q' self) (ds self) ((S self)\<lparr>aq_items := drop (unat c) (aq_items (S self)) @ take (unat c - 1) (aq_items (S self))\<rparr>)"
        by (rule lifo_rel_update [OF r]) (use booked Q' in simp_all)
      with True Q' booked r c1 show ?thesis
        by (auto simp: aq_steal_and_pop_def aq_move_def Let_def ucast_of_nat_unat(2))
    next
      case False
      obtain Q' where Q': "lifo_steal_and_pop n f self dest Q = Inr (Inr (aq_items (S self) ! (unat c - 1), ucast (c - 1)), Q')"
        "lifo_rep (Q' self) 0 [] (drop (unat c) (aq_items (S self)))"
        "lifo_rep (Q' dest) (aq_booked (S dest)) (aq_inflight (S dest)) (aq_items (S dest) @ take (unat c - 1) (aq_items (S self)))"
        "\<forall>a. a \<noteq> self \<longrightarrow> a \<noteq> dest \<longrightarrow> Q' a = Q a" "lifo_mask (Q' self) = lifo_mask (Q self)"
        "lifo_mask (Q' dest) = lifo_mask (Q dest)" "pop_count_and_head (Q' dest) = pop_count_and_head (Q dest)"
        using lifo_steal_and_pop_apart [of self dest Q, OF False booked(2) lifo_rel_rep [OF r [of dest]] booked(5)]
          ch lifo_rel_room [OF r [of dest]] by fastforce
      have "lifo_rel (Q' self) (ds self) ((S self)\<lparr>aq_items := drop (unat c) (aq_items (S self))\<rparr>)"
        by (rule lifo_rel_update [OF r]) (use booked Q' in simp_all)
      moreover have "lifo_rel (Q' dest) (ds dest) ((S dest)\<lparr>aq_items := aq_items (S dest) @ take (unat c - 1) (aq_items (S self))\<rparr>)"
        by (rule lifo_rel_update [OF r]) (use Q' in simp_all)
      ultimately show ?thesis using False Q'(1,4) booked(1) r c1
        by (auto simp: aq_steal_and_pop_def aq_move_def Let_def ucast_of_nat_unat(2))
    qed
  qed (use free plus r in \<open>auto simp: aq_steal_and_pop_def lifo_steal_and_pop_def Let_def\<close>)
qed

lemma lifo_drop_law: "lifo_rel q d A \<Longrightarrow> aq_booked A = 0 \<Longrightarrow> \<exists>q'. lifo_drop q = Inr (aq_items A, q')"
  using lifo_drop_ok [OF lifo_rel_rep [of q d A]] lifo_rep_inflight [OF lifo_rel_rep [of q d A]] by fastforce

lemma lifo_new_law:
  "res_rel (\<lambda>q A. lifo_rel q None A) (lifo_new n :: 'a lifo_queue res)
     (if n \<le> MAX_CAPACITY then Inr (aq_new (next_power_of_two n)) else Inl AssertFailed)"
proof (cases "n \<le> MAX_CAPACITY")
  case True
  then obtain q :: "'a lifo_queue" where q: "lifo_new n = Inr q" "lifo_rep q 0 [] []" "lifo_cap q = next_power_of_two n"
    using lifo_new_ok by blast
  then have "lifo_rel q None (aq_new (next_power_of_two n))"
    by (simp add: lifo_rel_def aq_new_def lifo_drain_rel_def)
  with q(1) True show ?thesis by simp
qed (simp add: lifo_new_def)

lemma lifo_worker_capacity_law: "lifo_rel q d A \<Longrightarrow> lifo_worker_capacity q = word_of_nat (aq_cap A)"
  using lifo_capacity_cap [OF lifo_rep_mask [OF lifo_rel_rep [of q d A]]] ucast_of_nat_unat(1) [of "lifo_capacity q"]
  unfolding lifo_worker_capacity_def by (simp add: lifo_rel_cap)

interpretation lifo_wq: work_queue lifo_ops TakeNewest lifo_rel
proof (unfold_locales, goal_cases)
  case (1 q d A) then show ?case by (rule lifo_rel_wf)
next
  case (2 n) then show ?case using lifo_new_law [of n] by simp
next
  case (3 q d A) then show ?case using lifo_worker_capacity_law by simp
next
  case (4 q d A x) then show ?case using lifo_push_law by simp
next
  case (5 q d A xs) then show ?case using lifo_extend_law by simp
next
  case (6 q d A n) then show ?case using lifo_pop_law by simp
next
  case (7 q d A) then show ?case using lifo_spare_ok [OF lifo_rel_rep [OF 7]] lifo_rel_room [OF 7] by simp
next
  case (8 q d A) then show ?case using lifo_is_empty_iff [OF lifo_rel_rep [OF 8]] by simp
next
  case (9 q d A n f) then show ?case using lifo_drain_law by simp
next
  case (10 q dr A n) then show ?case using lifo_next_law by simp
next
  case (11 q dr A) then show ?case using lifo_size_hint_law by simp
next
  case (12 q A) then show ?case using lifo_rel_drain [OF 12] by (simp add: lifo_drain_rel_def)
next
  case (13 Q ds S n n' f self dest) then show ?case using lifo_steal_law [of Q ds S, OF 13] by simp
next
  case (14 Q ds S n n' f self dest) then show ?case using lifo_steal_and_pop_law [of Q ds S, OF 14] by simp
next
  case (15 q d A) then show ?case using lifo_drop_law by simp
next
  case (16 q d A) then show ?case by (simp add: lifo_rel_cap [OF 16])
qed

section \<open>Properties\<close>


abbreviation lifo_new_queue :: "'a lifo_queue" where
  "lifo_new_queue \<equiv> \<lparr>push_count = 0, pop_count_and_head = 0, lifo_head = 0, lifo_buffer = [None, None], lifo_mask = 1\<rparr>"

lemma lifo_new_2: "lifo_new 2 = Inr lifo_new_queue"
  by (simp add: lifo_new_def MAX_CAPACITY_def next_power_of_two_2 allocate_buffer_2 checked_minus_def)





lemma lifo_example_run:
  "\<exists>C. wq_run lifo_ops [Push 0 ''a'', Push 0 ''b'', Steal 1 1 (\<lambda>_. Some) 0 1] (wq_start (\<lambda>_. lifo_new_queue))
      = Inr ([Pushed, Pushed, Count 2], C) \<and> (\<forall>i. drains C i = None)"
proof -
  let ?cs = "[Push 0 ''a'', Push 0 ''b'', Steal 1 1 (\<lambda>_. Some) 0 1]"
  have rel: "lifo_wq.state_rel (wq_start (\<lambda>_. lifo_new_queue)) (aq_start (\<lambda>_. 2))"
    by (rule lifo_wq.start_rel) (simp add: lifo_new_2)
  obtain S where S: "aq_run TakeNewest ?cs (aq_start (\<lambda>_. 2)) = Inr ([Pushed, Pushed, Count 2], S)" "\<forall>i. \<not> fst (S i)"
    by (simp add: aq_start_def aq_new_def next_power_of_two_2 aq_push_def aq_room_def aq_set_def push_reply_def
        aq_steal_def aq_book_def steal_count_def aq_move_def aq_with_def Let_def)
  show ?thesis
    using lifo_wq.run_refines [OF rel, of ?cs, unfolded S(1)] S(2)
    by (auto simp: lifo_wq.state_rel_def simp del: wq_run.simps dest!: res_rel_InrD)
qed


text \<open>
  C25. Spurious compare-exchange failures cannot be observed: when the user closures depend on
  the item count only, every call replies what it replies when no exchange fails.
\<close>

theorem lifo_failures_unobservable:
  assumes "\<And>i. lifo_new (n i) = Inr (q i)" "\<forall>c \<in> set cs. pure_call c"
  shows "res_rel (\<lambda>(rs, C) (rs', C'). rs = rs')
    (wq_run lifo_ops cs (wq_start q)) (wq_run lifo_ops (map without_failures cs) (wq_start q))"
  using lifo_wq.failures_unobservable [of n q cs] assms by simp

theorem lifo_failures_unobservable_witness:
  "res_rel (\<lambda>(rs, C) (rs', C'). rs = rs')
    (wq_run lifo_ops [Push 0 ''a'', Pop 3 0] (wq_start (\<lambda>_. lifo_new_queue)))
    (wq_run lifo_ops [Push 0 ''a'', Pop 0 0] (wq_start (\<lambda>_. lifo_new_queue)))"
  using lifo_failures_unobservable [of "\<lambda>_. 2" "\<lambda>_. lifo_new_queue" "[Push 0 ''a'', Pop 3 0]"]
  by (simp add: lifo_new_2 pure_call_def)

text \<open>
  C26. \<^verbatim>\<open>Worker::new\<close> makes an empty queue whose capacity is the smallest power of two that is
  at least the requested one, and panics when more than \<open>MAX_CAPACITY\<close> is requested.
\<close>

theorem lifo_new_capacity:
  "case lifo_new n of
     Inl e \<Rightarrow> MAX_CAPACITY < n \<and> e = AssertFailed
   | Inr q \<Rightarrow> n \<le> MAX_CAPACITY \<and> lifo_is_empty q \<and> lifo_spare_capacity q = Inr (lifo_worker_capacity q) \<and>
       (\<exists>i \<le> 31. unat (lifo_worker_capacity q) = 2 ^ i \<and> n \<le> 2 ^ i \<and> (i = 0 \<or> 2 ^ (i - 1) < n))"
proof (cases "n \<le> MAX_CAPACITY")
  case True
  then obtain q :: "'a lifo_queue" where q: "lifo_new n = Inr q" "lifo_rel q None (aq_new (next_power_of_two n))"
    using lifo_new_law [of n, where 'a = 'a] by (auto dest!: res_rel_InrD)
  obtain i where i: "i \<le> 31" "next_power_of_two n = 2 ^ i" "n \<le> 2 ^ i" "i = 0 \<or> 2 ^ (i - 1) < n"
    using next_power_of_two_spec [of n 31] True by (auto simp: MAX_CAPACITY_def)
  have cap: "lifo_worker_capacity q = word_of_nat (next_power_of_two n)"
    using lifo_worker_capacity_law [OF q(2)] by (simp add: aq_new_def)
  have u: "unat (lifo_worker_capacity q) = 2 ^ i"
    using lifo_wq.unat_size [OF q(2), of "2 ^ i"] cap i(2) by (simp add: aq_new_def)
  have "lifo_is_empty q" "lifo_spare_capacity q = Inr (lifo_worker_capacity q)"
    using lifo_wq.is_empty_law [OF q(2)] lifo_wq.spare_law [OF q(2)] cap by (simp_all add: aq_new_def aq_room_def)
  with True q(1) u i show ?thesis by auto
qed (simp add: lifo_new_def)

text \<open>
  C27. A \<^verbatim>\<open>Drain\<close> that is leaked after it has yielded an item makes the destructor of the LIFO
  queue read a slot the item has been moved out of: the drop starts at \<^verbatim>\<open>head\<close>, which only the
  end of the drain moves.
\<close>

theorem lifo_leaked_drain_drop:
  assumes rep: "lifo_rep q 0 [] xs" and "2 \<le> length xs"
    and "lifo_drain fails f q = Inr (Inr it, q1)" and "2 \<le> unat (end_pos it - current it)"
    and "lifo_drain_next it q1 = Inr (Some x, it', q2)"
  shows "lifo_drop q2 = Inl UninitRead"
proof -
  have rel: "lifo_rel q None \<lparr>aq_cap = lifo_cap q, aq_booked = 0, aq_inflight = [], aq_items = xs\<rparr>"
    using rep by (simp add: lifo_rel_def lifo_drain_rel_def)
  obtain A1 where A1: "aq_drain fails f \<lparr>aq_cap = lifo_cap q, aq_booked = 0, aq_inflight = [], aq_items = xs\<rparr> = Inr (None, A1)"
    and r1: "lifo_rel q1 (Some it) A1"
    using lifo_wq.drain_law [OF rel, of fails f] assms(3)
    by (cases "aq_drain fails f \<lparr>aq_cap = lifo_cap q, aq_booked = 0, aq_inflight = [], aq_items = xs\<rparr>") auto
  have len: "2 \<le> length (aq_inflight A1)"
    using lifo_rel_drain [OF r1] lifo_rel_wf [OF r1] assms(4) by (auto simp: lifo_drain_rel_def unat_of_nat32 aq_wf_def)
  then obtain y z fl where fl: "aq_inflight A1 = y # z # fl" by (cases "aq_inflight A1" rule: list.exhaust; cases "tl (aq_inflight A1)") auto
  have "drain_at it q1 (y # z # fl)"
    using lifo_rel_drain [OF r1] fl by (auto simp: lifo_drain_rel_def drain_at_def algebra_simps)
  from lifo_drain_next_ok [OF lifo_rel_rep [OF r1, unfolded fl] this] assms(5)
  have r2: "lifo_rep q2 (aq_booked A1) (z # fl) (aq_items A1)" by auto
  have "length (z # fl) < aq_booked A1" using lifo_rep_inflight [OF lifo_rel_rep [OF r1]] fl by simp
  from lifo_drop_moved_out [OF r2 this] show ?thesis .
qed

theorem lifo_leaked_drain_drop_witness:
  "lifo_drop \<lparr>push_count = 2, pop_count_and_head = 2, lifo_head = 0, lifo_buffer = [None, Some ''b''], lifo_mask = 1\<rparr>
     = Inl UninitRead"
proof (rule lifo_leaked_drain_drop)
  let ?q = "\<lparr>push_count = 2, pop_count_and_head = 0, lifo_head = 0, lifo_buffer = [Some ''a'', Some ''b''], lifo_mask = 1\<rparr>"
  let ?q1 = "?q\<lparr>pop_count_and_head := 2\<rparr>"
  have m: "is_mask 1" using is_mask_mask [of 1] by (simp add: mask_eq_exp_minus_1)
  have hd2: "unpack 2 = (0, 2)" by (simp add: unpack_def)
  show "lifo_rep ?q 0 [] [''a'', ''b'']"
    using m by (auto simp: lifo_rep_def ring_holds_def ring_ok_def cap_of_def slot_def ring_idx_def less_Suc_eq numeral_2_eq_2)
  show "2 \<le> length [''a'', ''b'']" by simp
  show "lifo_drain 0 (\<lambda>_ _. Some 2) ?q = Inr (Inr \<lparr>current = 0, end_pos = 2\<rparr>, ?q1)" by code_simp
  show "2 \<le> unat (end_pos \<lparr>current = 0, end_pos = 2\<rparr> - current \<lparr>current = 0, end_pos = 2\<rparr>)" by simp
  show "lifo_drain_next \<lparr>current = 0, end_pos = 2\<rparr> ?q1 = Inr (Some ''a'', \<lparr>current = 1, end_pos = 2\<rparr>,
      \<lparr>push_count = 2, pop_count_and_head = 2, lifo_head = 0, lifo_buffer = [None, Some ''b''], lifo_mask = 1\<rparr>)" by code_simp
qed

end
