(* ===== verification/Deque_Spec.thy ===== *)
theory Deque_Spec
  imports Work_Queue
begin

text \<open>
  What the work-stealing queues promise when their threads run at once. Queue \<open>i\<close> is owned by
  thread \<open>i\<close>, which pushes and pops; any thread may steal from any queue into its own, and a
  drain of a queue may be handed to another thread. The specification has one list of
  available items per queue; adding, popping and stealing are atomic, and the items a thread
  has taken and not yet put down are in its hand. A call ends with an answer.
\<close>

section \<open>Calls and chance\<close>

datatype 'a deque_call = CPush 'a | CExtend "'a list" | CPop | CSteal nat bool | CDrain | CSpare | CIsEmpty

text \<open>The items a call gives to its thread's queue, and whether the queue it steals from exists.\<close>

fun call_gives :: "'a deque_call \<Rightarrow> 'a list" where
  "call_gives (CPush x) = [x]"
| "call_gives (CExtend xs) = xs"
| "call_gives _ = []"

fun call_known :: "nat \<Rightarrow> 'a deque_call \<Rightarrow> bool" where
  "call_known n (CSteal v a) \<longleftrightarrow> v < n"
| "call_known n _ \<longleftrightarrow> True"

text \<open>
  What happens outside the code: whether a weak compare-exchange that could succeed does, and
  what the user's closure answers when it is asked for a count; it may panic.
\<close>

record luck =
  lucky :: bool
  wanted :: "usize option"

section \<open>Specification\<close>

datatype 'a answer =
    Pushed | Full 'a | Extended "'a list" | Popped "'a option"
  | Failed steal_error | Stole nat | StoleItem 'a nat | Draining_started | Panicked
  | Spare usize | Emptiness bool

fun answer_items :: "'a answer \<Rightarrow> 'a list" where
  "answer_items (Full x) = [x]"
| "answer_items (Extended xs) = xs"
| "answer_items (Popped (Some x)) = [x]"
| "answer_items (StoleItem x n) = [x]"
| "answer_items _ = []"

text \<open>
  What an answer says: how many items the call has added to the thread's queue, and, for an
  owner that finds nothing to pop, that its queue is empty.
\<close>

fun answer_ok :: "'a answer \<Rightarrow> nat \<Rightarrow> 'a list \<Rightarrow> bool" where
  "answer_ok Pushed n c \<longleftrightarrow> n = 1"
| "answer_ok (Extended xs) n c \<longleftrightarrow> True"
| "answer_ok (Stole k) n c \<longleftrightarrow> k = n \<and> 0 < n"
| "answer_ok (StoleItem x k) n c \<longleftrightarrow> k = n"
| "answer_ok (Popped None) n c \<longleftrightarrow> n = 0 \<and> c = []"
| "answer_ok (Emptiness b) n c \<longleftrightarrow> n = 0 \<and> (b \<longleftrightarrow> c = [])"
| "answer_ok _ n c \<longleftrightarrow> n = 0"

record 'a deques =
  content :: "nat \<Rightarrow> 'a list"
  hand :: "nat \<Rightarrow> 'a list"
  drained :: "nat \<Rightarrow> 'a list"
  added :: "nat \<Rightarrow> nat"
  given :: "'a list"
  said :: "(nat \<times> 'a answer) list"
  yielded :: "(nat \<times> 'a) list"

definition deques_new :: "'a deques" where
  "deques_new = \<lparr>content = (\<lambda>_. []), hand = (\<lambda>_. []), drained = (\<lambda>_. []), added = (\<lambda>_. 0), given = [], said = [], yielded = []\<rparr>"

definition pop_one :: "discipline \<Rightarrow> 'a list \<Rightarrow> 'a \<times> 'a list" where
  "pop_one D xs = (case D of TakeNewest \<Rightarrow> (last xs, butlast xs) | TakeOldest \<Rightarrow> (hd xs, tl xs))"

inductive deques_step :: "discipline \<Rightarrow> nat \<Rightarrow> 'a deques \<Rightarrow> 'a deques \<Rightarrow> bool" for D n where
  call: "i < n \<Longrightarrow> hand d i = [] \<Longrightarrow>
    deques_step D n d (d\<lparr>hand := (hand d)(i := xs), added := (added d)(i := 0), given := given d @ xs\<rparr>)"
| add: "i < n \<Longrightarrow> k \<le> length (hand d i) \<Longrightarrow>
    deques_step D n d (d\<lparr>content := (content d)(i := content d i @ take k (hand d i)),
      hand := (hand d)(i := drop k (hand d i)), added := (added d)(i := added d i + k)\<rparr>)"
| pop: "i < n \<Longrightarrow> hand d i = [] \<Longrightarrow> content d i \<noteq> [] \<Longrightarrow>
    deques_step D n d (d\<lparr>content := (content d)(i := snd (pop_one D (content d i))),
      hand := (hand d)(i := [fst (pop_one D (content d i))])\<rparr>)"
| steal: "i < n \<Longrightarrow> v < n \<Longrightarrow> hand d i = [] \<Longrightarrow> 0 < k \<Longrightarrow> k \<le> length (content d v) \<Longrightarrow>
    deques_step D n d (d\<lparr>content := (content d)(v := drop k (content d v)),
      hand := (hand d)(i := take k (content d v))\<rparr>)"
| drain: "i < n \<Longrightarrow> drained d i = [] \<Longrightarrow> 0 < k \<Longrightarrow> k \<le> length (content d i) \<Longrightarrow>
    deques_step D n d (d\<lparr>content := (content d)(i := drop k (content d i)),
      drained := (drained d)(i := take k (content d i))\<rparr>)"
| next_item: "i < n \<Longrightarrow> drained d i = x # xs \<Longrightarrow>
    deques_step D n d (d\<lparr>drained := (drained d)(i := xs), yielded := yielded d @ [(i, x)]\<rparr>)"
| reply: "i < n \<Longrightarrow> hand d i = answer_items a \<Longrightarrow> answer_ok a (added d i) (content d i) \<Longrightarrow>
    deques_step D n d (d\<lparr>hand := (hand d)(i := []), added := (added d)(i := 0), said := said d @ [(i, a)]\<rparr>)"

abbreviation deques_steps :: "discipline \<Rightarrow> nat \<Rightarrow> 'a deques \<Rightarrow> 'a deques \<Rightarrow> bool" where
  "deques_steps D n \<equiv> (deques_step D n)\<^sup>*\<^sup>*"

lemma steps_one: "deques_step D n d e \<Longrightarrow> deques_steps D n d e"
  by blast

lemma steps_two: "deques_step D n d e \<Longrightarrow> deques_step D n e f \<Longrightarrow> deques_steps D n d f"
  by (meson converse_rtranclp_into_rtranclp r_into_rtranclp)

section \<open>No item is lost or duplicated\<close>

definition in_deques :: "nat \<Rightarrow> 'a deques \<Rightarrow> 'a multiset" where
  "in_deques n d = msum n (content d) + msum n (hand d) + msum n (drained d)"

definition given_back :: "'a deques \<Rightarrow> 'a multiset" where
  "given_back d = mset (concat (map (answer_items \<circ> snd) (said d))) + mset (map snd (yielded d))"

lemma pop_one_mset:
  assumes "xs \<noteq> []"
  shows "mset xs = add_mset (fst (pop_one D xs)) (mset (snd (pop_one D xs)))"
proof (cases D)
  case TakeNewest
  then show ?thesis using assms by (cases xs rule: rev_cases) (auto simp: pop_one_def)
next
  case TakeOldest
  then show ?thesis using assms by (cases xs) (auto simp: pop_one_def)
qed

lemma deques_step_balance:
  assumes "deques_step D n d d'" "mset (given d) = given_back d + in_deques n d"
  shows "mset (given d') = given_back d' + in_deques n d'"
proof -
  have cut: "mset xs = mset (take k xs) + mset (drop k xs)" for k and xs :: "'a list"
    by (metis append_take_drop_id mset_append)
  note acc = given_back_def in_deques_def
  obtain C where C: "\<forall>i < n. msum n (content d) = C i + mset (content d i) \<and> (\<forall>x. msum n ((content d)(i := x)) = C i + mset x)"
    using msum_splits by blast
  obtain H where H: "\<forall>i < n. msum n (hand d) = H i + mset (hand d i) \<and> (\<forall>x. msum n ((hand d)(i := x)) = H i + mset x)"
    using msum_splits by blast
  obtain R where R: "\<forall>i < n. msum n (drained d) = R i + mset (drained d i) \<and> (\<forall>x. msum n ((drained d)(i := x)) = R i + mset x)"
    using msum_splits by blast
  note at = C [rule_format] H [rule_format] R [rule_format]
  from assms(1) show ?thesis
  proof cases
    case (call i xs)
    then show ?thesis using assms(2) by (simp add: acc at [of i])
  next
    case (add i k)
    then show ?thesis using assms(2) cut [of "hand d i" k] by (simp add: acc at [of i])
  next
    case (pop i)
    then show ?thesis using assms(2) pop_one_mset [OF pop(4), of D] by (simp add: acc at [of i])
  next
    case (steal i v k)
    then show ?thesis using assms(2) cut [of "content d v" k] by (simp add: acc at(1) [of v] at(2,3) [of i])
  next
    case (drain i k)
    then show ?thesis using assms(2) cut [of "content d i" k] by (simp add: acc at [of i])
  next
    case (next_item i x xs)
    then show ?thesis using assms(2) by (simp add: acc at [of i])
  next
    case (reply i a)
    then show ?thesis using assms(2) by (simp add: acc at [of i])
  qed
qed

lemma deques_balance:
  assumes "deques_steps D n deques_new d"
  shows "mset (given d) = given_back d + in_deques n d"
  using assms
proof (induction rule: rtranclp_induct)
  case base
  show ?case by (simp add: deques_new_def given_back_def in_deques_def msum_def)
next
  case (step d d')
  from deques_step_balance [OF step.hyps(2) step.IH] show ?case .
qed

section \<open>Systems of threads that implement the deques\<close>

locale deque_system =
  fixes D :: discipline and n :: nat and start :: "'s \<Rightarrow> bool" and step :: "'s \<Rightarrow> 's \<Rightarrow> bool"
    and rep :: "'s \<Rightarrow> 'a deques \<Rightarrow> bool"
  assumes start_rep: "start s \<Longrightarrow> rep s deques_new"
    and step_rep: "rep s d \<Longrightarrow> step s s' \<Longrightarrow> \<exists>d'. deques_steps D n d d' \<and> rep s' d'"
begin

text \<open>Every execution is an execution of the deques, and so keeps the items.\<close>

lemma steps_rep: "step\<^sup>*\<^sup>* s s' \<Longrightarrow> rep s d \<Longrightarrow> \<exists>d'. deques_steps D n d d' \<and> rep s' d'"
proof (induction rule: rtranclp_induct)
  case (step s1 s2)
  then show ?case using step_rep by (meson rtranclp_trans)
qed blast

lemma execution_rep:
  assumes "start s0" "step\<^sup>*\<^sup>* s0 s"
  obtains d where "rep s d" "deques_steps D n deques_new d" "mset (given d) = given_back d + in_deques n d"
  using steps_rep [OF assms(2) start_rep [OF assms(1)]] deques_balance by blast

end

end
