(* ===== verification/Lifo_Threads.thy ===== *)
theory Lifo_Threads
  imports Lifo Deque_Spec
begin

text \<open>
  The LIFO queues with all their threads at once: the methods of \<^verbatim>\<open>src/src/lifo.rs\<close> as
  sequences of accesses that interleave in any order. Thread \<open>i\<close> owns queue \<open>i\<close> and calls the
  methods of its \<^verbatim>\<open>Worker\<close>, and steals from any queue into its own. A \<^verbatim>\<open>Drain\<close> of queue \<open>i\<close>
  may be moved to another thread, so its accesses interleave with the owner's too.

  Each step makes at most one access of an atomic that another thread writes, or of one slot
  of a buffer. The push count of a queue and the pop count in \<^verbatim>\<open>pop_count_and_head\<close> are written
  by the owner only, so the owner's own loads of them are part of the step that follows. A
  transfer moves one item at a time, reading and writing in separate steps, as the per-element
  \<^verbatim>\<open>transfer_items_scalar\<close> does; \<open>Bulk_Transfer\<close> shows that the shipped bulk copy has the same
  effect. Accesses are sequentially consistent.
\<close>

section \<open>State\<close>

text \<open>What a booking is for, with the local variables of \<^verbatim>\<open>steal\<close> and \<^verbatim>\<open>steal_and_pop\<close>.\<close>

datatype purpose =
    ToSteal nat bool (dest_push: ushort) (dest_tail: ushort) (dest_free: ushort) (max_items: ushort)
  | ToDrain

fun target :: "nat \<Rightarrow> purpose \<Rightarrow> nat" where
  "target i (ToSteal v a dp dt df mx) = v"
| "target i ToDrain = i"

fun max_count :: "purpose \<Rightarrow> ushort" where
  "max_count (ToSteal v a dp dt df mx) = mx"
| "max_count ToDrain = - 1"

fun and_pop :: "purpose \<Rightarrow> bool" where
  "and_pop (ToSteal v a dp dt df mx) = a"
| "and_pop ToDrain = False"

text \<open>
  Where a thread is in its call. A booking carries how many items had been popped and stolen
  from its queue when it began; the code does not have these numbers.
\<close>

datatype 'a lifo_pc =
    LIdle
  | LPush 'a | LPushWrite ushort ushort 'a | LPushStore ushort
  | LExtend "'a list" | LExtendWrite ushort ushort ushort "'a list"
  | LPop | LPopTry ulong ushort ushort | LPopRead ushort
  | LSteal nat bool
  | LBook purpose
  | LBookHead purpose "nat \<times> nat" ulong
  | LBookCount purpose "nat \<times> nat" ulong ushort
  | LBookTry purpose "nat \<times> nat" ulong ushort ushort
  | LMove purpose ushort ushort ushort nat
  | LMoveWrite purpose ushort ushort ushort nat 'a
  | LPublish purpose ushort ushort "'a list"
  | LSetHead nat ushort ushort "'a list"
  | LSpare | LIsEmpty

text \<open>The live drain of a queue: its next position and its end; the last item waits for the head.\<close>

datatype 'a lifo_drainer = NoDrain | DrainAt ushort ushort | DrainLast 'a ushort

record 'a lifo_sys =
  cq :: "nat \<Rightarrow> 'a lifo_queue"
  pc :: "nat \<Rightarrow> 'a lifo_pc"
  drainer :: "nat \<Rightarrow> 'a lifo_drainer"
  popped :: "nat \<Rightarrow> nat"
  stolen :: "nat \<Rightarrow> nat"
  l_given :: "'a list"
  l_said :: "(nat \<times> 'a answer) list"
  l_yielded :: "(nat \<times> 'a) list"

definition goto :: "nat \<Rightarrow> 'a lifo_pc \<Rightarrow> 'a lifo_sys \<Rightarrow> 'a lifo_sys" where
  "goto i p s = s\<lparr>pc := (pc s)(i := p)\<rparr>"

definition setq :: "nat \<Rightarrow> 'a lifo_queue \<Rightarrow> 'a lifo_sys \<Rightarrow> 'a lifo_sys" where
  "setq i q s = s\<lparr>cq := (cq s)(i := q)\<rparr>"

definition say :: "nat \<Rightarrow> 'a answer \<Rightarrow> 'a lifo_sys \<Rightarrow> 'a lifo_sys" where
  "say i a s = s\<lparr>pc := (pc s)(i := LIdle), l_said := l_said s @ [(i, a)]\<rparr>"

section \<open>Calls\<close>

fun start_pc :: "'a deque_call \<Rightarrow> 'a lifo_pc" where
  "start_pc (CPush x) = LPush x"
| "start_pc (CExtend xs) = LExtend xs"
| "start_pc CPop = LPop"
| "start_pc (CSteal v a) = LSteal v a"
| "start_pc CDrain = LBook ToDrain"
| "start_pc CSpare = LSpare"
| "start_pc CIsEmpty = LIsEmpty"

section \<open>Steps\<close>

text \<open>What a thread does once its booking has succeeded.\<close>

definition lifo_begin_move :: "nat \<Rightarrow> purpose \<Rightarrow> ushort \<Rightarrow> ushort \<Rightarrow> 'a lifo_sys \<Rightarrow> 'a lifo_sys res" where
  "lifo_begin_move i w head cnt s =
     (case w of
        ToDrain \<Rightarrow> Inr (say i Draining_started (s\<lparr>drainer := (drainer s)(i := DrainAt head (head + cnt))\<rparr>))
      | ToSteal v a dp dt df mx \<Rightarrow>
          rbind (if a then checked_minus cnt 1 else Inr cnt) (\<lambda>transfer_count.
          rbind (assert_that (transfer_count \<le> df)) (\<lambda>_.
          Inr (goto i (LMove w head (head + cnt) transfer_count 0) s))))"

fun lifo_pc_step :: "luck \<Rightarrow> nat \<Rightarrow> 'a lifo_pc \<Rightarrow> 'a lifo_sys \<Rightarrow> 'a lifo_sys res" where
  "lifo_pc_step l i LIdle s = Inr s"
| "lifo_pc_step l i (LPush item) s =
     (let q = cq s i in
      if lifo_tail q - lifo_head q > lifo_mask q then Inr (say i (Full item) s)
      else Inr (goto i (LPushWrite (push_count q) (lifo_tail q) item) s))"
| "lifo_pc_step l i (LPushWrite c tail item) s =
     rbind (lifo_write_at (cq s i) tail item) (\<lambda>q. Inr (goto i (LPushStore (c + 1)) (setq i q s)))"
| "lifo_pc_step l i (LPushStore c) s = Inr (say i Pushed (setq i ((cq s i)\<lparr>push_count := c\<rparr>) s))"
| "lifo_pc_step l i (LExtend iter) s =
     (let q = cq s i in
      Inr (goto i (LExtendWrite (fst (unpack (pop_count_and_head q))) (lifo_head q + lifo_capacity q) (lifo_tail q) iter) s))"
| "lifo_pc_step l i (LExtendWrite pop_count max_tail tail iter) s =
     (if iter = [] \<or> tail = max_tail
      then Inr (say i (Extended iter) (setq i ((cq s i)\<lparr>push_count := tail + pop_count\<rparr>) s))
      else rbind (lifo_write_at (cq s i) tail (hd iter)) (\<lambda>q.
        Inr (goto i (LExtendWrite pop_count max_tail (tail + 1) (tl iter)) (setq i q s))))"
| "lifo_pc_step l i LPop s =
     (let q = cq s i in
      Inr (goto i (LPopTry (pop_count_and_head q) (lifo_tail q) (fst (unpack (pop_count_and_head q)) + 1)) s))"
| "lifo_pc_step l i (LPopTry pch tail new_pop_count) s =
     (if tail = snd (unpack pch) then Inr (say i (Popped None) s)
      else if lucky l \<and> pop_count_and_head (cq s i) = pch
      then Inr (goto i (LPopRead (tail - 1))
             (setq i ((cq s i)\<lparr>pop_count_and_head := pack new_pop_count (snd (unpack pch))\<rparr>)
               (s\<lparr>popped := (popped s)(i := popped s i + 1)\<rparr>)))
      else Inr (goto i (LPopTry (pop_count_and_head (cq s i)) tail new_pop_count) s))"
| "lifo_pc_step l i (LPopRead position) s =
     rbind (lifo_read_at (cq s i) position) (\<lambda>(item, q). Inr (say i (Popped (Some item)) (setq i q s)))"
| "lifo_pc_step l i (LSteal v a) s =
     (let q = cq s i in
      rbind (checked_minus (lifo_capacity q) (lifo_tail q - lifo_head q)) (\<lambda>free.
      rbind (assert_that (free \<le> lifo_capacity q)) (\<lambda>_.
      rbind (if a then checked_plus free 1 else Inr free) (\<lambda>mx.
      Inr (goto i (LBook (ToSteal v a (push_count q) (lifo_tail q) free mx)) s)))))"
| "lifo_pc_step l i (LBook w) s =
     (let v = target i w in Inr (goto i (LBookHead w (popped s v, stolen s v) (pop_count_and_head (cq s v))) s))"
| "lifo_pc_step l i (LBookHead w start pch) s = Inr (goto i (LBookCount w start pch (lifo_head (cq s (target i w)))) s)"
| "lifo_pc_step l i (LBookCount w start pch old_head) s =
     (let (pop_count, head) = unpack pch in
      if old_head \<noteq> head then Inr (say i (Failed Busy) s)
      else
        let item_count = (push_count (cq s (target i w)) - pop_count) - head in
        if item_count = 0 then Inr (say i (Failed Empty) s)
        else case wanted l of
          None \<Rightarrow> Inr (say i Panicked s)
        | Some k \<Rightarrow>
            let cnt = steal_count k (max_count w) item_count in
            if cnt = 0 then Inr (say i (Failed Empty) s) else Inr (goto i (LBookTry w start pch old_head cnt) s))"
| "lifo_pc_step l i (LBookTry w start pch old_head cnt) s =
     (let v = target i w; (pop_count, head) = unpack pch in
      if lucky l \<and> pop_count_and_head (cq s v) = pch
      then lifo_begin_move i w head cnt
             (setq v ((cq s v)\<lparr>pop_count_and_head := pack pop_count (head + cnt)\<rparr>)
               (s\<lparr>stolen := (stolen s)(v := stolen s v + unat cnt)\<rparr>))
      else Inr (goto i (LBookCount w start (pop_count_and_head (cq s v)) old_head) s))"
| "lifo_pc_step l i (LMove w old_head new_head transfer_count k) s =
     (if k < unat transfer_count
      then rbind (lifo_read_at (cq s (target i w)) (old_head + word_of_nat k)) (\<lambda>(item, q).
        Inr (goto i (LMoveWrite w old_head new_head transfer_count k item) (setq (target i w) q s)))
      else if and_pop w
      then rbind (lifo_read_at (cq s (target i w)) (old_head + transfer_count)) (\<lambda>(item, q).
        Inr (goto i (LPublish w new_head transfer_count [item]) (setq (target i w) q s)))
      else Inr (goto i (LPublish w new_head transfer_count []) s))"
| "lifo_pc_step l i (LMoveWrite w old_head new_head transfer_count k item) s =
     rbind (lifo_write_at (cq s i) (dest_tail w + word_of_nat k) item) (\<lambda>q.
       Inr (goto i (LMove w old_head new_head transfer_count (Suc k)) (setq i q s)))"
| "lifo_pc_step l i (LPublish w new_head transfer_count last_item) s =
     Inr (goto i (LSetHead (target i w) new_head transfer_count last_item)
       (setq i ((cq s i)\<lparr>push_count := dest_push w + transfer_count\<rparr>) s))"
| "lifo_pc_step l i (LSetHead v new_head transfer_count last_item) s =
     Inr (say i (case last_item of [] \<Rightarrow> Stole (unat transfer_count) | x # _ \<Rightarrow> StoleItem x (unat transfer_count))
       (setq v ((cq s v)\<lparr>lifo_head := new_head\<rparr>) s))"
| "lifo_pc_step l i LSpare s = rbind (lifo_spare_capacity (cq s i)) (\<lambda>n. Inr (say i (Spare n) s))"
| "lifo_pc_step l i LIsEmpty s = Inr (say i (Emptiness (lifo_is_empty (cq s i))) s)"

text \<open>One access of \<^verbatim>\<open>Drain::next\<close>.\<close>

fun lifo_drainer_step :: "nat \<Rightarrow> 'a lifo_drainer \<Rightarrow> 'a lifo_sys \<Rightarrow> 'a lifo_sys res" where
  "lifo_drainer_step i NoDrain s = Inr s"
| "lifo_drainer_step i (DrainAt position stop) s =
     rbind (lifo_read_at (cq s i) position) (\<lambda>(item, q).
       if position + 1 = stop then Inr (setq i q (s\<lparr>drainer := (drainer s)(i := DrainLast item stop)\<rparr>))
       else Inr (setq i q (s\<lparr>drainer := (drainer s)(i := DrainAt (position + 1) stop), l_yielded := l_yielded s @ [(i, item)]\<rparr>)))"
| "lifo_drainer_step i (DrainLast item stop) s =
     Inr (setq i ((cq s i)\<lparr>lifo_head := stop\<rparr>)
       (s\<lparr>drainer := (drainer s)(i := NoDrain), l_yielded := l_yielded s @ [(i, item)]\<rparr>))"

text \<open>
  The counters of a queue are 32 bits wide, and a booking compares them with what it read
  before: it must not take so long that they come round. \<open>in_time\<close> asks that less than half a
  cycle of pops and of stolen items happens between the beginning of a booking and its
  exchange.
\<close>

definition in_time :: "nat \<Rightarrow> 'a lifo_sys \<Rightarrow> bool" where
  "in_time i s \<longleftrightarrow>
     (case pc s i of
        LBookTry w (pops, steals) pch old_head cnt \<Rightarrow>
          int (popped s (target i w)) - int pops < 2147483648 \<and> int (stolen s (target i w)) - int steals < 2147483648
      | _ \<Rightarrow> True)"

definition lifo_sys_new :: "(nat \<Rightarrow> 'a lifo_queue) \<Rightarrow> 'a lifo_sys" where
  "lifo_sys_new Q =
     \<lparr>cq = Q, pc = (\<lambda>_. LIdle), drainer = (\<lambda>_. NoDrain), popped = (\<lambda>_. 0), stolen = (\<lambda>_. 0),
      l_given = [], l_said = [], l_yielded = []\<rparr>"

inductive lifo_sys_step :: "nat \<Rightarrow> 'a lifo_sys \<Rightarrow> 'a lifo_sys \<Rightarrow> bool" for n where
  begin_call: "i < n \<Longrightarrow> pc s i = LIdle \<Longrightarrow> call_known n c \<Longrightarrow>
    lifo_sys_step n s (s\<lparr>pc := (pc s)(i := start_pc c), l_given := l_given s @ call_gives c\<rparr>)"
| work: "i < n \<Longrightarrow> in_time i s \<Longrightarrow> lifo_pc_step l i (pc s i) s = Inr s' \<Longrightarrow> lifo_sys_step n s s'"
| drain: "i < n \<Longrightarrow> lifo_drainer_step i (drainer s i) s = Inr s' \<Longrightarrow> lifo_sys_step n s s'"

inductive lifo_sys_reach :: "nat \<Rightarrow> 'a lifo_sys \<Rightarrow> bool" for n where
  init: "(\<And>i. lifo_new (m i) = Inr (Q i)) \<Longrightarrow> lifo_sys_reach n (lifo_sys_new Q)"
| step: "lifo_sys_reach n s \<Longrightarrow> lifo_sys_step n s s' \<Longrightarrow> lifo_sys_reach n s'"

section \<open>Running a schedule\<close>

datatype 'a lifo_move = Begin nat "'a deque_call" | Work nat luck | DrainNext nat

fun lifo_sys_do :: "nat \<Rightarrow> 'a lifo_move \<Rightarrow> 'a lifo_sys \<Rightarrow> 'a lifo_sys option" where
  "lifo_sys_do n (Begin i c) s =
     (case pc s i of
        LIdle \<Rightarrow> if i < n \<and> call_known n c
          then Some (s\<lparr>pc := (pc s)(i := start_pc c), l_given := l_given s @ call_gives c\<rparr>) else None
      | _ \<Rightarrow> None)"
| "lifo_sys_do n (Work i l) s =
     (if i < n \<and> in_time i s then case lifo_pc_step l i (pc s i) s of Inr s' \<Rightarrow> Some s' | Inl _ \<Rightarrow> None else None)"
| "lifo_sys_do n (DrainNext i) s =
     (if i < n then case lifo_drainer_step i (drainer s i) s of Inr s' \<Rightarrow> Some s' | Inl _ \<Rightarrow> None else None)"

fun lifo_sys_run :: "nat \<Rightarrow> 'a lifo_move list \<Rightarrow> 'a lifo_sys \<Rightarrow> 'a lifo_sys option" where
  "lifo_sys_run n [] s = Some s"
| "lifo_sys_run n (m # ms) s = (case lifo_sys_do n m s of None \<Rightarrow> None | Some s' \<Rightarrow> lifo_sys_run n ms s')"

lemma lifo_sys_do_step: "lifo_sys_do n m s = Some s' \<Longrightarrow> lifo_sys_step n s s'"
  by (cases m) (auto intro: lifo_sys_step.intros split: if_splits sum.splits lifo_pc.splits)

lemma lifo_sys_run_reach: "lifo_sys_reach n s \<Longrightarrow> lifo_sys_run n ms s = Some s' \<Longrightarrow> lifo_sys_reach n s'"
proof (induction ms arbitrary: s)
  case (Cons m ms)
  then obtain s1 where s1: "lifo_sys_do n m s = Some s1" "lifo_sys_run n ms s1 = Some s'" by (auto split: option.splits)
  show ?case using Cons.IH [OF lifo_sys_reach.step [OF Cons.prems(1) lifo_sys_do_step [OF s1(1)]] s1(2)] .
qed simp

section \<open>Slots\<close>

text \<open>The slot of a buffer that the next step of a thread, or of a drain, reads or writes.\<close>

definition slot_at :: "'a lifo_sys \<Rightarrow> nat \<Rightarrow> ushort \<Rightarrow> (nat \<times> nat) option" where
  "slot_at s j p = Some (j, ring_idx (lifo_mask (cq s j)) p)"

fun next_slot :: "'a lifo_sys \<Rightarrow> nat \<Rightarrow> 'a lifo_pc \<Rightarrow> (nat \<times> nat) option" where
  "next_slot s i (LPushWrite c t x) = slot_at s i t"
| "next_slot s i (LExtendWrite p mx t xs) = (if xs = [] \<or> t = mx then None else slot_at s i t)"
| "next_slot s i (LPopRead t) = slot_at s i t"
| "next_slot s i (LMove w h nh tc k) =
     (if k < unat tc then slot_at s (target i w) (h + word_of_nat k)
      else if and_pop w then slot_at s (target i w) (h + tc) else None)"
| "next_slot s i (LMoveWrite w h nh tc k x) = slot_at s i (dest_tail w + word_of_nat k)"
| "next_slot s i _ = None"

fun drain_slot :: "'a lifo_sys \<Rightarrow> nat \<Rightarrow> 'a lifo_drainer \<Rightarrow> (nat \<times> nat) option" where
  "drain_slot s i (DrainAt p e) = slot_at s i p"
| "drain_slot s i _ = None"


end
