(* ===== verification/Lifo_Concurrent.thy ===== *)
theory Lifo_Concurrent
  imports Lifo_Threads
begin

text \<open>
  The interleavings of the LIFO queues implement the deques of \<open>Deque_Spec\<close>. The proof keeps,
  for every queue, a view: the items a stealer has booked and not yet moved (and how many
  positions before them it has already emptied), the available items, and the items in slots
  past the tail that the owner has written and not yet published, or claimed and not yet
  read. A booking belongs to one thief or to the drain, who alone moves the head.
\<close>

section \<open>Views\<close>

datatype booker = Thief nat | Drainer

record 'a lifo_view =
  gone :: nat
  booked :: "'a list"
  avail :: "'a list"
  extra :: "'a list"
  who :: "booker option"

definition claimed :: "'a lifo_view \<Rightarrow> nat" where
  "claimed v = gone v + length (booked v)"

definition span :: "'a lifo_view \<Rightarrow> nat" where
  "span v = claimed v + length (avail v) + length (extra v)"

definition shape :: "'a lifo_view \<Rightarrow> 'a option list" where
  "shape v = replicate (gone v) None @ map Some (booked v @ avail v @ extra v)"

lemma length_shape [simp]: "length (shape v) = span v"
  by (simp add: shape_def span_def claimed_def)

text \<open>\<open>P\<close> and \<open>B\<close> are the numbers of items ever popped and stolen.\<close>

definition queue_ok :: "'a lifo_queue \<Rightarrow> nat \<Rightarrow> nat \<Rightarrow> 'a lifo_view \<Rightarrow> bool" where
  "queue_ok q P B v \<longleftrightarrow>
     push_count q = word_of_nat (P + (B + length (avail v))) \<and>
     pop_count_and_head q = pack (word_of_nat P) (word_of_nat B) \<and>
     claimed v \<le> B \<and> lifo_head q = word_of_nat (B - claimed v) \<and>
     ring_shape (lifo_buffer q) (lifo_mask q) (lifo_head q) (shape v) \<and>
     (who v = None \<longleftrightarrow> claimed v = 0)"

text \<open>What a thread's place in its call says about its own queue.\<close>

fun purpose_ok :: "nat \<Rightarrow> nat \<Rightarrow> purpose \<Rightarrow> bool" where
  "purpose_ok P T ToDrain \<longleftrightarrow> True"
| "purpose_ok P T (ToSteal v a dp dt df mx) \<longleftrightarrow>
     dp = word_of_nat (P + T) \<and> dt = word_of_nat T \<and> unat mx = unat df + (if a then 1 else 0)"

fun room_ok :: "nat \<Rightarrow> purpose \<Rightarrow> bool" where
  "room_ok r ToDrain \<longleftrightarrow> True"
| "room_ok r (ToSteal v a dp dt df mx) \<longleftrightarrow> unat df \<le> r"

definition room :: "ushort \<Rightarrow> 'a lifo_view \<Rightarrow> nat" where
  "room m v = cap_of m - span v"

fun own_ok :: "ushort \<Rightarrow> nat \<Rightarrow> nat \<Rightarrow> 'a lifo_view \<Rightarrow> 'a lifo_pc \<Rightarrow> bool" where
  "own_ok m P B v (LPushWrite c t x) \<longleftrightarrow> extra v = [] \<and> c = word_of_nat (P + (B + length (avail v))) \<and>
     t = word_of_nat (B + length (avail v)) \<and> 0 < room m v"
| "own_ok m P B v (LPushStore c) \<longleftrightarrow> length (extra v) = 1 \<and> c = word_of_nat (P + (B + length (avail v)) + 1)"
| "own_ok m P B v (LExtendWrite p mx t xs) \<longleftrightarrow> p = word_of_nat P \<and>
     t = word_of_nat (B + length (avail v) + length (extra v)) \<and> (\<exists>r. mx = t + word_of_nat r \<and> r \<le> room m v)"
| "own_ok m P B v (LPopTry pch t np) \<longleftrightarrow> extra v = [] \<and> t = word_of_nat (B + length (avail v)) \<and> np = word_of_nat (P + 1) \<and>
     (\<exists>b. pch = pack (word_of_nat P) (word_of_nat b) \<and> b \<le> B \<and> B + length (avail v) - b \<le> 2147483648)"
| "own_ok m P B v (LPopRead t) \<longleftrightarrow> length (extra v) = 1 \<and> t = word_of_nat (B + length (avail v))"
| "own_ok m P B v (LBook w) \<longleftrightarrow> extra v = [] \<and> purpose_ok P (B + length (avail v)) w \<and> room_ok (room m v) w"
| "own_ok m P B v (LBookHead w st pch) \<longleftrightarrow> extra v = [] \<and> purpose_ok P (B + length (avail v)) w \<and> room_ok (room m v) w"
| "own_ok m P B v (LBookCount w st pch h) \<longleftrightarrow> extra v = [] \<and> purpose_ok P (B + length (avail v)) w \<and> room_ok (room m v) w"
| "own_ok m P B v (LBookTry w st pch h c) \<longleftrightarrow> extra v = [] \<and> purpose_ok P (B + length (avail v)) w \<and> room_ok (room m v) w"
| "own_ok m P B v (LMove w h nh tc k) \<longleftrightarrow> w \<noteq> ToDrain \<and> purpose_ok P (B + length (avail v)) w \<and>
     length (extra v) = k \<and> k \<le> unat tc \<and> unat tc - k \<le> room m v"
| "own_ok m P B v (LMoveWrite w h nh tc k x) \<longleftrightarrow> w \<noteq> ToDrain \<and> purpose_ok P (B + length (avail v)) w \<and>
     length (extra v) = k \<and> k < unat tc \<and> unat tc - k \<le> room m v"
| "own_ok m P B v (LPublish w nh tc xs) \<longleftrightarrow> w \<noteq> ToDrain \<and> purpose_ok P (B + length (avail v)) w \<and> length (extra v) = unat tc"
| "own_ok m P B v _ \<longleftrightarrow> extra v = []"

text \<open>
  What it says about the queue the thread steals from: before the exchange, what it has read;
  after it, that the booking is its own.
\<close>

definition read_ok :: "nat \<Rightarrow> nat \<Rightarrow> nat \<times> nat \<Rightarrow> ulong \<Rightarrow> nat \<Rightarrow> nat \<Rightarrow> bool" where
  "read_ok P B st pch p b \<longleftrightarrow>
     pch = pack (word_of_nat p) (word_of_nat b) \<and> fst st \<le> p \<and> p \<le> P \<and> snd st \<le> b \<and> b \<le> B"

definition head_ok :: "nat \<Rightarrow> 'a lifo_view \<Rightarrow> nat \<times> nat \<Rightarrow> ushort \<Rightarrow> bool" where
  "head_ok B v st h \<longleftrightarrow> (\<exists>k. h = word_of_nat k \<and> k \<le> B - claimed v \<and> snd st \<le> k + 2147483648)"

fun aim_ok :: "nat \<Rightarrow> nat \<Rightarrow> nat \<Rightarrow> 'a lifo_view \<Rightarrow> 'a lifo_pc \<Rightarrow> bool" where
  "aim_ok i P B v (LBookHead w st pch) \<longleftrightarrow> (\<exists>p b. read_ok P B st pch p b)"
| "aim_ok i P B v (LBookCount w st pch h) \<longleftrightarrow> (\<exists>p b. read_ok P B st pch p b) \<and> head_ok B v st h"
| "aim_ok i P B v (LBookTry w st pch h c) \<longleftrightarrow> 0 < unat c \<and> unat c \<le> unat (max_count w) \<and> head_ok B v st h \<and>
     h = snd (unpack pch) \<and> (\<exists>p b. read_ok P B st pch p b \<and> (p = P \<and> b = B \<longrightarrow> unat c \<le> length (avail v)))"
| "aim_ok i P B v (LMove w h nh tc k) \<longleftrightarrow> who v = Some (Thief i) \<and> gone v = k \<and>
     length (booked v) + k = unat tc + (if and_pop w then 1 else 0) \<and> h = word_of_nat (B - claimed v) \<and> nh = word_of_nat B \<and>
     (and_pop w \<or> 0 < unat tc)"
| "aim_ok i P B v (LMoveWrite w h nh tc k x) \<longleftrightarrow> who v = Some (Thief i) \<and> gone v = Suc k \<and>
     length (booked v) + Suc k = unat tc + (if and_pop w then 1 else 0) \<and> h = word_of_nat (B - claimed v) \<and> nh = word_of_nat B \<and>
     (and_pop w \<or> 0 < unat tc)"
| "aim_ok i P B v (LPublish w nh tc xs) \<longleftrightarrow> who v = Some (Thief i) \<and> booked v = [] \<and> nh = word_of_nat B \<and>
     length xs = (if and_pop w then 1 else 0) \<and> (xs = [] \<longrightarrow> 0 < unat tc)"
| "aim_ok i P B v (LSetHead u nh tc xs) \<longleftrightarrow> who v = Some (Thief i) \<and> booked v = [] \<and> nh = word_of_nat B \<and>
     length xs \<le> 1 \<and> (xs = [] \<longrightarrow> 0 < unat tc)"
| "aim_ok i P B v _ \<longleftrightarrow> True"

fun aim :: "nat \<Rightarrow> 'a lifo_pc \<Rightarrow> nat" where
  "aim i (LSteal v a) = v"
| "aim i (LBook w) = target i w"
| "aim i (LBookHead w st pch) = target i w"
| "aim i (LBookCount w st pch h) = target i w"
| "aim i (LBookTry w st pch h c) = target i w"
| "aim i (LMove w h nh tc k) = target i w"
| "aim i (LMoveWrite w h nh tc k x) = target i w"
| "aim i (LPublish w nh tc xs) = target i w"
| "aim i (LSetHead v nh tc xs) = v"
| "aim i _ = i"

fun drain_ok :: "nat \<Rightarrow> 'a lifo_view \<Rightarrow> 'a lifo_drainer \<Rightarrow> bool" where
  "drain_ok B v NoDrain \<longleftrightarrow> who v \<noteq> Some Drainer"
| "drain_ok B v (DrainAt c e) \<longleftrightarrow> who v = Some Drainer \<and> booked v \<noteq> [] \<and> c = word_of_nat (B - length (booked v)) \<and> e = word_of_nat B"
| "drain_ok B v (DrainLast x e) \<longleftrightarrow> who v = Some Drainer \<and> booked v = [] \<and> e = word_of_nat B"

definition thread_ok :: "nat \<Rightarrow> 'a lifo_sys \<Rightarrow> (nat \<Rightarrow> 'a lifo_view) \<Rightarrow> nat \<Rightarrow> bool" where
  "thread_ok n s V i \<longleftrightarrow>
     own_ok (lifo_mask (cq s i)) (popped s i) (stolen s i) (V i) (pc s i) \<and>
     aim_ok i (popped s (aim i (pc s i))) (stolen s (aim i (pc s i))) (V (aim i (pc s i))) (pc s i) \<and>
     (i < n \<longrightarrow> aim i (pc s i) < n)"

definition lifo_inv :: "nat \<Rightarrow> 'a lifo_sys \<Rightarrow> (nat \<Rightarrow> 'a lifo_view) \<Rightarrow> bool" where
  "lifo_inv n s V \<longleftrightarrow>
     (\<forall>j. queue_ok (cq s j) (popped s j) (stolen s j) (V j)) \<and>
     (\<forall>i. thread_ok n s V i) \<and> (\<forall>j. drain_ok (stolen s j) (V j) (drainer s j))"

section \<open>Interference\<close>

text \<open>
  What a step of a thread, or of the drain, may change in a queue's view. Only
  the owner changes the tail; only the one who booked changes what is booked.
\<close>

definition change :: "booker \<Rightarrow> nat \<Rightarrow> nat \<Rightarrow> nat \<Rightarrow> 'a lifo_view \<Rightarrow> nat \<Rightarrow> nat \<Rightarrow> 'a lifo_view \<Rightarrow> bool" where
  "change a j P B v P' B' v' \<longleftrightarrow>
     P \<le> P' \<and> B \<le> B' \<and> B - claimed v \<le> B' - claimed v' \<and>
     (P' = P \<and> B' = B \<longrightarrow> length (avail v) \<le> length (avail v')) \<and>
     (\<forall>b. who v = Some b \<longrightarrow> b \<noteq> a \<longrightarrow>
        B' = B \<and> gone v' = gone v \<and> booked v' = booked v \<and> who v' = who v) \<and>
     (a \<noteq> Thief j \<longrightarrow> P' = P \<and> B' + length (avail v') = B + length (avail v) \<and> extra v' = extra v \<and> span v' \<le> span v)"

lemma own_ok_stable:
  assumes "own_ok m P B v p" "change a j P B v P' B' v'" "a \<noteq> Thief j"
  shows "own_ok m P' B' v' p"
proof -
  have c: "P' = P" "B' + length (avail v') = B + length (avail v)" "extra v' = extra v" "B \<le> B'"
    and r: "room m v \<le> room m v'"
    using assms(2,3) by (auto simp: change_def room_def)
  have ro: "room_ok (room m v) w \<Longrightarrow> room_ok (room m v') w" for w using r by (cases w) auto
  show ?thesis
    using assms(1) c r ro by (cases "(m, P, B, v, p)" rule: own_ok.cases) (auto intro: order.trans)
qed

lemma read_ok_mono: "read_ok P B st pch p b \<Longrightarrow> P \<le> P' \<Longrightarrow> B \<le> B' \<Longrightarrow> read_ok P' B' st pch p b"
  by (auto simp: read_ok_def)

lemma aim_ok_stable:
  assumes A: "aim_ok t P B v p" and C: "change a j P B v P' B' v'" and t: "a \<noteq> Thief t"
  shows "aim_ok t P' B' v' p"
proof -
  have le: "P \<le> P'" "B \<le> B'" using C by (auto simp: change_def)
  have h: "head_ok B v st k \<Longrightarrow> head_ok B' v' st k" for st k
    using C by (auto simp: change_def head_ok_def intro: order.trans)
  have mine: "B' = B \<and> gone v' = gone v \<and> booked v' = booked v \<and> who v' = who v \<and> claimed v' = claimed v"
    if "who v = Some (Thief t)"
    using that C t by (auto simp: change_def claimed_def)
  have tr: "\<exists>p b. read_ok P' B' st pch p b \<and> (p = P' \<and> b = B' \<longrightarrow> unat c \<le> length (avail v'))"
    if "\<exists>p b. read_ok P B st pch p b \<and> (p = P \<and> b = B \<longrightarrow> unat c \<le> length (avail v))" for st pch c
  proof -
    from that obtain p b where R: "read_ok P B st pch p b" and c: "p = P \<and> b = B \<longrightarrow> unat c \<le> length (avail v)" by blast
    have "unat c \<le> length (avail v')" if "p = P'" "b = B'"
    proof -
      have "P' = P" "B' = B" using R le that by (auto simp: read_ok_def)
      then show ?thesis using c C that by (auto simp: change_def)
    qed
    with read_ok_mono [OF R le] show ?thesis by blast
  qed
  show ?thesis
    using A mine h tr read_ok_mono [OF _ le] by (cases "(t, P, B, v, p)" rule: aim_ok.cases) (auto, blast+)
qed

lemma inv_change:
  assumes I: "lifo_inv n s V"
    and s': "cq s' = (cq s)(j := q)" "popped s' = (popped s)(j := P)" "stolen s' = (stolen s)(j := B)"
    and pcs: "\<And>t. a \<noteq> Thief t \<Longrightarrow> pc s' t = pc s t"
    and drains: "\<And>t. t \<noteq> j \<Longrightarrow> drainer s' t = drainer s t"
    and q: "queue_ok q P B v" "lifo_mask q = lifo_mask (cq s j)"
    and C: "change a j (popped s j) (stolen s j) (V j) P B v"
    and actor: "\<And>i. a = Thief i \<Longrightarrow> thread_ok n s' (V(j := v)) i"
    and d: "drain_ok B v (drainer s' j)"
  shows "lifo_inv n s' (V(j := v))"
  unfolding lifo_inv_def
proof (intro conjI allI)
  fix t
  show "queue_ok (cq s' t) (popped s' t) (stolen s' t) ((V(j := v)) t)"
    using I q s' by (simp add: lifo_inv_def)
  show "drain_ok (stolen s' t) ((V(j := v)) t) (drainer s' t)"
    using I d drains [of t] s' by (auto simp: lifo_inv_def)
  show "thread_ok n s' (V(j := v)) t"
  proof (cases "a = Thief t")
    case False
    have T: "thread_ok n s V t" using I by (simp add: lifo_inv_def)
    have p: "pc s' t = pc s t" using pcs False by simp
    have "own_ok (lifo_mask (cq s' t)) (popped s' t) (stolen s' t) ((V(j := v)) t) (pc s t)"
      using T own_ok_stable [OF _ C, of "lifo_mask (cq s j)" "pc s j"] False s' q(2) by (auto simp: thread_ok_def)
    moreover have "aim_ok t (popped s' (aim t (pc s t))) (stolen s' (aim t (pc s t))) ((V(j := v)) (aim t (pc s t))) (pc s t)"
      using T aim_ok_stable [OF _ C False, of "pc s t"] s' by (auto simp: thread_ok_def)
    ultimately show ?thesis using T p by (simp add: thread_ok_def)
  qed (use actor in blast)
qed

section \<open>The abstraction\<close>

fun pc_items :: "'a lifo_pc \<Rightarrow> 'a list" where
  "pc_items (LPush x) = [x]"
| "pc_items (LPushWrite c t x) = [x]"
| "pc_items (LExtend xs) = xs"
| "pc_items (LExtendWrite p mx t xs) = xs"
| "pc_items (LMoveWrite w h nh tc k x) = [x]"
| "pc_items (LPublish w nh tc xs) = xs"
| "pc_items (LSetHead v nh tc xs) = xs"
| "pc_items _ = []"

fun moving :: "'a lifo_pc \<Rightarrow> bool" where
  "moving (LMove w h nh tc k) \<longleftrightarrow> True"
| "moving (LMoveWrite w h nh tc k x) \<longleftrightarrow> True"
| "moving _ \<longleftrightarrow> False"

fun pc_added :: "'a lifo_pc \<Rightarrow> nat" where
  "pc_added (LSetHead v nh tc xs) = unat tc"
| "pc_added _ = 0"

fun drain_items :: "'a lifo_drainer \<Rightarrow> 'a lifo_view \<Rightarrow> 'a list" where
  "drain_items NoDrain v = []"
| "drain_items (DrainAt c e) v = booked v"
| "drain_items (DrainLast x e) v = [x]"

definition hand_of :: "(nat \<Rightarrow> 'a lifo_view) \<Rightarrow> nat \<Rightarrow> 'a lifo_pc \<Rightarrow> 'a list" where
  "hand_of V i p = extra (V i) @ pc_items p @ (if moving p then booked (V (aim i p)) else [])"

definition lifo_abs :: "'a lifo_sys \<Rightarrow> (nat \<Rightarrow> 'a lifo_view) \<Rightarrow> 'a deques" where
  "lifo_abs s V =
     \<lparr>content = (\<lambda>i. avail (V i)), hand = (\<lambda>i. hand_of V i (pc s i)), drained = (\<lambda>i. drain_items (drainer s i) (V i)),
      added = (\<lambda>i. pc_added (pc s i)), given = l_given s, said = l_said s, yielded = l_yielded s\<rparr>"

text \<open>What a step has to show: it keeps the invariant and is made of steps of the specification.\<close>

definition simulated :: "nat \<Rightarrow> 'a lifo_sys \<Rightarrow> (nat \<Rightarrow> 'a lifo_view) \<Rightarrow> 'a lifo_sys \<Rightarrow> bool" where
  "simulated n s V s' \<longleftrightarrow> (\<exists>V'. lifo_inv n s' V' \<and> deques_steps TakeNewest n (lifo_abs s V) (lifo_abs s' V'))"

lemma simulatedI: "lifo_inv n s' V' \<Longrightarrow> deques_steps TakeNewest n (lifo_abs s V) (lifo_abs s' V') \<Longrightarrow> simulated n s V s'"
  by (auto simp: simulated_def)

lemmas sys_ops = goto_def setq_def say_def

section \<open>Word arithmetic\<close>

text \<open>Counters are written as one number cast to a word.\<close>

declare of_nat_add [simp del] of_nat_Suc [simp del] of_nat_diff [simp del]

lemma wnat [simp]:
  "(word_of_nat a :: ushort) + word_of_nat b = word_of_nat (a + b)"
  "(word_of_nat (a + b) :: ushort) - word_of_nat a = word_of_nat b"
  "(word_of_nat a :: ushort) + 1 = word_of_nat (Suc a)"
  "(word_of_nat (Suc a) :: ushort) - 1 = word_of_nat a"
  by (simp_all add: of_nat_add of_nat_Suc)

lemma queue_okD:
  assumes "queue_ok q P B v"
  shows q_tail: "lifo_tail q = word_of_nat (B + length (avail v))"
    and q_push: "push_count q = word_of_nat (P + (B + length (avail v)))"
    and q_pch: "pop_count_and_head q = pack (word_of_nat P) (word_of_nat B)"
    and q_head: "lifo_head q = word_of_nat (B - claimed v)"
    and q_claimed: "claimed v \<le> B"
    and q_shape: "ring_shape (lifo_buffer q) (lifo_mask q) (word_of_nat (B - claimed v)) (shape v)"
    and q_who: "who v = None \<longleftrightarrow> claimed v = 0"
    and q_mask: "is_mask (lifo_mask q)"
    and q_span: "span v \<le> cap_of (lifo_mask q)"
    and q_len: "lifo_tail q - lifo_head q = word_of_nat (claimed v + length (avail v))"
proof -
  show "push_count q = word_of_nat (P + (B + length (avail v)))" using assms by (simp add: queue_ok_def add.assoc)
  then show t: "lifo_tail q = word_of_nat (B + length (avail v))" using assms by (simp add: queue_ok_def)
  show "is_mask (lifo_mask q)" "span v \<le> cap_of (lifo_mask q)"
    using assms ring_shape_mask ring_shape_len [of _ _ _ "shape v"] by (auto simp: queue_ok_def)
  have h: "lifo_head q = word_of_nat (B - claimed v)" "claimed v \<le> B" using assms by (simp_all add: queue_ok_def)
  have "B + length (avail v) = (B - claimed v) + (claimed v + length (avail v))" using h(2) by simp
  then show "lifo_tail q - lifo_head q = word_of_nat (claimed v + length (avail v))" by (simp only: t h(1) wnat(2))
qed (use assms in \<open>auto simp: queue_ok_def\<close>)

lemma q_small:
  assumes "queue_ok q P B v"
  shows "span v \<le> 2147483648"
  using q_span [OF assms] cap_of_le [OF q_mask [OF assms]] by simp

lemma q_len_nat:
  assumes "queue_ok q P B v"
  shows "unat (lifo_tail q - lifo_head q) = claimed v + length (avail v)"
  using q_small [OF assms] q_len [OF assms] by (simp add: span_def unat_of_nat_small)

lemma thread_okD:
  assumes "lifo_inv n s V"
  shows inv_queue: "queue_ok (cq s j) (popped s j) (stolen s j) (V j)"
    and inv_own: "pc s i = p \<Longrightarrow> own_ok (lifo_mask (cq s i)) (popped s i) (stolen s i) (V i) p"
    and inv_aim: "pc s i = p \<Longrightarrow> aim_ok i (popped s (aim i p)) (stolen s (aim i p)) (V (aim i p)) p"
    and inv_known: "pc s i = p \<Longrightarrow> i < n \<Longrightarrow> aim i p < n"
    and inv_drain: "drain_ok (stolen s j) (V j) (drainer s j)"
  using assms unfolding lifo_inv_def thread_ok_def by blast+


lemma drain_ok_stable:
  assumes "drain_ok B v d" "change (Thief i) j P B v P' B' v'" "who v \<noteq> Some Drainer \<Longrightarrow> who v' \<noteq> Some Drainer"
  shows "drain_ok B' v' d" and "drain_items d v' = drain_items d v"
  using assms by (cases d; auto simp: change_def)+

text \<open>A step that changes no queue.\<close>

lemma inv_pc:
  assumes "lifo_inv n s V" "cq s' = cq s" "popped s' = popped s" "stolen s' = stolen s" "drainer s' = drainer s"
    "\<And>t. t \<noteq> i \<Longrightarrow> pc s' t = pc s t" "thread_ok n s' V i"
  shows "lifo_inv n s' V"
  using inv_change [OF assms(1), of s' i "cq s i" "popped s i" "stolen s i" "Thief i" "V i"] assms inv_queue [OF assms(1)] inv_drain [OF assms(1)]
  by (auto simp: change_def)

text \<open>The abstraction changes at the queue a step touches and in the hand of its thread.\<close>

lemma hand_of_other:
  assumes I: "lifo_inv n s V" and C: "change a j (popped s j) (stolen s j) (V j) P B v" and t: "a \<noteq> Thief t"
  shows "hand_of (V(j := v)) t (pc s t) = hand_of V t (pc s t)"
proof -
  have "who (V j) = Some (Thief t)" if "moving (pc s t)" "aim t (pc s t) = j"
    using that inv_aim [OF I refl, of t] by (cases "pc s t") auto
  then have "booked v = booked (V j)" if "moving (pc s t)" "aim t (pc s t) = j" using that C t by (auto simp: change_def)
  moreover have "extra v = extra (V j)" if "t = j" using that C t by (auto simp: change_def)
  ultimately show ?thesis by (auto simp: hand_of_def)
qed

lemma hand_of_idle: "hand_of V i LIdle = extra (V i)"
  by (simp add: hand_of_def)

lemma abs_change:
  assumes I: "lifo_inv n s V" and C: "change (Thief i) j (popped s j) (stolen s j) (V j) P B v"
    and s': "\<And>t. t \<noteq> i \<Longrightarrow> pc s' t = pc s t" "drainer s' = drainer s" "who (V j) \<noteq> Some Drainer \<Longrightarrow> who v \<noteq> Some Drainer"
  shows "lifo_abs s' (V(j := v)) =
    \<lparr>content = (\<lambda>t. avail (V t))(j := avail v), hand = (\<lambda>t. hand_of V t (pc s t))(i := hand_of (V(j := v)) i (pc s' i)),
     drained = drained (lifo_abs s V), added = (\<lambda>t. pc_added (pc s t))(i := pc_added (pc s' i)),
     given = l_given s', said = l_said s', yielded = l_yielded s'\<rparr>"
proof -
  have "hand_of (V(j := v)) t (pc s' t) = hand_of V t (pc s t)" if "t \<noteq> i" for t
    using hand_of_other [OF I C, of t] s'(1) [OF that] that by simp
  moreover have "drain_items (drainer s j) v = drain_items (drainer s j) (V j)"
    using drain_ok_stable(2) [OF inv_drain [OF I] C s'(3)] by simp
  ultimately show ?thesis using s' by (auto simp: lifo_abs_def fun_eq_iff)
qed

text \<open>A step that only moves its thread on, or ends its call with an answer.\<close>

lemma simulated_goto:
  assumes I: "lifo_inv n s V" and t: "thread_ok n (goto i p s) V i"
    and h: "hand_of V i p = hand_of V i (pc s i)" "pc_added p = pc_added (pc s i)"
  shows "simulated n s V (goto i p s)"
proof (rule simulatedI)
  show "lifo_inv n (goto i p s) V" by (rule inv_pc [OF I _ _ _ _ _ t]) (simp_all add: goto_def)
  have "lifo_abs (goto i p s) V = lifo_abs s V" using h by (auto simp: lifo_abs_def goto_def fun_eq_iff)
  then show "deques_steps TakeNewest n (lifo_abs s V) (lifo_abs (goto i p s) V)" by simp
qed

lemma simulated_say:
  assumes I: "lifo_inv n s V" and i: "i < n" and e: "extra (V i) = []"
    and h: "hand_of V i (pc s i) = answer_items a" "answer_ok a (pc_added (pc s i)) (avail (V i))"
  shows "simulated n s V (say i a s)"
proof (rule simulatedI)
  show "lifo_inv n (say i a s) V"
    by (rule inv_pc [OF I, of _ i]) (use i e in \<open>simp_all add: say_def thread_ok_def\<close>)
  have "deques_step TakeNewest n (lifo_abs s V)
    ((lifo_abs s V)\<lparr>hand := (hand (lifo_abs s V))(i := []), added := (added (lifo_abs s V))(i := 0),
       said := said (lifo_abs s V) @ [(i, a)]\<rparr>)"
    by (rule deques_step.reply) (use i h in \<open>simp_all add: lifo_abs_def\<close>)
  also have "\<dots> = lifo_abs (say i a s) V"
    using e by (auto simp: lifo_abs_def say_def fun_eq_iff hand_of_def)
  finally show "deques_steps TakeNewest n (lifo_abs s V) (lifo_abs (say i a s) V)" by blast
qed


section \<open>Accesses of a queue\<close>

lemma ring_shape_drop_last: "ring_shape b m p (os @ [None]) \<Longrightarrow> ring_shape b m p os"
  by (auto simp: ring_shape_def nth_append)

lemma queue_ok_buffer:
  assumes "queue_ok q P B v" "claimed v' = claimed v" "avail v' = avail v" "who v' = who v"
    "ring_shape b (lifo_mask q) (lifo_head q) (shape v')"
  shows "queue_ok (q\<lparr>lifo_buffer := b\<rparr>) P B v'"
  using assms by (simp add: queue_ok_def)

text \<open>The owner writes past the tail, and publishes what it has written.\<close>

lemma write_extra:
  assumes Q: "queue_ok q P B v" and r: "0 < room (lifo_mask q) v"
  obtains q' where "lifo_write_at q (word_of_nat (B + length (avail v) + length (extra v))) x = Inr q'"
    "queue_ok q' P B (v\<lparr>extra := extra v @ [x]\<rparr>)" "lifo_mask q' = lifo_mask q"
proof -
  have "B - claimed v + span v = B + length (avail v) + length (extra v)" using q_claimed [OF Q] by (simp add: span_def)
  then have pos: "word_of_nat (B + length (avail v) + length (extra v)) = lifo_head q + word_of_nat (length (shape v))"
    by (simp add: q_head [OF Q])
  have S: "ring_shape (lifo_buffer q) (lifo_mask q) (lifo_head q) (shape v)" using Q unfolding queue_ok_def by blast
  have l: "length (shape v) < cap_of (lifo_mask q)" using r by (simp add: room_def)
  let ?b = "(lifo_buffer q)[ring_idx (lifo_mask q) (lifo_head q + word_of_nat (length (shape v))) := Some x]"
  have "lifo_write_at q (word_of_nat (B + length (avail v) + length (extra v))) x = Inr (q\<lparr>lifo_buffer := ?b\<rparr>)"
    using ring_shape_write(1) [OF S l, of x] by (simp add: lifo_write_at_def pos)
  moreover have "shape v @ [Some x] = shape (v\<lparr>extra := extra v @ [x]\<rparr>)" by (simp add: shape_def)
  then have "queue_ok (q\<lparr>lifo_buffer := ?b\<rparr>) P B (v\<lparr>extra := extra v @ [x]\<rparr>)"
    using ring_shape_write(2) [OF S l, of x] by (intro queue_ok_buffer [OF Q]) (simp_all add: claimed_def)
  ultimately show thesis by (rule that) simp
qed

lemma publish_extra:
  assumes "queue_ok q P B v"
  shows "queue_ok (q\<lparr>push_count := word_of_nat (P + (B + length (avail v) + length (extra v)))\<rparr>) P B
    (v\<lparr>avail := avail v @ extra v, extra := []\<rparr>)"
  using assms by (auto simp: queue_ok_def shape_def claimed_def ac_simps)

text \<open>The owner claims the newest item, and reads it.\<close>

lemma claim_last:
  assumes "queue_ok q P B v" "avail v = xs @ [x]" "extra v = []"
  shows "queue_ok (q\<lparr>pop_count_and_head := pack (word_of_nat (P + 1)) (word_of_nat B)\<rparr>) (P + 1) B
    (v\<lparr>avail := xs, extra := [x]\<rparr>)"
  using assms by (auto simp: queue_ok_def shape_def claimed_def ac_simps)

lemma read_extra:
  assumes Q: "queue_ok q P B v" and e: "extra v = [x]"
  obtains q' where "lifo_read_at q (word_of_nat (B + length (avail v))) = Inr (x, q')"
    "queue_ok q' P B (v\<lparr>extra := []\<rparr>)" "lifo_mask q' = lifo_mask q"
proof -
  let ?i = "claimed v + length (avail v)"
  have pos: "word_of_nat (B + length (avail v)) = lifo_head q + word_of_nat ?i"
    using q_claimed [OF Q] by (simp add: q_head [OF Q])
  have S: "ring_shape (lifo_buffer q) (lifo_mask q) (lifo_head q) (shape v)" using Q unfolding queue_ok_def by blast
  have sh: "shape v = shape (v\<lparr>extra := []\<rparr>) @ [Some x]" "length (shape (v\<lparr>extra := []\<rparr>)) = ?i"
    using e by (simp_all add: shape_def claimed_def)
  then have i: "?i < length (shape v)" "shape v ! ?i = Some x" "(shape v)[?i := None] = shape (v\<lparr>extra := []\<rparr>) @ [None]"
    by (metis length_append_singleton lessI, metis nth_append_length, metis list_update_length)
  let ?b = "(lifo_buffer q)[ring_idx (lifo_mask q) (lifo_head q + word_of_nat ?i) := None]"
  have "lifo_read_at q (word_of_nat (B + length (avail v))) = Inr (x, q\<lparr>lifo_buffer := ?b\<rparr>)"
    using ring_shape_read(1) [OF S i(1,2)] by (simp add: lifo_read_at_def pos)
  moreover have "queue_ok (q\<lparr>lifo_buffer := ?b\<rparr>) P B (v\<lparr>extra := []\<rparr>)"
    using ring_shape_drop_last [OF ring_shape_read(2) [OF S i(1,2), unfolded i(3)]]
    by (intro queue_ok_buffer [OF Q]) (simp_all add: claimed_def)
  ultimately show thesis by (rule that) simp
qed

text \<open>A booking takes the oldest items; its holder reads them in order and moves the head.\<close>

lemma book_first:
  assumes "queue_ok q P B v" "claimed v = 0" "0 < k" "k \<le> length (avail v)"
  shows "queue_ok (q\<lparr>pop_count_and_head := pack (word_of_nat P) (word_of_nat (B + k))\<rparr>) P (B + k)
    (v\<lparr>booked := take k (avail v), avail := drop k (avail v), who := Some b\<rparr>)"
proof -
  have "map Some (avail v) = map Some (take k (avail v)) @ map Some (drop k (avail v))"
    by (metis append_take_drop_id map_append)
  then show ?thesis using assms by (auto simp: queue_ok_def shape_def claimed_def)
qed

lemma read_booked:
  assumes Q: "queue_ok q P B v" and b: "booked v = x # xs"
  obtains q' where "lifo_read_at q (word_of_nat (B - length (booked v))) = Inr (x, q')"
    "queue_ok q' P B (v\<lparr>gone := Suc (gone v), booked := xs\<rparr>)" "lifo_mask q' = lifo_mask q"
proof -
  have "B - length (booked v) = (B - claimed v) + gone v" using q_claimed [OF Q] by (simp add: claimed_def)
  then have pos: "word_of_nat (B - length (booked v)) = lifo_head q + word_of_nat (gone v)" by (simp add: q_head [OF Q])
  have S: "ring_shape (lifo_buffer q) (lifo_mask q) (lifo_head q) (shape v)" using Q unfolding queue_ok_def by blast
  have i: "gone v < length (shape v)" "shape v ! gone v = Some x"
    "(shape v)[gone v := None] = shape (v\<lparr>gone := Suc (gone v), booked := xs\<rparr>)"
    using b by (simp_all add: shape_def span_def claimed_def nth_append list_update_append replicate_append_same)
  let ?b = "(lifo_buffer q)[ring_idx (lifo_mask q) (lifo_head q + word_of_nat (gone v)) := None]"
  have "lifo_read_at q (word_of_nat (B - length (booked v))) = Inr (x, q\<lparr>lifo_buffer := ?b\<rparr>)"
    using ring_shape_read(1) [OF S i(1,2)] by (simp add: lifo_read_at_def pos)
  moreover have "queue_ok (q\<lparr>lifo_buffer := ?b\<rparr>) P B (v\<lparr>gone := Suc (gone v), booked := xs\<rparr>)"
    using ring_shape_read(2) [OF S i(1,2), unfolded i(3)] b by (intro queue_ok_buffer [OF Q]) (simp_all add: claimed_def)
  ultimately show thesis by (rule that) simp
qed

lemma release_head:
  assumes "queue_ok q P B v" "booked v = []"
  shows "queue_ok (q\<lparr>lifo_head := word_of_nat B\<rparr>) P B (v\<lparr>gone := 0, who := None\<rparr>)"
proof -
  have "word_of_nat B = lifo_head q + word_of_nat (gone v)" using assms by (simp add: queue_ok_def claimed_def)
  moreover have "shape v = replicate (gone v) None @ shape (v\<lparr>gone := 0, who := None\<rparr>)" by (simp add: shape_def)
  moreover have "ring_shape (lifo_buffer q) (lifo_mask q) (lifo_head q) (shape v)" using assms(1) unfolding queue_ok_def by blast
  ultimately have "ring_shape (lifo_buffer q) (lifo_mask q) (word_of_nat B) (shape (v\<lparr>gone := 0, who := None\<rparr>))"
    using ring_shape_skip by metis
  then show ?thesis using assms by (auto simp: queue_ok_def claimed_def)
qed


section \<open>Steps of a thread\<close>

definition abs_after :: "'a lifo_sys \<Rightarrow> (nat \<Rightarrow> 'a lifo_view) \<Rightarrow> nat \<Rightarrow> 'a lifo_view \<Rightarrow> nat \<Rightarrow> 'a lifo_sys \<Rightarrow> 'a deques" where
  "abs_after s V j v i s' =
     (lifo_abs s V)\<lparr>content := (content (lifo_abs s V))(j := avail v),
       hand := (hand (lifo_abs s V))(i := hand_of (V(j := v)) i (pc s' i)),
       added := (added (lifo_abs s V))(i := pc_added (pc s' i)),
       given := l_given s', said := l_said s', yielded := l_yielded s'\<rparr>"

lemma simulated_queue:
  assumes I: "lifo_inv n s V"
    and s': "cq s' = (cq s)(j := q)" "popped s' = (popped s)(j := P)" "stolen s' = (stolen s)(j := B)"
      "\<And>t. t \<noteq> i \<Longrightarrow> pc s' t = pc s t" "drainer s' = drainer s"
    and Q: "queue_ok q P B v" "lifo_mask q = lifo_mask (cq s j)"
    and C: "change (Thief i) j (popped s j) (stolen s j) (V j) P B v"
    and T: "thread_ok n s' (V(j := v)) i"
    and W: "who v = who (V j) \<or> who v \<noteq> Some Drainer"
    and A: "deques_steps TakeNewest n (lifo_abs s V) (abs_after s V j v i s')"
  shows "simulated n s V s'"
proof (rule simulatedI)
  have W': "who (V j) \<noteq> Some Drainer \<Longrightarrow> who v \<noteq> Some Drainer" using W by auto
  have "drain_ok B v (drainer s' j)" using drain_ok_stable(1) [OF inv_drain [OF I] C W'] s'(5) by simp
  then show "lifo_inv n s' (V(j := v))"
    using inv_change [OF I s'(1-3) _ _ Q C] s'(4,5) T by auto
  have "lifo_abs s' (V(j := v)) = abs_after s V j v i s'"
    using abs_change [OF I C s'(4,5) W'] by (simp add: abs_after_def) (simp add: lifo_abs_def)
  then show "deques_steps TakeNewest n (lifo_abs s V) (lifo_abs s' (V(j := v)))" using A by simp
qed

lemma abs_skip:
  assumes "avail v = avail (V j)" "hand_of (V(j := v)) i (pc s' i) = hand_of V i (pc s i)" "pc_added (pc s' i) = pc_added (pc s i)"
    "l_given s' = l_given s" "l_said s' = l_said s" "l_yielded s' = l_yielded s"
  shows "deques_steps TakeNewest n (lifo_abs s V) (abs_after s V j v i s')"
proof -
  have "abs_after s V j v i s' = lifo_abs s V" using assms by (simp add: abs_after_def lifo_abs_def fun_eq_iff)
  then show ?thesis by simp
qed

lemma abs_say:
  assumes "i < n" "avail v = avail (V j)" "hand_of V i (pc s i) = answer_items a" "answer_ok a (pc_added (pc s i)) (avail (V i))"
    "extra ((V(j := v)) i) = []" "pc s' i = LIdle"
    "l_given s' = l_given s" "l_said s' = l_said s @ [(i, a)]" "l_yielded s' = l_yielded s"
  shows "deques_steps TakeNewest n (lifo_abs s V) (abs_after s V j v i s')"
proof -
  have "deques_step TakeNewest n (lifo_abs s V)
    ((lifo_abs s V)\<lparr>hand := (hand (lifo_abs s V))(i := []), added := (added (lifo_abs s V))(i := 0),
       said := said (lifo_abs s V) @ [(i, a)]\<rparr>)"
    by (rule deques_step.reply) (use assms in \<open>simp_all add: lifo_abs_def\<close>)
  moreover have "\<dots> = abs_after s V j v i s'"
    using assms by (simp add: abs_after_def lifo_abs_def hand_of_def fun_eq_iff)
  ultimately show ?thesis by (simp only: steps_one)
qed

text \<open>Changes by the owner of a queue.\<close>

lemma change_own:
  assumes "gone v' = gone v" "booked v' = booked v" "who v' = who v" "length (avail v) \<le> length (avail v')"
  shows "change (Thief i) i P B v P B v'"
  using assms by (auto simp: change_def claimed_def)

lemma step_push:
  assumes I: "lifo_inv n s V" and i: "i < n" and pc: "pc s i = LPush x"
  shows "returns (lifo_pc_step l i (LPush x) s) (simulated n s V)"
proof -
  note Q = inv_queue [OF I, of i]
  have e: "extra (V i) = []" using inv_own [OF I pc] by simp
  show ?thesis
  proof (cases "lifo_tail (cq s i) - lifo_head (cq s i) > lifo_mask (cq s i)")
    case True
    have "simulated n s V (say i (Full x) s)" by (rule simulated_say [OF I i e]) (simp_all add: pc e hand_of_def)
    then show ?thesis using True by (simp add: Let_def)
  next
    case False
    then have "claimed (V i) + length (avail (V i)) \<le> unat (lifo_mask (cq s i))"
      using q_len_nat [OF Q] by (simp add: not_less word_le_nat_alt)
    then have "0 < room (lifo_mask (cq s i)) (V i)" by (simp add: room_def cap_of_def span_def e)
    then have "simulated n s V (goto i (LPushWrite (push_count (cq s i)) (lifo_tail (cq s i)) x) s)"
      by (intro simulated_goto [OF I]) (use i in \<open>simp_all add: pc thread_ok_def goto_def e q_push [OF Q] q_pch [OF Q] hand_of_def\<close>)
    then show ?thesis using False by (simp add: Let_def)
  qed
qed

lemma step_push_write:
  assumes I: "lifo_inv n s V" and i: "i < n" and pc: "pc s i = LPushWrite c t x"
  shows "returns (lifo_pc_step l i (LPushWrite c t x) s) (simulated n s V)"
proof -
  have o: "extra (V i) = []" "c = word_of_nat (popped s i + (stolen s i + length (avail (V i))))"
      "t = word_of_nat (stolen s i + length (avail (V i)))" "0 < room (lifo_mask (cq s i)) (V i)"
    using inv_own [OF I pc] by simp_all
  obtain q where q: "lifo_write_at (cq s i) t x = Inr q" "queue_ok q (popped s i) (stolen s i) ((V i)\<lparr>extra := [x]\<rparr>)"
      "lifo_mask q = lifo_mask (cq s i)"
    using write_extra [OF inv_queue [OF I] o(4), of x] o(1,3) by auto
  let ?s = "goto i (LPushStore (c + 1)) (setq i q s)"
  have "simulated n s V ?s"
    by (rule simulated_queue [OF I, of ?s i q "popped s i" "stolen s i" i "(V i)\<lparr>extra := [x]\<rparr>"])
       (use i o q in \<open>simp_all add: sys_ops pc thread_ok_def change_own abs_skip hand_of_def\<close>)
  then show ?thesis using q(1) by simp
qed


text \<open>Publishing: what is past the tail becomes available, and the call may end with that.\<close>

abbreviation published :: "'a lifo_view \<Rightarrow> 'a lifo_view" where
  "published v \<equiv> v\<lparr>avail := avail v @ extra v, extra := []\<rparr>"

lemma abs_publish:
  assumes "i < n" "\<not> moving (pc s i)"
  shows "deques_step TakeNewest n (lifo_abs s V)
    ((lifo_abs s V)\<lparr>content := (content (lifo_abs s V))(i := avail (V i) @ extra (V i)),
       hand := (hand (lifo_abs s V))(i := pc_items (pc s i)),
       added := (added (lifo_abs s V))(i := pc_added (pc s i) + length (extra (V i)))\<rparr>)"
  using deques_step.add [of i n "length (extra (V i))" "lifo_abs s V" TakeNewest] assms
  by (simp add: lifo_abs_def hand_of_def)

lemma abs_publish_say:
  assumes i: "i < n" and m: "\<not> moving (pc s i)" and p: "pc s' i = LIdle"
    and a: "answer_items a = pc_items (pc s i)" "answer_ok a (pc_added (pc s i) + length (extra (V i))) (avail (V i) @ extra (V i))"
    and l: "l_given s' = l_given s" "l_said s' = l_said s @ [(i, a)]" "l_yielded s' = l_yielded s"
  shows "deques_steps TakeNewest n (lifo_abs s V) (abs_after s V i (published (V i)) i s')"
proof -
  let ?d = "(lifo_abs s V)\<lparr>content := (content (lifo_abs s V))(i := avail (V i) @ extra (V i)),
       hand := (hand (lifo_abs s V))(i := pc_items (pc s i)),
       added := (added (lifo_abs s V))(i := pc_added (pc s i) + length (extra (V i)))\<rparr>"
  let ?e = "?d\<lparr>hand := (hand ?d)(i := []), added := (added ?d)(i := 0), said := said ?d @ [(i, a)]\<rparr>"
  have 1: "deques_step TakeNewest n (lifo_abs s V) ?d" by (rule abs_publish [OF i m])
  have 2: "deques_step TakeNewest n ?d ?e" by (rule deques_step.reply) (use i a in simp_all)
  have 3: "abs_after s V i (published (V i)) i s' = ?e"
    using p l by (simp add: abs_after_def hand_of_def lifo_abs_def)
  show ?thesis unfolding 3 by (rule steps_two [OF 1 2])
qed

lemma step_push_store:
  assumes I: "lifo_inv n s V" and i: "i < n" and pc: "pc s i = LPushStore c"
  shows "returns (lifo_pc_step l i (LPushStore c) s) (simulated n s V)"
proof -
  have o: "length (extra (V i)) = 1" "c = word_of_nat (popped s i + (stolen s i + length (avail (V i))) + 1)"
    using inv_own [OF I pc] by simp_all
  let ?q = "(cq s i)\<lparr>push_count := c\<rparr>"
  let ?s = "say i Pushed (setq i ?q s)"
  have q: "queue_ok ?q (popped s i) (stolen s i) (published (V i))"
    using publish_extra [OF inv_queue [OF I], of i] o by (simp add: add.assoc)
  have "simulated n s V ?s"
    by (rule simulated_queue [OF I, of ?s i ?q "popped s i" "stolen s i" i "published (V i)"])
       (use i o(1) q in \<open>simp_all add: sys_ops pc thread_ok_def change_own abs_publish_say [where a = Pushed]\<close>)
  then show ?thesis by simp
qed

lemma step_extend:
  assumes I: "lifo_inv n s V" and i: "i < n" and pc: "pc s i = LExtend xs"
  shows "returns (lifo_pc_step l i (LExtend xs) s) (simulated n s V)"
proof -
  note Q = inv_queue [OF I, of i]
  have e: "extra (V i) = []" using inv_own [OF I pc] by simp
  have "lifo_head (cq s i) + lifo_capacity (cq s i) =
      word_of_nat (stolen s i + length (avail (V i))) + word_of_nat (room (lifo_mask (cq s i)) (V i))"
  proof -
    have "stolen s i - claimed (V i) + cap_of (lifo_mask (cq s i)) =
        stolen s i + length (avail (V i)) + room (lifo_mask (cq s i)) (V i)"
      using q_span [OF Q] q_claimed [OF Q] e by (simp add: room_def span_def)
    moreover have "lifo_capacity (cq s i) = word_of_nat (cap_of (lifo_mask (cq s i)))"
      by (simp add: lifo_capacity_def cap_of_def flip: wnat(3))
    ultimately show ?thesis by (simp add: q_head [OF Q])
  qed
  then have "simulated n s V (goto i (LExtendWrite (lifo_pops (cq s i)) (lifo_head (cq s i) + lifo_capacity (cq s i)) (lifo_tail (cq s i)) xs) s)"
    by (intro simulated_goto [OF I])
       (use i in \<open>auto simp: pc thread_ok_def goto_def e q_push [OF Q] q_pch [OF Q] hand_of_def\<close>)
  then show ?thesis by (simp add: Let_def)
qed

lemma step_extend_write:
  assumes I: "lifo_inv n s V" and i: "i < n" and pc: "pc s i = LExtendWrite p mx t xs"
  shows "returns (lifo_pc_step l i (LExtendWrite p mx t xs) s) (simulated n s V)"
proof -
  note Q = inv_queue [OF I, of i]
  obtain r where o: "p = word_of_nat (popped s i)" "t = word_of_nat (stolen s i + length (avail (V i)) + length (extra (V i)))"
      "mx = t + word_of_nat r" "r \<le> room (lifo_mask (cq s i)) (V i)"
    using inv_own [OF I pc] by auto
  show ?thesis
  proof (cases "xs = [] \<or> t = mx")
    case True
    let ?q = "(cq s i)\<lparr>push_count := t + p\<rparr>"
    let ?s = "say i (Extended xs) (setq i ?q s)"
    have q: "queue_ok ?q (popped s i) (stolen s i) (published (V i))"
      using publish_extra [OF Q] o by (simp add: ac_simps)
    have "simulated n s V ?s"
      by (rule simulated_queue [OF I, of ?s i ?q "popped s i" "stolen s i" i "published (V i)"])
         (use i q in \<open>simp_all add: sys_ops pc thread_ok_def change_own abs_publish_say [where a = "Extended xs"]\<close>)
    then show ?thesis using True by simp
  next
    case False
    then obtain x ys where xs: "xs = x # ys" by (cases xs) auto
    have r: "0 < r" using False o(3) by (cases r) auto
    let ?v = "(V i)\<lparr>extra := extra (V i) @ [x]\<rparr>"
    obtain q where q: "lifo_write_at (cq s i) t x = Inr q" "queue_ok q (popped s i) (stolen s i) ?v" "lifo_mask q = lifo_mask (cq s i)"
      using write_extra [OF Q, of x] o(2,4) r by auto
    let ?s = "goto i (LExtendWrite p mx (t + 1) ys) (setq i q s)"
    have "mx = (t + 1) + word_of_nat (r - 1)" using o(2,3) r by simp
    moreover have "r - 1 \<le> room (lifo_mask (cq s i)) ?v" using o(4) by (simp add: room_def span_def claimed_def)
    ultimately have "thread_ok n ?s (V(i := ?v)) i" using i o q by (auto simp: thread_ok_def sys_ops)
    then have "simulated n s V ?s"
      by (intro simulated_queue [OF I, of ?s i q "popped s i" "stolen s i" i ?v])
         (use i o q xs in \<open>simp_all add: sys_ops pc change_own abs_skip hand_of_def\<close>)
    then show ?thesis using q(1) False xs by simp
  qed
qed


lemma step_pop:
  assumes I: "lifo_inv n s V" and i: "i < n" and pc: "pc s i = LPop"
  shows "returns (lifo_pc_step l i LPop s) (simulated n s V)"
proof -
  note Q = inv_queue [OF I, of i]
  have e: "extra (V i) = []" using inv_own [OF I pc] by simp
  have "length (avail (V i)) \<le> 2147483648" using q_small [OF Q] by (simp add: span_def)
  then have "simulated n s V (goto i (LPopTry (pop_count_and_head (cq s i)) (lifo_tail (cq s i)) (lifo_pops (cq s i) + 1)) s)"
    by (intro simulated_goto [OF I])
       (use i in \<open>auto simp: pc thread_ok_def goto_def e q_push [OF Q] q_pch [OF Q] hand_of_def intro!: exI [of _ "stolen s i"]\<close>)
  then show ?thesis by (simp add: Let_def)
qed

lemma step_pop_try:
  assumes I: "lifo_inv n s V" and i: "i < n" and pc: "pc s i = LPopTry pch t np"
  shows "returns (lifo_pc_step l i (LPopTry pch t np) s) (simulated n s V)"
proof -
  note Q = inv_queue [OF I, of i]
  let ?P = "popped s i" and ?B = "stolen s i" and ?a = "avail (V i)"
  obtain b where o: "extra (V i) = []" "t = word_of_nat (?B + length ?a)" "np = word_of_nat (?P + 1)"
      "pch = pack (word_of_nat ?P) (word_of_nat b)" "b \<le> ?B" "?B + length ?a - b \<le> 2147483648"
    using inv_own [OF I pc] by auto
  have le: "length ?a \<le> 2147483648" using q_small [OF Q] by (simp add: span_def)
  consider "t = snd (unpack pch)" | "t \<noteq> snd (unpack pch)" "lucky l \<and> pop_count_and_head (cq s i) = pch"
    | "t \<noteq> snd (unpack pch)" "\<not> (lucky l \<and> pop_count_and_head (cq s i) = pch)" by blast
  then show ?thesis
  proof cases
    case 1
    then have "?B + length ?a = b" using word_of_nat_eq_near [of "?B + length ?a" b] o by simp
    then have "length ?a = 0" using o(5) by linarith
    then have "simulated n s V (say i (Popped None) s)" by (intro simulated_say [OF I i]) (simp_all add: pc o(1) hand_of_def)
    then show ?thesis using 1 by simp
  next
    case 2
    have "?B - b < 4294967296" using o(6) by linarith
    moreover have "(word_of_nat ?B :: ushort) = word_of_nat b" using 2(2) o(4) q_pch [OF Q] by simp
    ultimately have b: "b = ?B" using word_of_nat_eq_near [of ?B b] o(5) by blast
    then have "?a \<noteq> []" using 2(1) o(2,4) by auto
    then obtain xs x where a: "?a = xs @ [x]" by (cases ?a rule: rev_cases) auto
    let ?v = "(V i)\<lparr>avail := xs, extra := [x]\<rparr>"
    let ?q = "(cq s i)\<lparr>pop_count_and_head := pack np (snd (unpack pch))\<rparr>"
    let ?s = "goto i (LPopRead (t - 1)) (setq i ?q (s\<lparr>popped := (popped s)(i := ?P + 1)\<rparr>))"
    have q: "queue_ok ?q (?P + 1) ?B ?v" using claim_last [OF Q a o(1)] o b by simp
    have C: "change (Thief i) i ?P ?B (V i) (?P + 1) ?B ?v" by (simp add: change_def claimed_def)
    have "deques_step TakeNewest n (lifo_abs s V) ((lifo_abs s V)\<lparr>content := (content (lifo_abs s V))(i := xs),
        hand := (hand (lifo_abs s V))(i := [x])\<rparr>)"
      using deques_step.pop [of i n "lifo_abs s V" TakeNewest] i a by (simp add: lifo_abs_def hand_of_def o(1) pc pop_one_def)
    moreover have "\<dots> = abs_after s V i ?v i ?s" by (simp add: abs_after_def lifo_abs_def hand_of_def pc sys_ops fun_eq_iff)
    ultimately have A: "deques_step TakeNewest n (lifo_abs s V) (abs_after s V i ?v i ?s)" by (simp only:)
    then have "simulated n s V ?s"
      by (intro simulated_queue [OF I, of ?s i ?q "?P + 1" ?B i ?v] steps_one)
         (use i o a q C in \<open>simp_all add: sys_ops pc thread_ok_def\<close>)
    then show ?thesis using 2 by simp
  next
    case 3
    have "simulated n s V (goto i (LPopTry (pop_count_and_head (cq s i)) t np) s)"
      by (intro simulated_goto [OF I])
         (use i o le in \<open>auto simp: pc thread_ok_def goto_def q_pch [OF Q] hand_of_def intro!: exI [of _ ?B]\<close>)
    then show ?thesis using 3 by auto
  qed
qed

lemma step_pop_read:
  assumes I: "lifo_inv n s V" and i: "i < n" and pc: "pc s i = LPopRead t"
  shows "returns (lifo_pc_step l i (LPopRead t) s) (simulated n s V)"
proof -
  obtain x where o: "extra (V i) = [x]" "t = word_of_nat (stolen s i + length (avail (V i)))"
    using inv_own [OF I pc] by (cases "extra (V i)") auto
  obtain q where q: "lifo_read_at (cq s i) t = Inr (x, q)" "queue_ok q (popped s i) (stolen s i) ((V i)\<lparr>extra := []\<rparr>)"
      "lifo_mask q = lifo_mask (cq s i)"
    using read_extra [OF inv_queue [OF I] o(1)] o(2) by auto
  let ?s = "say i (Popped (Some x)) (setq i q s)"
  have "deques_steps TakeNewest n (lifo_abs s V) (abs_after s V i ((V i)\<lparr>extra := []\<rparr>) i ?s)"
    by (rule abs_say [of i n _ _ i _ "Popped (Some x)"]) (simp_all add: i o(1) pc sys_ops hand_of_def)
  then have "simulated n s V ?s"
    by (intro simulated_queue [OF I, of ?s i q "popped s i" "stolen s i" i "(V i)\<lparr>extra := []\<rparr>"])
       (use i q in \<open>simp_all add: sys_ops pc thread_ok_def change_own\<close>)
  then show ?thesis using q(1) by simp
qed

lemma step_spare:
  assumes I: "lifo_inv n s V" and i: "i < n" and pc: "pc s i = LSpare"
  shows "returns (lifo_pc_step l i LSpare s) (simulated n s V)"
proof -
  note Q = inv_queue [OF I, of i]
  have e: "extra (V i) = []" using inv_own [OF I pc] by simp
  have "unat (lifo_tail (cq s i) - lifo_head (cq s i)) \<le> cap_of (lifo_mask (cq s i))"
    using q_len_nat [OF Q] q_span [OF Q] by (simp add: span_def)
  then have "lifo_tail (cq s i) - lifo_head (cq s i) \<le> lifo_capacity (cq s i)"
    by (simp add: word_le_nat_alt lifo_capacity_def unat_capacity [OF q_mask [OF Q]])
  then obtain k where "lifo_spare_capacity (cq s i) = Inr k" by (simp add: lifo_spare_capacity_def Let_def)
  moreover have "simulated n s V (say i (Spare k) s)" by (rule simulated_say [OF I i]) (simp_all add: e pc hand_of_def)
  ultimately show ?thesis by simp
qed

lemma step_is_empty:
  assumes I: "lifo_inv n s V" and i: "i < n" and pc: "pc s i = LIsEmpty"
  shows "returns (lifo_pc_step l i LIsEmpty s) (simulated n s V)"
proof -
  note Q = inv_queue [OF I, of i]
  have e: "extra (V i) = []" using inv_own [OF I pc] by simp
  have "length (avail (V i)) < 4294967296" using q_small [OF Q] by (simp add: span_def)
  then have "lifo_is_empty (cq s i) \<longleftrightarrow> avail (V i) = []"
    using word_of_nat_eq_near [of "stolen s i + length (avail (V i))" "stolen s i"] q_tail [OF Q]
    by (auto simp: lifo_is_empty_def q_pch [OF Q])
  then have "simulated n s V (say i (Emptiness (lifo_is_empty (cq s i))) s)"
    by (intro simulated_say [OF I i]) (simp_all add: e pc hand_of_def)
  then show ?thesis by simp
qed


text \<open>Stealing: the destination's room, what is read of the victim, and the exchange.\<close>

lemma step_steal:
  assumes I: "lifo_inv n s V" and i: "i < n" and pc: "pc s i = LSteal v a"
  shows "returns (lifo_pc_step l i (LSteal v a) s) (simulated n s V)"
proof -
  note Q = inv_queue [OF I, of i]
  let ?q = "cq s i"
  let ?len = "lifo_tail ?q - lifo_head ?q" and ?cap = "lifo_capacity ?q"
  have e: "extra (V i) = []" using inv_own [OF I pc] by simp
  have cap: "unat ?cap = cap_of (lifo_mask ?q)" by (simp add: lifo_capacity_def unat_capacity [OF q_mask [OF Q]])
  have "unat ?len \<le> unat ?cap" using q_len_nat [OF Q] q_span [OF Q] by (simp add: span_def cap)
  then have le: "?len \<le> ?cap" by (simp add: word_le_nat_alt)
  obtain free where f: "checked_minus ?cap ?len = Inr free" "unat free = room (lifo_mask ?q) (V i)"
    using le q_len_nat [OF Q] e by (simp add: unat_sub cap room_def span_def)
  have small: "unat free \<le> 2147483648" using cap_of_le [OF q_mask [OF Q]] by (simp add: f(2) room_def)
  have plus: "checked_plus free 1 = Inr (free + 1)" "unat (free + 1) = unat free + 1"
    using small checked_plus_ok [of free 1] by (simp_all add: unat_plus32)
  have "free \<le> ?cap" by (simp add: word_le_nat_alt f(2) cap room_def)
  moreover have "simulated n s V (goto i (LBook (ToSteal v a (push_count ?q) (lifo_tail ?q) free mx)) s)"
    if "unat mx = unat free + (if a then 1 else 0)" for mx
    by (rule simulated_goto [OF I])
       (use i that inv_known [OF I pc i] q_tail [OF Q] in \<open>simp_all add: pc thread_ok_def goto_def e q_push [OF Q] f(2) hand_of_def\<close>)
  ultimately show ?thesis using plus by (cases a) (simp_all add: Let_def f(1))
qed

lemma step_book:
  assumes I: "lifo_inv n s V" and i: "i < n" and pc: "pc s i = LBook w"
  shows "returns (lifo_pc_step l i (LBook w) s) (simulated n s V)"
proof -
  let ?v = "target i w"
  have "read_ok (popped s ?v) (stolen s ?v) (popped s ?v, stolen s ?v) (pop_count_and_head (cq s ?v)) (popped s ?v) (stolen s ?v)"
    using q_pch [OF inv_queue [OF I, of ?v]] by (simp add: read_ok_def)
  then have "simulated n s V (goto i (LBookHead w (popped s ?v, stolen s ?v) (pop_count_and_head (cq s ?v))) s)"
    by (intro simulated_goto [OF I])
       (use i inv_known [OF I pc i] inv_own [OF I pc] in \<open>auto simp: pc thread_ok_def goto_def hand_of_def\<close>)
  then show ?thesis by (simp add: Let_def)
qed

lemma step_book_head:
  assumes I: "lifo_inv n s V" and i: "i < n" and pc: "pc s i = LBookHead w st pch"
  shows "returns (lifo_pc_step l i (LBookHead w st pch) s) (simulated n s V)"
proof -
  let ?v = "target i w"
  note Q = inv_queue [OF I, of ?v]
  have a: "\<exists>p b. read_ok (popped s ?v) (stolen s ?v) st pch p b" using inv_aim [OF I pc] by simp
  have "claimed (V ?v) \<le> 2147483648" using q_small [OF Q] by (simp add: span_def)
  then have "head_ok (stolen s ?v) (V ?v) st (lifo_head (cq s ?v))"
    using a q_head [OF Q] q_claimed [OF Q] by (auto simp: head_ok_def read_ok_def intro!: exI [of _ "stolen s ?v - claimed (V ?v)"])
  then have "simulated n s V (goto i (LBookCount w st pch (lifo_head (cq s ?v))) s)"
    by (intro simulated_goto [OF I])
       (use i a inv_known [OF I pc i] inv_own [OF I pc] in \<open>simp_all add: pc thread_ok_def goto_def hand_of_def\<close>)
  then show ?thesis by simp
qed

lemma step_book_count:
  assumes I: "lifo_inv n s V" and i: "i < n" and pc: "pc s i = LBookCount w st pch h"
  shows "returns (lifo_pc_step l i (LBookCount w st pch h) s) (simulated n s V)"
proof -
  let ?v = "target i w"
  let ?n = "(push_count (cq s ?v) - fst (unpack pch)) - snd (unpack pch)"
  note Q = inv_queue [OF I, of ?v]
  have own: "extra (V i) = []" "purpose_ok (popped s i) (stolen s i + length (avail (V i))) w"
      "room_ok (room (lifo_mask (cq s i)) (V i)) w"
    using inv_own [OF I pc] by simp_all
  obtain p b where R: "read_ok (popped s ?v) (stolen s ?v) st pch p b" and H: "head_ok (stolen s ?v) (V ?v) st h"
    using inv_aim [OF I pc] by auto
  have say: "simulated n s V (say i a s)" if "answer_items a = []" "answer_ok a 0 (avail (V i))" for a
    by (rule simulated_say [OF I i]) (simp_all add: that own pc hand_of_def)
  have small: "length (avail (V ?v)) \<le> 2147483648" using q_small [OF Q] by (simp add: span_def)
  have n: "?n = word_of_nat (length (avail (V ?v)))" if "p = popped s ?v" "b = stolen s ?v"
    using that R by (simp add: read_ok_def q_push [OF Q])
  have go: "simulated n s V (goto i (LBookTry w st pch h c) s)"
    if c: "c = steal_count k (max_count w) ?n" "c \<noteq> 0" and h: "h = snd (unpack pch)" for c k
  proof (rule simulated_goto [OF I])
    have "0 < unat c" using c(2) by (simp add: unat_gt_0)
    moreover have "unat c \<le> unat (max_count w)" "unat c \<le> unat ?n" using c(1) by (simp_all add: unat_steal_count)
    moreover have "unat c \<le> length (avail (V ?v))" if "p = popped s ?v" "b = stolen s ?v"
      using that n small \<open>unat c \<le> unat ?n\<close> by (simp add: unat_of_nat_small)
    ultimately show "thread_ok n (goto i (LBookTry w st pch h c) s) V i"
      using i R H h own inv_known [OF I pc i] by (auto simp: thread_ok_def goto_def)
  qed (simp_all add: pc hand_of_def)
  show ?thesis
    using say go by (simp add: split_beta Let_def split: option.splits)
qed


text \<open>
  An exchange that succeeds in time finds the queue as the booking has read it: nothing is
  booked, and what it counted is still available.
\<close>

lemma book_current:
  assumes A: "aim_ok i P B v (LBookTry w st (pack (word_of_nat P) (word_of_nat B)) h c)"
    and t: "P - fst st < 2147483648" "B - snd st < 2147483648" and cl: "claimed v \<le> B"
  shows "claimed v = 0" "0 < unat c" "unat c \<le> length (avail v)" "unat c \<le> unat (max_count w)"
proof -
  obtain p b where R: "read_ok P B st (pack (word_of_nat P) (word_of_nat B)) p b"
      and c: "p = P \<and> b = B \<longrightarrow> unat c \<le> length (avail v)"
    using A by auto
  have "P - p < 4294967296" "B - b < 4294967296" using R t by (auto simp: read_ok_def)
  then have "P = p" "B = b"
    using R word_of_nat_eq_near [of P p] word_of_nat_eq_near [of B b] by (auto simp: read_ok_def)
  with c show "unat c \<le> length (avail v)" by simp
  obtain k where k: "h = word_of_nat k" "k \<le> B - claimed v" "snd st \<le> k + 2147483648" using A by (auto simp: head_ok_def)
  have "B - k < 4294967296" using k(3) t(2) by linarith
  moreover have "(word_of_nat B :: ushort) = word_of_nat k" using A k(1) by simp
  ultimately have "B = k" using word_of_nat_eq_near [of B k] k(2) by simp
  then show "claimed v = 0" using k(2) cl by simp
  show "0 < unat c" "unat c \<le> unat (max_count w)" using A by auto
qed

definition booked_view :: "booker \<Rightarrow> nat \<Rightarrow> 'a lifo_view \<Rightarrow> 'a lifo_view" where
  "booked_view b k v = v\<lparr>booked := take k (avail v), avail := drop k (avail v), who := Some b\<rparr>"

lemma booked_view_simps:
  "avail (booked_view b k v) = drop k (avail v)" "booked (booked_view b k v) = take k (avail v)"
  "extra (booked_view b k v) = extra v" "who (booked_view b k v) = Some b" "gone (booked_view b k v) = gone v"
  by (simp_all add: booked_view_def)

lemma booked_view_sizes:
  assumes "claimed v = 0" "k \<le> length (avail v)"
  shows "claimed (booked_view b k v) = k" "span (booked_view b k v) = span v" "gone v = 0" "booked v = []"
  using assms by (simp_all add: booked_view_simps claimed_def span_def)

lemma change_book:
  assumes "claimed v = 0" "0 < k" "k \<le> length (avail v)" "who v = None"
  shows "change (Thief i) j P B v P (B + k) (booked_view b k v)"
  using assms booked_view_sizes [OF assms(1,3)] by (simp add: change_def booked_view_simps)

lemma step_book_steal:
  assumes I: "lifo_inv n s V" and i: "i < n" and pc: "pc s i = LBookTry w st pch h c" and w: "w = ToSteal v a dp dt df mx"
    and now: "pch = pop_count_and_head (cq s v)" and K: "claimed (V v) = 0" "0 < unat c" "unat c \<le> length (avail (V v))" "unat c \<le> unat mx"
  defines "s1 \<equiv> setq v ((cq s v)\<lparr>pop_count_and_head := pack (fst (unpack pch)) (snd (unpack pch) + c)\<rparr>)
    (s\<lparr>stolen := (stolen s)(v := stolen s v + unat c)\<rparr>)"
  shows "returns (lifo_begin_move i w (snd (unpack pch)) c s1) (simulated n s V)"
proof -
  note Q = inv_queue [OF I, of v]
  let ?B = "stolen s v" and ?k = "unat c"
  let ?v = "booked_view (Thief i) ?k (V v)" and ?h = "snd (unpack pch)"
  have pch: "unpack pch = (word_of_nat (popped s v), word_of_nat ?B)" using now q_pch [OF Q] by simp
  have hw: "word_of_nat ?B + c = word_of_nat (?B + ?k)" by (simp flip: wnat(1))
  then have hc: "?h + c = word_of_nat (?B + ?k)" by (simp add: pch)
  have none: "who (V v) = None" using q_who [OF Q] K(1) by simp
  note sz = booked_view_sizes [OF K(1,3)]
  have own: "extra (V i) = []" "purpose_ok (popped s i) (stolen s i + length (avail (V i))) w" "unat df \<le> room (lifo_mask (cq s i)) (V i)"
    using inv_own [OF I pc] by (simp_all add: w)
  have mx: "unat mx = unat df + (if a then 1 else 0)" using own(2) by (simp add: w)
  define tc where "tc = (if a then c - 1 else c)"
  have one: "(1 :: ushort) \<le> c" using K(2) by (simp add: word_le_nat_alt)
  have tc: "unat tc + (if a then 1 else 0) = ?k" using one by (simp add: tc_def unat_sub word_le_nat_alt)
  have tc_df: "unat tc \<le> unat df" using tc K(4) mx by (auto split: if_splits)
  let ?s = "goto i (LMove w ?h (?h + c) tc 0) s1"
  let ?q = "(cq s v)\<lparr>pop_count_and_head := pack (fst (unpack pch)) (?h + c)\<rparr>"
  have q: "queue_ok ?q (popped s v) (?B + ?k) ?v"
    using book_first [OF Q K(1-3), of "Thief i"] hc by (simp add: booked_view_def pch)
  have C: "change (Thief i) v (popped s v) ?B (V v) (popped s v) (?B + ?k) ?v" by (rule change_book [OF K(1-3) none])
  have views: "extra ((V(v := ?v)) i) = []" "span ((V(v := ?v)) i) = span (V i)"
      "stolen ?s i + length (avail ((V(v := ?v)) i)) = stolen s i + length (avail (V i))"
    using own(1) sz K by (auto simp: booked_view_simps sys_ops s1_def)
  have T: "thread_ok n ?s (V(v := ?v)) i"
    unfolding thread_ok_def
  proof (intro conjI)
    show "own_ok (lifo_mask (cq ?s i)) (popped ?s i) (stolen ?s i) ((V(v := ?v)) i) (pc ?s i)"
      using own views tc_df by (auto simp: sys_ops s1_def w room_def)
    show "aim_ok i (popped ?s (aim i (pc ?s i))) (stolen ?s (aim i (pc ?s i))) ((V(v := ?v)) (aim i (pc ?s i))) (pc ?s i)"
      using sz K tc hc by (cases a) (auto simp: sys_ops s1_def w booked_view_simps pch)
  qed (use inv_known [OF I pc i] in \<open>simp add: w sys_ops\<close>)
  have "deques_step TakeNewest n (lifo_abs s V) ((lifo_abs s V)\<lparr>content := (content (lifo_abs s V))(v := drop ?k (avail (V v))),
      hand := (hand (lifo_abs s V))(i := take ?k (avail (V v)))\<rparr>)"
    using deques_step.steal [of i n v "lifo_abs s V" ?k TakeNewest] i K inv_known [OF I pc i]
    by (simp add: lifo_abs_def hand_of_def own(1) pc w)
  moreover have "\<dots> = abs_after s V v ?v i ?s"
    using own(1) pc by (auto simp: abs_after_def lifo_abs_def hand_of_def sys_ops s1_def fun_eq_iff booked_view_simps w)
  ultimately have A: "deques_step TakeNewest n (lifo_abs s V) (abs_after s V v ?v i ?s)" by (simp only:)
  have "simulated n s V ?s"
    by (rule simulated_queue [OF I, of ?s v ?q "popped s v" "?B + ?k" i ?v])
       (use q C T A in \<open>simp_all add: sys_ops s1_def booked_view_simps steps_one\<close>)
  then show ?thesis using one tc_df by (auto simp: lifo_begin_move_def w tc_def word_le_nat_alt)
qed


lemma step_book_drain:
  assumes I: "lifo_inv n s V" and i: "i < n" and pc: "pc s i = LBookTry ToDrain st pch h c"
    and now: "pch = pop_count_and_head (cq s i)" and K: "claimed (V i) = 0" "0 < unat c" "unat c \<le> length (avail (V i))"
  defines "s1 \<equiv> setq i ((cq s i)\<lparr>pop_count_and_head := pack (fst (unpack pch)) (snd (unpack pch) + c)\<rparr>)
    (s\<lparr>stolen := (stolen s)(i := stolen s i + unat c)\<rparr>)"
  shows "returns (lifo_begin_move i ToDrain (snd (unpack pch)) c s1) (simulated n s V)"
proof -
  note Q = inv_queue [OF I, of i]
  let ?B = "stolen s i" and ?k = "unat c"
  let ?v = "booked_view Drainer ?k (V i)" and ?h = "snd (unpack pch)"
  have pch: "unpack pch = (word_of_nat (popped s i), word_of_nat ?B)" using now q_pch [OF Q] by simp
  have hw: "word_of_nat ?B + c = word_of_nat (?B + ?k)" by (simp flip: wnat(1))
  then have hc: "?h + c = word_of_nat (?B + ?k)" by (simp add: pch)
  have none: "who (V i) = None" using q_who [OF Q] K(1) by simp
  have d: "drainer s i = NoDrain" using inv_drain [OF I, of i] none by (cases "drainer s i") auto
  note sz = booked_view_sizes [OF K(1,3)]
  have e: "extra (V i) = []" using inv_own [OF I pc] by simp
  let ?s = "say i Draining_started (s1\<lparr>drainer := (drainer s1)(i := DrainAt ?h (?h + c))\<rparr>)"
  let ?q = "(cq s i)\<lparr>pop_count_and_head := pack (fst (unpack pch)) (?h + c)\<rparr>"
  have q: "queue_ok ?q (popped s i) (?B + ?k) ?v"
    using book_first [OF Q K, of Drainer] hc by (simp add: booked_view_def pch)
  have C: "change (Thief i) i (popped s i) ?B (V i) (popped s i) (?B + ?k) ?v" by (rule change_book [OF K none])
  have "lifo_inv n ?s (V(i := ?v))"
    by (rule inv_change [OF I, of ?s i ?q "popped s i" "?B + ?k" "Thief i" ?v])
       (use q C i e K in \<open>auto simp: sys_ops s1_def thread_ok_def booked_view_simps pch hw\<close>)
  moreover have "deques_steps TakeNewest n (lifo_abs s V) (lifo_abs ?s (V(i := ?v)))"
  proof -
    let ?d = "(lifo_abs s V)\<lparr>content := (content (lifo_abs s V))(i := drop ?k (avail (V i))),
        drained := (drained (lifo_abs s V))(i := take ?k (avail (V i)))\<rparr>"
    let ?e = "?d\<lparr>hand := (hand ?d)(i := []), added := (added ?d)(i := 0), said := said ?d @ [(i, Draining_started)]\<rparr>"
    have 1: "deques_step TakeNewest n (lifo_abs s V) ?d"
      using deques_step.drain [of i n "lifo_abs s V" ?k TakeNewest] i K by (simp add: lifo_abs_def d)
    have 2: "deques_step TakeNewest n ?d ?e"
      by (rule deques_step.reply) (use i in \<open>simp_all add: lifo_abs_def hand_of_def e pc\<close>)
    have hands: "hand_of (V(i := ?v)) t (pc ?s t) = (if t = i then [] else hand_of V t (pc s t))" for t
      using hand_of_other [OF I C, of t] e by (simp add: sys_ops s1_def hand_of_idle booked_view_simps)
    have 3: "lifo_abs ?s (V(i := ?v)) = ?e"
      using hands by (auto simp: lifo_abs_def sys_ops s1_def fun_eq_iff booked_view_simps)
    show ?thesis unfolding 3 by (rule steps_two [OF 1 2])
  qed
  ultimately have "simulated n s V ?s" by (rule simulatedI)
  then show ?thesis by (simp add: lifo_begin_move_def)
qed

lemma step_book_try:
  assumes I: "lifo_inv n s V" and i: "i < n" and pc: "pc s i = LBookTry w st pch h c" and t: "in_time i s"
  shows "returns (lifo_pc_step l i (LBookTry w st pch h c) s) (simulated n s V)"
proof -
  let ?v = "target i w"
  note Q = inv_queue [OF I, of ?v]
  have aim: "aim_ok i (popped s ?v) (stolen s ?v) (V ?v) (LBookTry w st pch h c)" using inv_aim [OF I pc] by (simp only: aim.simps)
  show ?thesis
  proof (cases "lucky l \<and> pop_count_and_head (cq s ?v) = pch")
    case True
    then have pch: "pch = pack (word_of_nat (popped s ?v)) (word_of_nat (stolen s ?v))" using q_pch [OF Q] by simp
    have "popped s ?v - fst st < 2147483648" "stolen s ?v - snd st < 2147483648"
      using t by (simp_all add: in_time_def pc split: prod.splits) linarith+
    note K = book_current [OF aim [unfolded pch] this q_claimed [OF Q]]
    show ?thesis
    proof (cases w)
      case ToDrain
      then show ?thesis using step_book_drain [OF I i, of st pch h c] pc K(1-3) True by (simp add: Let_def split_beta)
    next
      case (ToSteal v a dp dt df mx)
      then show ?thesis using step_book_steal [OF I i pc ToSteal] K True by (simp add: Let_def split_beta)
    qed
  next
    case False
    have R: "read_ok (popped s ?v) (stolen s ?v) st (pop_count_and_head (cq s ?v)) (popped s ?v) (stolen s ?v)"
      using aim q_pch [OF Q] by (auto simp: read_ok_def)
    have "simulated n s V (goto i (LBookCount w st (pop_count_and_head (cq s ?v)) h) s)"
      by (rule simulated_goto [OF I])
         (use i R aim inv_own [OF I pc] inv_known [OF I pc i] in \<open>auto simp: pc thread_ok_def goto_def hand_of_def\<close>)
    then show ?thesis using False by (auto simp: Let_def split_beta)
  qed
qed


text \<open>Moving the booked items: each leaves the victim's buffer and enters the thief's.\<close>

lemma change_booker:
  assumes "who v = Some (Thief i)" "claimed v' = claimed v" "avail v' = avail v" "extra v' = extra v"
  shows "change (Thief i) j P B v P B v'"
  using assms by (simp add: change_def span_def)

lemma step_move:
  assumes I: "lifo_inv n s V" and i: "i < n" and pc: "pc s i = LMove w h nh tc k"
  shows "returns (lifo_pc_step l i (LMove w h nh tc k) s) (simulated n s V)"
proof -
  let ?v = "target i w"
  let ?V = "V ?v"
  note Q = inv_queue [OF I, of ?v]
  have own: "w \<noteq> ToDrain" "purpose_ok (popped s i) (stolen s i + length (avail (V i))) w" "length (extra (V i)) = k" "k \<le> unat tc"
      "unat tc - k \<le> room (lifo_mask (cq s i)) (V i)"
    using inv_own [OF I pc] by simp_all
  have aim: "who ?V = Some (Thief i)" "gone ?V = k" "length (booked ?V) + k = unat tc + (if and_pop w then 1 else 0)"
      "h = word_of_nat (stolen s ?v - claimed ?V)" "nh = word_of_nat (stolen s ?v)" "and_pop w \<or> 0 < unat tc"
    using inv_aim [OF I pc] by simp_all
  have read: "\<exists>q. lifo_read_at (cq s ?v) (h + word_of_nat k) = Inr (x, q) \<and> simulated n s V (goto i p (setq ?v q s))"
    if b: "booked ?V = x # xs" and p: "p = LMoveWrite w h nh tc k x \<and> k < unat tc \<or> p = LPublish w nh tc [x] \<and> k = unat tc \<and> and_pop w" for x xs p
  proof -
    let ?u = "?V\<lparr>gone := Suc (gone ?V), booked := xs\<rparr>"
    have "stolen s ?v - claimed ?V + k = stolen s ?v - length (booked ?V)"
      using q_claimed [OF Q] aim(2) by (simp add: claimed_def)
    then have "h + word_of_nat k = word_of_nat (stolen s ?v - length (booked ?V))" using aim(4) by simp
    then obtain q where q: "lifo_read_at (cq s ?v) (h + word_of_nat k) = Inr (x, q)" "queue_ok q (popped s ?v) (stolen s ?v) ?u"
        "lifo_mask q = lifo_mask (cq s ?v)"
      using read_booked [OF Q b] by metis
    have C: "change (Thief i) ?v (popped s ?v) (stolen s ?v) ?V (popped s ?v) (stolen s ?v) ?u"
      by (rule change_booker [OF aim(1)]) (use b in \<open>simp_all add: claimed_def\<close>)
    have cl: "claimed ?u = claimed ?V" "span ?u = span ?V" using b by (simp_all add: claimed_def span_def)
    let ?s = "goto i p (setq ?v q s)"
    have own': "own_ok (lifo_mask (cq ?s i)) (popped s i) (stolen s i) ((V(?v := ?u)) i) p"
      using p own q(3) cl by (cases "?v = i") (auto simp: sys_ops room_def)
    have aim': "aim i p = ?v" "aim_ok i (popped s ?v) (stolen s ?v) ?u p"
      using p aim b cl by auto
    have "thread_ok n ?s (V(?v := ?u)) i"
      using own' aim' inv_known [OF I pc i] by (simp add: thread_ok_def sys_ops)
    moreover have "hand_of (V(?v := ?u)) i p = hand_of V i (pc s i)"
      using p aim'(1) b aim(3) by (cases "?v = i") (auto simp: hand_of_def pc)
    ultimately have "simulated n s V ?s"
      by (intro simulated_queue [OF I, of ?s ?v q "popped s ?v" "stolen s ?v" i ?u])
         (use q C p in \<open>auto simp: sys_ops pc intro!: abs_skip\<close>)
    then show ?thesis using q(1) by blast
  qed
  consider "k < unat tc" | "k = unat tc" "and_pop w" | "k = unat tc" "\<not> and_pop w" using own(4) by linarith
  then show ?thesis
  proof cases
    case 1
    then obtain x xs where "booked ?V = x # xs" using aim(3) by (cases "booked ?V") auto
    then show ?thesis using read [of x xs "LMoveWrite w h nh tc k x"] 1 by auto
  next
    case 2
    then obtain x xs where "booked ?V = x # xs" using aim(3) by (cases "booked ?V") auto
    then show ?thesis using read [of x xs "LPublish w nh tc [x]"] 2 by auto
  next
    case 3
    then have b: "booked ?V = []" using aim(3) by simp
    then have "simulated n s V (goto i (LPublish w nh tc []) s)"
      by (intro simulated_goto [OF I])
         (use i own aim 3 inv_known [OF I pc i] in \<open>simp_all add: pc thread_ok_def goto_def hand_of_def\<close>)
    then show ?thesis using 3 by simp
  qed
qed

lemma step_move_write:
  assumes I: "lifo_inv n s V" and i: "i < n" and pc: "pc s i = LMoveWrite w h nh tc k x"
  shows "returns (lifo_pc_step l i (LMoveWrite w h nh tc k x) s) (simulated n s V)"
proof -
  let ?v = "target i w"
  let ?u = "(V i)\<lparr>extra := extra (V i) @ [x]\<rparr>"
  have own: "w \<noteq> ToDrain" "purpose_ok (popped s i) (stolen s i + length (avail (V i))) w" "length (extra (V i)) = k" "k < unat tc"
      "unat tc - k \<le> room (lifo_mask (cq s i)) (V i)"
    using inv_own [OF I pc] by simp_all
  have room: "0 < room (lifo_mask (cq s i)) (V i)" using own(4,5) by linarith
  have "dest_tail w + word_of_nat k = word_of_nat (stolen s i + length (avail (V i)) + length (extra (V i)))"
    using own(1-3) by (cases w) simp_all
  then obtain q where q: "lifo_write_at (cq s i) (dest_tail w + word_of_nat k) x = Inr q" "queue_ok q (popped s i) (stolen s i) ?u"
      "lifo_mask q = lifo_mask (cq s i)"
    using write_extra [OF inv_queue [OF I] room, of x] by auto
  let ?s = "goto i (LMove w h nh tc (Suc k)) (setq i q s)"
  have cl: "claimed ?u = claimed (V i)" by (simp add: claimed_def)
  have "unat tc - Suc k \<le> room (lifo_mask (cq s i)) ?u" using own(5) by (simp add: room_def span_def claimed_def)
  then have "thread_ok n ?s (V(i := ?u)) i"
    using own q(3) inv_aim [OF I pc] inv_known [OF I pc i] cl by (cases "?v = i") (auto simp: thread_ok_def sys_ops)
  moreover have "hand_of (V(i := ?u)) i (LMove w h nh tc (Suc k)) = hand_of V i (pc s i)"
    by (cases "?v = i") (simp_all add: hand_of_def pc)
  ultimately have "simulated n s V ?s"
    by (intro simulated_queue [OF I, of ?s i q "popped s i" "stolen s i" i ?u])
       (use q in \<open>auto simp: sys_ops pc change_own intro!: abs_skip\<close>)
  then show ?thesis using q(1) by simp
qed


lemma step_publish:
  assumes I: "lifo_inv n s V" and i: "i < n" and pc: "pc s i = LPublish w nh tc xs"
  shows "returns (lifo_pc_step l i (LPublish w nh tc xs) s) (simulated n s V)"
proof -
  let ?v = "target i w"
  let ?u = "published (V i)"
  have own: "w \<noteq> ToDrain" "purpose_ok (popped s i) (stolen s i + length (avail (V i))) w" "length (extra (V i)) = unat tc"
    using inv_own [OF I pc] by simp_all
  have "tc = word_of_nat (length (extra (V i)))" using own(3) by simp
  then have "dest_push w + tc = word_of_nat (popped s i + (stolen s i + length (avail (V i)) + length (extra (V i))))"
    using own(1,2) by (cases w) (simp_all add: add.assoc)
  then have q: "queue_ok ((cq s i)\<lparr>push_count := dest_push w + tc\<rparr>) (popped s i) (stolen s i) ?u" (is "queue_ok ?q _ _ _")
    using publish_extra [OF inv_queue [OF I]] by simp
  let ?s = "goto i (LSetHead ?v nh tc xs) (setq i ?q s)"
  have "thread_ok n ?s (V(i := ?u)) i"
    using inv_aim [OF I pc] inv_known [OF I pc i] by (cases "?v = i") (auto simp: thread_ok_def sys_ops split: if_splits)
  moreover have "abs_after s V i ?u i ?s = (lifo_abs s V)\<lparr>content := (content (lifo_abs s V))(i := avail (V i) @ extra (V i)),
       hand := (hand (lifo_abs s V))(i := pc_items (pc s i)),
       added := (added (lifo_abs s V))(i := pc_added (pc s i) + length (extra (V i)))\<rparr>"
    by (simp add: abs_after_def sys_ops pc hand_of_def own(3) lifo_abs_def)
  ultimately have "simulated n s V ?s"
    using abs_publish [OF i, of s V] pc q
    by (intro simulated_queue [OF I, of ?s i ?q "popped s i" "stolen s i" i ?u]) (simp_all add: sys_ops change_own steps_one)
  then show ?thesis by simp
qed

lemma step_set_head:
  assumes I: "lifo_inv n s V" and i: "i < n" and pc: "pc s i = LSetHead v nh tc xs"
  shows "returns (lifo_pc_step l i (LSetHead v nh tc xs) s) (simulated n s V)"
proof -
  let ?u = "(V v)\<lparr>gone := 0, who := None\<rparr>"
  let ?a = "case xs of [] \<Rightarrow> Stole (unat tc) | x # _ \<Rightarrow> StoleItem x (unat tc)"
  let ?q = "(cq s v)\<lparr>lifo_head := nh\<rparr>"
  let ?s = "say i ?a (setq v ?q s)"
  note Q = inv_queue [OF I, of v]
  have e: "extra (V i) = []" using inv_own [OF I pc] by simp
  have aim: "who (V v) = Some (Thief i)" "booked (V v) = []" "nh = word_of_nat (stolen s v)" "length xs \<le> 1" "xs = [] \<longrightarrow> 0 < unat tc"
    using inv_aim [OF I pc] by simp_all
  have q: "queue_ok ?q (popped s v) (stolen s v) ?u" using release_head [OF Q aim(2)] aim(3) by simp
  have C: "change (Thief i) v (popped s v) (stolen s v) (V v) (popped s v) (stolen s v) ?u"
    using aim by (auto simp: change_def claimed_def span_def)
  have ans: "answer_items ?a = xs" "answer_ok ?a (unat tc) c" for c
    using aim(4,5) by (cases xs; auto)+
  have "deques_steps TakeNewest n (lifo_abs s V) (abs_after s V v ?u i ?s)"
    by (rule abs_say [of i n _ _ v _ ?a]) (use i e ans in \<open>auto simp: pc sys_ops hand_of_def\<close>)
  then have "simulated n s V ?s"
    by (intro simulated_queue [OF I, of ?s v ?q "popped s v" "stolen s v" i ?u])
       (use i q C e in \<open>auto simp: sys_ops thread_ok_def\<close>)
  then show ?thesis by simp
qed

lemma lifo_pc_step_ok:
  assumes I: "lifo_inv n s V" and i: "i < n" and t: "in_time i s"
  shows "returns (lifo_pc_step l i (pc s i) s) (simulated n s V)"
proof (cases "pc s i")
  case LIdle
  then show ?thesis using I by (auto intro: simulatedI)
qed (simp_all only: step_push [OF I i] step_push_write [OF I i] step_push_store [OF I i] step_extend [OF I i]
  step_extend_write [OF I i] step_pop [OF I i] step_pop_try [OF I i] step_pop_read [OF I i] step_steal [OF I i]
  step_book [OF I i] step_book_head [OF I i] step_book_count [OF I i] step_book_try [OF I i _ t] step_move [OF I i]
  step_move_write [OF I i] step_publish [OF I i] step_set_head [OF I i] step_spare [OF I i] step_is_empty [OF I i])

section \<open>Steps of a drain\<close>

lemma hands_drain:
  assumes "lifo_inv n s V" "change Drainer j (popped s j) (stolen s j) (V j) P B v"
  shows "hand_of (V(j := v)) t (pc s t) = hand_of V t (pc s t)"
  using hand_of_other [OF assms] by simp

lemma lifo_drainer_step_ok:
  assumes I: "lifo_inv n s V" and i: "i < n"
  shows "returns (lifo_drainer_step i (drainer s i) s) (simulated n s V)"
proof (cases "drainer s i")
  case NoDrain
  then show ?thesis using I by (auto intro: simulatedI)
next
  case (DrainAt p e)
  note Q = inv_queue [OF I, of i]
  have d: "who (V i) = Some Drainer" "booked (V i) \<noteq> []" "p = word_of_nat (stolen s i - length (booked (V i)))" "e = word_of_nat (stolen s i)"
    using inv_drain [OF I, of i] DrainAt by simp_all
  then obtain x xs where b: "booked (V i) = x # xs" by (cases "booked (V i)") auto
  let ?u = "(V i)\<lparr>gone := Suc (gone (V i)), booked := xs\<rparr>"
  obtain q where q: "lifo_read_at (cq s i) p = Inr (x, q)" "queue_ok q (popped s i) (stolen s i) ?u" "lifo_mask q = lifo_mask (cq s i)"
    using read_booked [OF Q b] d(3) by metis
  have C: "change Drainer i (popped s i) (stolen s i) (V i) (popped s i) (stolen s i) ?u"
    using d(1) b by (auto simp: change_def claimed_def span_def)
  have le: "length (booked (V i)) \<le> stolen s i" "length (booked (V i)) \<le> 2147483648"
    using q_claimed [OF Q] q_small [OF Q] by (simp_all add: claimed_def span_def)
  have "Suc (stolen s i - length (booked (V i))) = stolen s i - length xs" using b le(1) by simp
  then have p1: "p + 1 = word_of_nat (stolen s i - length xs)" using d(3) by simp
  have last: "p + 1 = e \<longleftrightarrow> xs = []"
  proof
    assume "p + 1 = e"
    then have "stolen s i = stolen s i - length xs"
      using word_of_nat_eq_near [of "stolen s i" "stolen s i - length xs"] le b by (simp add: p1 d(4))
    moreover have "length xs < stolen s i" using le(1) b by simp
    ultimately have "length xs = 0" by linarith
    then show "xs = []" by simp
  qed (simp add: p1 d(4))
  have inv: "lifo_inv n s' (V(i := ?u))" "hand_of (V(i := ?u)) t (pc s' t) = hand_of V t (pc s t)"
    if "cq s' = (cq s)(i := q)" "pc s' = pc s" "popped s' = popped s" "stolen s' = stolen s" "drainer s' = (drainer s)(i := dr)"
      "drain_ok (stolen s i) ?u dr" for s' dr t
    using inv_change [OF I _ _ _ _ _ q(2,3) C, of s'] hands_drain [OF I C, of t] that by simp_all
  show ?thesis
  proof (cases "xs = []")
    case True
    let ?s = "setq i q (s\<lparr>drainer := (drainer s)(i := DrainLast x e)\<rparr>)"
    note n = inv [of ?s "DrainLast x e"]
    have "lifo_abs ?s (V(i := ?u)) = lifo_abs s V"
      using n(2) True d(1,4) b DrainAt by (auto simp: lifo_abs_def setq_def fun_eq_iff)
    then have "simulated n s V ?s" using n(1) d(1,4) True by (intro simulatedI) (auto simp: setq_def)
    then show ?thesis using q(1) DrainAt last True by simp
  next
    case False
    let ?s = "setq i q (s\<lparr>drainer := (drainer s)(i := DrainAt (p + 1) e), l_yielded := l_yielded s @ [(i, x)]\<rparr>)"
    note n = inv [of ?s "DrainAt (p + 1) e"]
    have "deques_step TakeNewest n (lifo_abs s V) ((lifo_abs s V)\<lparr>drained := (drained (lifo_abs s V))(i := xs),
        yielded := yielded (lifo_abs s V) @ [(i, x)]\<rparr>)"
      using deques_step.next_item [of i n "lifo_abs s V" x xs TakeNewest] i b DrainAt by (simp add: lifo_abs_def)
    moreover have "\<dots> = lifo_abs ?s (V(i := ?u))"
      using n(2) d(1,4) b DrainAt False p1 by (auto simp: lifo_abs_def setq_def fun_eq_iff)
    ultimately have "deques_steps TakeNewest n (lifo_abs s V) (lifo_abs ?s (V(i := ?u)))" by (simp only: steps_one)
    then have "simulated n s V ?s" using n(1) d(1,4) False p1 by (intro simulatedI) (auto simp: setq_def)
    then show ?thesis using q(1) DrainAt last False by simp
  qed
next
  case (DrainLast x e)
  note Q = inv_queue [OF I, of i]
  have d: "who (V i) = Some Drainer" "booked (V i) = []" "e = word_of_nat (stolen s i)"
    using inv_drain [OF I, of i] DrainLast by simp_all
  let ?u = "(V i)\<lparr>gone := 0, who := None\<rparr>"
  let ?q = "(cq s i)\<lparr>lifo_head := e\<rparr>"
  let ?s = "setq i ?q (s\<lparr>drainer := (drainer s)(i := NoDrain), l_yielded := l_yielded s @ [(i, x)]\<rparr>)"
  have q: "queue_ok ?q (popped s i) (stolen s i) ?u" using release_head [OF Q d(2)] d(3) by simp
  have C: "change Drainer i (popped s i) (stolen s i) (V i) (popped s i) (stolen s i) ?u"
    using d by (auto simp: change_def claimed_def span_def)
  have inv: "lifo_inv n ?s (V(i := ?u))" using inv_change [OF I _ _ _ _ _ q _ C, of ?s] by (simp add: setq_def)
  have "deques_step TakeNewest n (lifo_abs s V) ((lifo_abs s V)\<lparr>drained := (drained (lifo_abs s V))(i := []),
        yielded := yielded (lifo_abs s V) @ [(i, x)]\<rparr>)"
    using deques_step.next_item [of i n "lifo_abs s V" x "[]" TakeNewest] i DrainLast by (simp add: lifo_abs_def)
  moreover have "\<dots> = lifo_abs ?s (V(i := ?u))"
    using hands_drain [OF I C] by (auto simp: lifo_abs_def setq_def fun_eq_iff)
  ultimately have "deques_steps TakeNewest n (lifo_abs s V) (lifo_abs ?s (V(i := ?u)))" by (simp only: steps_one)
  then have "simulated n s V ?s" by (rule simulatedI [OF inv])
  then show ?thesis using DrainLast by simp
qed


section \<open>All executions\<close>

lemma lifo_inv_new:
  assumes "\<And>i. lifo_new (m i) = Inr (Q i)"
  shows "lifo_inv n (lifo_sys_new Q) (\<lambda>_. \<lparr>gone = 0, booked = [], avail = [], extra = [], who = None\<rparr>)"
proof -
  let ?v = "\<lparr>gone = 0, booked = [], avail = [], extra = [], who = None\<rparr>"
  have "queue_ok (Q i) 0 0 ?v" for i
  proof -
    have "m i \<le> MAX_CAPACITY" using assms [of i] by (auto simp: lifo_new_def assert_that_def split: if_splits)
    from lifo_new_ok [OF this, where 'a = 'a] assms [of i] have "lifo_rep (Q i) 0 [] []" by auto
    moreover have "push_count (Q i) = 0 \<and> pop_count_and_head (Q i) = 0 \<and> lifo_head (Q i) = 0"
      using assms [of i] by (cases "Q i") (auto simp: lifo_new_def Let_def rbind_Inr_iff)
    moreover have "pack 0 0 = 0" by (simp add: pack_def)
    ultimately show ?thesis by (simp add: queue_ok_def claimed_def shape_def lifo_rep_def ring_holds_shape)
  qed
  then show ?thesis by (simp add: lifo_inv_def lifo_sys_new_def thread_ok_def)
qed

lemma lifo_begin_call:
  assumes I: "lifo_inv n s V" and i: "i < n" and pc: "pc s i = LIdle" and c: "call_known n c"
  shows "simulated n s V (s\<lparr>pc := (pc s)(i := start_pc c), l_given := l_given s @ call_gives c\<rparr>)" (is "simulated n s V ?s")
proof (rule simulatedI)
  have e: "extra (V i) = []" using inv_own [OF I pc] by simp
  have "own_ok m P B (V i) (start_pc c)" "aim_ok i P B v (start_pc c)" "aim i (start_pc c) < n" for m P B v
    using e c i by (cases c; simp)+
  then show "lifo_inv n ?s V" by (intro inv_pc [OF I, of _ i]) (simp_all add: thread_ok_def)
  have "deques_step TakeNewest n (lifo_abs s V) ((lifo_abs s V)\<lparr>hand := (hand (lifo_abs s V))(i := call_gives c),
      added := (added (lifo_abs s V))(i := 0), given := given (lifo_abs s V) @ call_gives c\<rparr>)"
    by (rule deques_step.call) (use i in \<open>simp_all add: lifo_abs_def hand_of_def pc e\<close>)
  moreover have "\<dots> = lifo_abs ?s V" using e by (cases c) (auto simp: lifo_abs_def fun_eq_iff hand_of_def)
  ultimately show "deques_steps TakeNewest n (lifo_abs s V) (lifo_abs ?s V)" by (simp only: steps_one)
qed

lemma lifo_step_simulated:
  assumes I: "lifo_inv n s V" and S: "lifo_sys_step n s s'"
  shows "simulated n s V s'"
  using S
proof cases
  case (begin_call i c)
  then show ?thesis using lifo_begin_call [OF I] by simp
next
  case (work i l)
  then show ?thesis using lifo_pc_step_ok [OF I, of i l] by simp
next
  case (drain i)
  then show ?thesis using lifo_drainer_step_ok [OF I, of i] by simp
qed

definition lifo_rep_deques :: "nat \<Rightarrow> 'a lifo_sys \<Rightarrow> 'a deques \<Rightarrow> bool" where
  "lifo_rep_deques n s d \<longleftrightarrow> (\<exists>V. lifo_inv n s V \<and> d = lifo_abs s V)"

definition lifo_started :: "'a lifo_sys \<Rightarrow> bool" where
  "lifo_started s \<longleftrightarrow> (\<exists>m Q. (\<forall>i. lifo_new (m i) = Inr (Q i)) \<and> s = lifo_sys_new Q)"

lemma lifo_started_rep:
  assumes "lifo_started s"
  shows "lifo_rep_deques n s deques_new"
proof -
  let ?V = "\<lambda>_. \<lparr>gone = 0, booked = [], avail = [], extra = [], who = None\<rparr>"
  obtain m Q where m: "\<And>i. lifo_new (m i) = Inr (Q i)" and s: "s = lifo_sys_new Q"
    using assms unfolding lifo_started_def by blast
  have "deques_new = lifo_abs s ?V"
    by (simp add: s lifo_abs_def lifo_sys_new_def deques_new_def hand_of_def)
  moreover have "lifo_inv n s ?V" unfolding s by (rule lifo_inv_new [OF m])
  ultimately show ?thesis unfolding lifo_rep_deques_def by blast
qed

interpretation lifo_deques: deque_system TakeNewest n lifo_started "lifo_sys_step n" "lifo_rep_deques n" for n
proof
  show "lifo_rep_deques n s deques_new" if "lifo_started s" for s :: "'a lifo_sys"
    by (rule lifo_started_rep [OF that])
next
  fix s s' :: "'a lifo_sys" and d
  assume "lifo_rep_deques n s d" and S: "lifo_sys_step n s s'"
  then obtain V where I: "lifo_inv n s V" and d: "d = lifo_abs s V" unfolding lifo_rep_deques_def by blast
  from lifo_step_simulated [OF I S] show "\<exists>d'. deques_steps TakeNewest n d d' \<and> lifo_rep_deques n s' d'"
    unfolding simulated_def lifo_rep_deques_def d by blast
qed

lemma lifo_reach_steps:
  "lifo_sys_reach n s \<Longrightarrow> \<exists>s0. lifo_started s0 \<and> (lifo_sys_step n)\<^sup>*\<^sup>* s0 s"
proof (induction rule: lifo_sys_reach.induct)
  case (init m Q)
  then have "lifo_started (lifo_sys_new Q)" unfolding lifo_started_def by blast
  then show ?case by blast
next
  case (step s s')
  then show ?case by (meson rtranclp.rtrancl_into_rtrancl)
qed

lemma lifo_reach_simulated:
  assumes "lifo_sys_reach n s"
  obtains V where "lifo_inv n s V" "deques_steps TakeNewest n deques_new (lifo_abs s V)"
    "mset (given (lifo_abs s V)) = given_back (lifo_abs s V) + in_deques n (lifo_abs s V)"
proof -
  obtain s0 where s0: "lifo_started s0" "(lifo_sys_step n)\<^sup>*\<^sup>* s0 s"
    using lifo_reach_steps [OF assms] by blast
  obtain d where d: "lifo_rep_deques n s d" "deques_steps TakeNewest n deques_new d"
      "mset (given d) = given_back d + in_deques n d"
    by (rule lifo_deques.execution_rep [OF s0])
  from d(1) obtain V where "lifo_inv n s V" "d = lifo_abs s V" unfolding lifo_rep_deques_def by blast
  then show thesis using that d by blast
qed

end
