(* ===== verification/Lifo_Safety.thy ===== *)
theory Lifo_Safety
  imports Lifo_Concurrent
begin

text \<open>
  What the interleavings of the LIFO queues guarantee: they implement the deques of
  \<open>Deque_Spec\<close>, no access faults, no two threads touch the same slot at once, and no item is
  lost or duplicated.
\<close>

section \<open>Slots\<close>

text \<open>An owner touches slots past the available items, a booker the first of its booked ones.\<close>

lemma owner_slot:
  assumes Q: "queue_ok (cq s j) P B v" and p: "p = word_of_nat (B + length (avail v) + k)"
    and r: "k < length (extra v) \<or> k = length (extra v) \<and> 0 < room (lifo_mask (cq s j)) v"
  shows "\<exists>d. claimed v \<le> d \<and> d < cap_of (lifo_mask (cq s j)) \<and>
    slot_at s j p = Some (j, ring_idx (lifo_mask (cq s j)) (lifo_head (cq s j) + word_of_nat d))"
proof -
  let ?d = "claimed v + length (avail v) + k"
  have "B - claimed v + ?d = B + length (avail v) + k" using q_claimed [OF Q] by simp
  then have "p = lifo_head (cq s j) + word_of_nat ?d" by (simp only: p q_head [OF Q] wnat(1))
  moreover have "?d < cap_of (lifo_mask (cq s j))" using r q_span [OF Q] by (auto simp: room_def span_def)
  ultimately show ?thesis by (intro exI [of _ ?d]) (simp add: slot_at_def)
qed

lemma booker_slot:
  assumes Q: "queue_ok (cq s j) P B v" and b: "booked v \<noteq> []" and p: "p = word_of_nat (B - claimed v + gone v)"
  shows "gone v < claimed v \<and>
    slot_at s j p = Some (j, ring_idx (lifo_mask (cq s j)) (lifo_head (cq s j) + word_of_nat (gone v)))"
  using b by (simp add: p q_head [OF Q] slot_at_def claimed_def)

definition touches :: "'a lifo_sys \<Rightarrow> (nat \<Rightarrow> 'a lifo_view) \<Rightarrow> booker \<Rightarrow> nat \<times> nat \<Rightarrow> bool" where
  "touches s V a jk \<longleftrightarrow>
     (case jk of (j, k) \<Rightarrow>
        (a = Thief j \<and> (\<exists>d. claimed (V j) \<le> d \<and> d < cap_of (lifo_mask (cq s j)) \<and>
           k = ring_idx (lifo_mask (cq s j)) (lifo_head (cq s j) + word_of_nat d))) \<or>
        (who (V j) = Some a \<and> gone (V j) < claimed (V j) \<and>
           k = ring_idx (lifo_mask (cq s j)) (lifo_head (cq s j) + word_of_nat (gone (V j)))))"

lemma touches_one:
  assumes I: "lifo_inv n s V" and a: "touches s V a jk" "touches s V b jk"
  shows "a = b"
proof -
  obtain j k where jk: "jk = (j, k)" by fastforce
  note Q = inv_queue [OF I, of j]
  let ?m = "lifo_mask (cq s j)" and ?h = "lifo_head (cq s j)"
  have "claimed (V j) \<le> cap_of ?m" using q_span [OF Q] by (simp add: span_def)
  then have apart: False
    if "claimed (V j) \<le> d" "d < cap_of ?m" "gone (V j) < claimed (V j)" "k = ring_idx ?m (?h + word_of_nat d)"
      "k = ring_idx ?m (?h + word_of_nat (gone (V j)))" for d
    using that ring_idx_inj [OF q_mask [OF Q], of d "gone (V j)" ?h] by simp
  show ?thesis using a unfolding touches_def jk by (auto dest: apart)
qed

lemma next_slot_touches:
  assumes I: "lifo_inv n s V" and N: "next_slot s i (pc s i) = Some jk"
  shows "touches s V (Thief i) jk"
proof -
  note Q = inv_queue [OF I, of i]
  have own: "touches s V (Thief i) jk"
    if "slot_at s i p = Some jk" "p = word_of_nat (stolen s i + length (avail (V i)) + k)"
      "k < length (extra (V i)) \<or> k = length (extra (V i)) \<and> 0 < room (lifo_mask (cq s i)) (V i)" for p k
    using owner_slot [OF Q that(2,3)] that(1) by (auto simp: touches_def)
  have book: "touches s V (Thief i) jk"
    if "slot_at s v p = Some jk" "who (V v) = Some (Thief i)" "booked (V v) \<noteq> []"
      "p = word_of_nat (stolen s v - claimed (V v) + gone (V v))" for v p
    using booker_slot [OF inv_queue [OF I] that(3,4)] that(1,2) by (auto simp: touches_def)
  show ?thesis
  proof (cases "pc s i")
    case (LPushWrite c t x)
    then show ?thesis using own [of t 0] inv_own [OF I LPushWrite] N by auto
  next
    case (LExtendWrite p mx t xs)
    then obtain r where r: "t = word_of_nat (stolen s i + length (avail (V i)) + length (extra (V i)))" "mx = t + word_of_nat r"
        "r \<le> room (lifo_mask (cq s i)) (V i)"
      using inv_own [OF I LExtendWrite] by auto
    have "slot_at s i t = Some jk" "t \<noteq> mx" using N LExtendWrite by (auto split: if_splits)
    moreover have "r \<noteq> 0" using \<open>t \<noteq> mx\<close> r(2) by (cases r) auto
    ultimately show ?thesis using own [of t "length (extra (V i))"] r by simp
  next
    case (LPopRead t)
    then have "extra (V i) \<noteq> []" using inv_own [OF I LPopRead] by auto
    then show ?thesis using own [of t 0] inv_own [OF I LPopRead] N LPopRead by auto
  next
    case (LMoveWrite w h nh tc k x)
    have o: "w \<noteq> ToDrain" "purpose_ok (popped s i) (stolen s i + length (avail (V i))) w" "length (extra (V i)) = k" "k < unat tc"
        "unat tc - k \<le> room (lifo_mask (cq s i)) (V i)"
      using inv_own [OF I LMoveWrite] by simp_all
    then have "dest_tail w + word_of_nat k = word_of_nat (stolen s i + length (avail (V i)) + k)" by (cases w) simp_all
    moreover have "0 < room (lifo_mask (cq s i)) (V i)" using o(4,5) by linarith
    ultimately show ?thesis using own [of "dest_tail w + word_of_nat k" k] N LMoveWrite o(3) by simp
  next
    case (LMove w h nh tc k)
    let ?v = "target i w"
    have a: "who (V ?v) = Some (Thief i)" "gone (V ?v) = k" "length (booked (V ?v)) + k = unat tc + (if and_pop w then 1 else 0)"
        "h = word_of_nat (stolen s ?v - claimed (V ?v))" "k \<le> unat tc"
      using inv_aim [OF I LMove] inv_own [OF I LMove] by simp_all
    have p: "slot_at s ?v (h + word_of_nat k) = Some jk" "booked (V ?v) \<noteq> []"
      using N LMove a(3,5) by (auto split: if_splits)
    then show ?thesis using book [OF p(1) a(1) p(2)] a(2,4) by simp
  qed (use N in simp_all)
qed

lemma drain_slot_touches:
  assumes I: "lifo_inv n s V" and N: "drain_slot s j (drainer s j) = Some jk"
  shows "fst jk = j \<and> touches s V Drainer jk"
proof (cases "drainer s j")
  case (DrainAt p e)
  note Q = inv_queue [OF I, of j]
  have d: "who (V j) = Some Drainer" "booked (V j) \<noteq> []" "p = word_of_nat (stolen s j - length (booked (V j)))"
    using inv_drain [OF I, of j] DrainAt by simp_all
  have "stolen s j - length (booked (V j)) = stolen s j - claimed (V j) + gone (V j)"
    using q_claimed [OF Q] by (simp add: claimed_def)
  then have "p = word_of_nat (stolen s j - claimed (V j) + gone (V j))" using d(3) by simp
  from booker_slot [OF Q d(2) this] d(1) N DrainAt show ?thesis by (auto simp: touches_def)
qed (use N in simp_all)

section \<open>Contents\<close>

lemma queue_items:
  assumes Q: "queue_ok q P B v"
  shows "lifo_items q = avail v"
proof -
  have len: "unat (lifo_tail q - lifo_next_head q) = length (avail v)"
    using q_small [OF Q] q_tail [OF Q] by (simp add: q_pch [OF Q] span_def unat_of_nat_small)
  have "B = B - claimed v + claimed v" using q_claimed [OF Q] by simp
  then have h: "lifo_next_head q = lifo_head q + word_of_nat (claimed v)" by (simp add: q_pch [OF Q] q_head [OF Q])
  have S: "ring_shape (lifo_buffer q) (lifo_mask q) (lifo_head q) (shape v)" using Q unfolding queue_ok_def by blast
  have "slot (lifo_buffer q) (lifo_mask q) (lifo_next_head q) i = Some (avail v ! i)" if i: "i < length (avail v)" for i
  proof -
    have "claimed v + i < span v" using i by (simp add: span_def)
    then have "slot (lifo_buffer q) (lifo_mask q) (lifo_head q) (claimed v + i) = shape v ! (claimed v + i)"
      using ring_shape_slot [OF S, of "claimed v + i"] q_span [OF Q] by simp
    moreover have "shape v ! (claimed v + i) = Some (avail v ! i)"
      using i by (simp add: shape_def claimed_def nth_append)
    ultimately show ?thesis by (simp add: h slot_shift)
  qed
  then show ?thesis by (intro nth_equalityI) (simp_all add: lifo_items_def len)
qed

section \<open>A run\<close>

text \<open>
  Two queues of capacity two. Thread 0 pushes two items; thread 1 begins to steal, and has its
  count when thread 0 pops the newer item; its exchange fails, it counts again and moves the
  older item.
\<close>

definition lifo_example_queue :: "nat lifo_queue" where
  "lifo_example_queue = \<lparr>push_count = 0, pop_count_and_head = 0, lifo_head = 0, lifo_buffer = [None, None], lifo_mask = 1\<rparr>"

definition fortune :: luck where
  "fortune = \<lparr>lucky = True, wanted = Some 5\<rparr>"

definition lifo_example_moves :: "nat lifo_move list" where
  "lifo_example_moves = [Begin 0 (CPush 5)] @ replicate 3 (Work 0 fortune) @ [Begin 0 (CPush 6)] @ replicate 3 (Work 0 fortune) @
     [Begin 1 (CSteal 0 False)] @ replicate 4 (Work 1 fortune) @
     [Begin 0 CPop] @ replicate 3 (Work 0 fortune) @ replicate 8 (Work 1 fortune)"

definition lifo_example_end :: "nat lifo_sys" where
  "lifo_example_end = the (lifo_sys_run 2 lifo_example_moves (lifo_sys_new (\<lambda>_. lifo_example_queue)))"

lemma lifo_example_new: "lifo_new 2 = Inr lifo_example_queue"
  by (simp add: lifo_new_def next_power_of_two_2 MAX_CAPACITY_def allocate_buffer_2 lifo_example_queue_def Let_def)

lemma lifo_example_reach: "lifo_sys_reach 2 lifo_example_end"
proof -
  have "\<not> Option.is_none (lifo_sys_run 2 lifo_example_moves (lifo_sys_new (\<lambda>_. lifo_example_queue)))" by code_simp
  then have "lifo_sys_run 2 lifo_example_moves (lifo_sys_new (\<lambda>_. lifo_example_queue)) = Some lifo_example_end"
    by (auto simp: lifo_example_end_def Option.is_none_def)
  then show ?thesis using lifo_sys_run_reach [OF lifo_sys_reach.init] lifo_example_new by metis
qed

text \<open>In the middle of another run, thread 1 moves an item out of the buffer thread 0 writes to.\<close>

definition lifo_busy_moves :: "nat lifo_move list" where
  "lifo_busy_moves = [Begin 0 (CPush 5)] @ replicate 3 (Work 0 fortune) @ [Begin 1 (CSteal 0 False)] @ replicate 5 (Work 1 fortune) @
     [Begin 0 (CPush 6), Work 0 fortune]"

definition lifo_busy_state :: "nat lifo_sys" where
  "lifo_busy_state = the (lifo_sys_run 2 lifo_busy_moves (lifo_sys_new (\<lambda>_. lifo_example_queue)))"

lemma lifo_busy_reach: "lifo_sys_reach 2 lifo_busy_state"
proof -
  have "\<not> Option.is_none (lifo_sys_run 2 lifo_busy_moves (lifo_sys_new (\<lambda>_. lifo_example_queue)))" by code_simp
  then have "lifo_sys_run 2 lifo_busy_moves (lifo_sys_new (\<lambda>_. lifo_example_queue)) = Some lifo_busy_state"
    by (auto simp: lifo_busy_state_def Option.is_none_def)
  then show ?thesis using lifo_sys_run_reach [OF lifo_sys_reach.init] lifo_example_new by metis
qed

lemma lifo_example_outcome: "l_said lifo_example_end = [(0, Pushed), (0, Pushed), (0, Popped (Some 6)), (1, Stole 1)]"
  by code_simp


section \<open>Properties\<close>










end
