(* ===== verification/Fifo.thy ===== *)
theory Fifo
  imports Bulk_Transfer Work_Queue
begin

text \<open>
  The FIFO work-stealing queue, \<^verbatim>\<open>src/src/fifo.rs\<close>, one operation at a time. The word
  \<^verbatim>\<open>heads\<close> packs the head as the worker sees it and the head as a stealer sees it; they
  differ while a steal or a drain is unfinished. A pop in the meantime moves the worker
  head only, so the end of the steal frees the popped slots too. Spurious failures and user
  closures are modelled as in \<open>Lifo\<close>.
\<close>

section \<open>Model\<close>

record 'a fifo_queue =
  heads :: ulong
  tail :: ushort
  fifo_buffer :: "'a buffer"
  fifo_mask :: ushort

subsection \<open>Queue\<close>

definition fifo_read_at :: "'a fifo_queue \<Rightarrow> ushort \<Rightarrow> ('a \<times> 'a fifo_queue) res" where
  "fifo_read_at q position =
     rbind (ring_read (fifo_buffer q) (fifo_mask q) position) (\<lambda>(item, b).
       Inr (item, q\<lparr>fifo_buffer := b\<rparr>))"

definition fifo_write_at :: "'a fifo_queue \<Rightarrow> ushort \<Rightarrow> 'a \<Rightarrow> 'a fifo_queue res" where
  "fifo_write_at q position item =
     rbind (ring_write (fifo_buffer q) (fifo_mask q) position item) (\<lambda>b.
       Inr (q\<lparr>fifo_buffer := b\<rparr>))"

text \<open>The compare-exchange loop of \<^verbatim>\<open>book_items\<close>.\<close>

function fifo_book_loop ::
  "nat \<Rightarrow> nat \<Rightarrow> count_fn \<Rightarrow> ushort \<Rightarrow> ulong \<Rightarrow> 'a fifo_queue \<Rightarrow>
   ((steal_error + ushort \<times> ushort) \<times> 'a fifo_queue) res" where
  "fifo_book_loop fails call count_fn max_count hs q =
     (let (worker_head, stealer_head) = unpack hs in
      if stealer_head \<noteq> worker_head then Inr (Inl Busy, q)
      else
        let item_count = tail q - worker_head in
        if item_count = 0 then Inr (Inl Empty, q)
        else case count_fn call (ucast item_count) of
             None \<Rightarrow> Inl ClosurePanic
           | Some wanted \<Rightarrow>
               let cnt = min (ucast (min wanted (ucast max_count)) :: ushort) item_count in
               if cnt = 0 then Inr (Inl Empty, q)
               else
                 let new_heads = pack (worker_head + cnt) stealer_head in
                 if heads q = hs \<and> fails = 0
                 then Inr (Inr (stealer_head, cnt), q\<lparr>heads := new_heads\<rparr>)
                 else fifo_book_loop (fails - 1) (Suc call) count_fn max_count (heads q) q)"
  by pat_completeness auto
termination
  by (relation "measure (\<lambda>(fails, call, f, m, hs, q). fails + (if heads q = hs then 0 else 1))")
     auto

declare fifo_book_loop.simps [simp del]

definition fifo_book_items ::
  "nat \<Rightarrow> count_fn \<Rightarrow> ushort \<Rightarrow> 'a fifo_queue \<Rightarrow> ((steal_error + ushort \<times> ushort) \<times> 'a fifo_queue) res" where
  "fifo_book_items fails count_fn max_count q = fifo_book_loop fails 0 count_fn max_count (heads q) q"

definition fifo_capacity :: "'a fifo_queue \<Rightarrow> ushort" where
  "fifo_capacity q = fifo_mask q + 1"

text \<open>\<^verbatim>\<open>Drop for Queue\<close>: the items it drops, in order.\<close>

fun fifo_drop_loop :: "'a fifo_queue \<Rightarrow> ushort \<Rightarrow> nat list \<Rightarrow> ('a list \<times> 'a fifo_queue) res" where
  "fifo_drop_loop q worker_head [] = Inr ([], q)"
| "fifo_drop_loop q worker_head (offset # offsets) =
     rbind (fifo_read_at q (worker_head + word_of_nat offset)) (\<lambda>(item, q').
     rbind (fifo_drop_loop q' worker_head offsets) (\<lambda>(items, q''). Inr (item # items, q'')))"

definition fifo_drop :: "'a fifo_queue \<Rightarrow> ('a list \<times> 'a fifo_queue) res" where
  "fifo_drop q =
     (let worker_head = fst (unpack (heads q));
          cnt = tail q - worker_head
      in fifo_drop_loop q worker_head [0..<unat cnt])"

subsection \<open>Worker\<close>

definition fifo_new :: "nat \<Rightarrow> 'a fifo_queue res" where
  "fifo_new min_capacity =
     rbind (assert_that (min_capacity \<le> MAX_CAPACITY)) (\<lambda>_.
       let capacity = next_power_of_two min_capacity in
       rbind (checked_minus (word_of_nat capacity) 1) (\<lambda>mask.
       Inr \<lparr>heads = 0, tail = 0, fifo_buffer = allocate_buffer capacity, fifo_mask = mask\<rparr>))"

definition fifo_worker_capacity :: "'a fifo_queue \<Rightarrow> usize" where
  "fifo_worker_capacity q = ucast (fifo_capacity q)"

definition fifo_spare_capacity :: "'a fifo_queue \<Rightarrow> usize res" where
  "fifo_spare_capacity q =
     (let stealer_head = snd (unpack (heads q));
          len = tail q - stealer_head
      in rbind (checked_minus (fifo_capacity q) len) (\<lambda>spare. Inr (ucast spare)))"

definition fifo_is_empty :: "'a fifo_queue \<Rightarrow> bool" where
  "fifo_is_empty q = (let worker_head = fst (unpack (heads q)) in tail q = worker_head)"

definition fifo_push :: "'a fifo_queue \<Rightarrow> 'a \<Rightarrow> (('a + unit) \<times> 'a fifo_queue) res" where
  "fifo_push q item =
     (let stealer_head = snd (unpack (heads q));
          t = tail q
      in if t - stealer_head > fifo_mask q then Inr (Inl item, q)
         else rbind (fifo_write_at q t item) (\<lambda>q'. Inr (Inr (), q'\<lparr>tail := t + 1\<rparr>)))"

fun fifo_extend_loop :: "'a fifo_queue \<Rightarrow> ushort \<Rightarrow> ushort \<Rightarrow> 'a list \<Rightarrow> (ushort \<times> 'a list \<times> 'a fifo_queue) res" where
  "fifo_extend_loop q max_tail t [] = Inr (t, [], q)"
| "fifo_extend_loop q max_tail t (item # iter) =
     (if t = max_tail then Inr (t, item # iter, q)
      else rbind (fifo_write_at q t item) (\<lambda>q'. fifo_extend_loop q' max_tail (t + 1) iter))"

definition fifo_extend :: "'a fifo_queue \<Rightarrow> 'a list \<Rightarrow> ('a list \<times> 'a fifo_queue) res" where
  "fifo_extend q iter =
     (let stealer_head = snd (unpack (heads q));
          max_tail = stealer_head + fifo_capacity q
      in rbind (fifo_extend_loop q max_tail (tail q) iter) (\<lambda>(t, rest, q').
           Inr (rest, q'\<lparr>tail := t\<rparr>)))"

text \<open>
  The compare-exchange loop of \<^verbatim>\<open>pop\<close>: the previous worker head, or \<open>None\<close> when the queue
  is empty. The stealer head moves along unless a steal is unfinished.
\<close>

function fifo_pop_loop :: "nat \<Rightarrow> ulong \<Rightarrow> 'a fifo_queue \<Rightarrow> (ushort \<times> 'a fifo_queue) option" where
  "fifo_pop_loop fails hs q =
     (let (worker_head, stealer_head) = unpack hs in
      if tail q = worker_head then None
      else
        let next_heads = pack (worker_head + 1) (stealer_head + of_bool (stealer_head = worker_head)) in
        if heads q = hs \<and> fails = 0 then Some (worker_head, q\<lparr>heads := next_heads\<rparr>)
        else fifo_pop_loop (fails - 1) (heads q) q)"
  by pat_completeness auto
termination
  by (relation "measure (\<lambda>(fails, hs, q). fails + (if heads q = hs then 0 else 1))") auto

declare fifo_pop_loop.simps [simp del]

definition fifo_pop :: "nat \<Rightarrow> 'a fifo_queue \<Rightarrow> ('a option \<times> 'a fifo_queue) res" where
  "fifo_pop fails q =
     (case fifo_pop_loop fails (heads q) q of
        None \<Rightarrow> Inr (None, q)
      | Some (prev_worker_head, q') \<Rightarrow>
          rbind (fifo_read_at q' prev_worker_head) (\<lambda>(item, q''). Inr (Some item, q'')))"

subsection \<open>Drain\<close>

text \<open>
  The loop with which a drain and both steals signal that they are complete: the stealer
  head catches up with the worker head.
\<close>

function fifo_complete_loop :: "nat \<Rightarrow> ushort \<Rightarrow> ulong \<Rightarrow> 'a fifo_queue \<Rightarrow> 'a fifo_queue res" where
  "fifo_complete_loop fails from_head hs q =
     (let (worker_head, stealer_head) = unpack hs in
      rbind (assert_that (stealer_head = from_head)) (\<lambda>_.
        if heads q = hs \<and> fails = 0 then Inr (q\<lparr>heads := pack worker_head worker_head\<rparr>)
        else fifo_complete_loop (fails - 1) from_head (heads q) q))"
  by pat_completeness auto
termination
  by (relation "measure (\<lambda>(fails, from, hs, q). fails + (if heads q = hs then 0 else 1))") auto

declare fifo_complete_loop.simps [simp del]

definition fifo_complete :: "nat \<Rightarrow> ushort \<Rightarrow> 'a fifo_queue \<Rightarrow> 'a fifo_queue res" where
  "fifo_complete fails from_head q = fifo_complete_loop fails from_head (heads q) q"

record fifo_drain_iter =
  drain_head :: ushort
  from_head :: ushort
  to_head :: ushort

definition fifo_drain :: "nat \<Rightarrow> count_fn \<Rightarrow> 'a fifo_queue \<Rightarrow> ((steal_error + fifo_drain_iter) \<times> 'a fifo_queue) res" where
  "fifo_drain fails count_fn q =
     rbind (fifo_book_items fails count_fn (- 1) q) (\<lambda>(r, q').
       case r of
         Inl e \<Rightarrow> Inr (Inl e, q')
       | Inr (head, cnt) \<Rightarrow> Inr (Inr \<lparr>drain_head = head, from_head = head, to_head = head + cnt\<rparr>, q'))"

definition fifo_drain_next ::
  "nat \<Rightarrow> fifo_drain_iter \<Rightarrow> 'a fifo_queue \<Rightarrow> ('a option \<times> fifo_drain_iter \<times> 'a fifo_queue) res" where
  "fifo_drain_next fails it q =
     (if drain_head it = to_head it then Inr (None, it, q)
      else rbind (fifo_read_at q (drain_head it)) (\<lambda>(item, q').
        let it' = it\<lparr>drain_head := drain_head it + 1\<rparr>
        in if drain_head it' = to_head it'
           then rbind (fifo_complete fails (from_head it') q') (\<lambda>q''. Inr (Some item, it', q''))
           else Inr (Some item, it', q')))"

definition fifo_drain_size_hint :: "fifo_drain_iter \<Rightarrow> usize \<times> usize option" where
  "fifo_drain_size_hint it = (let sz = ucast (to_head it - drain_head it) in (sz, Some sz))"

text \<open>\<^verbatim>\<open>Drop for Drain\<close>: the iterator runs to its end.\<close>

function fifo_drain_drop :: "nat \<Rightarrow> fifo_drain_iter \<Rightarrow> 'a fifo_queue \<Rightarrow> ('a list \<times> 'a fifo_queue) res" where
  "fifo_drain_drop fails it q =
     rbind (fifo_drain_next fails it q) (\<lambda>(item, it', q').
       case item of
         None \<Rightarrow> Inr ([], q')
       | Some x \<Rightarrow> rbind (fifo_drain_drop fails it' q') (\<lambda>(xs, q''). Inr (x # xs, q'')))"
  by pat_completeness auto
termination
proof (relation "measure (\<lambda>(fails, it, q). unat (to_head it - drain_head it))")
  fix fails :: nat and it q res item it' rest q' x
  assume "fifo_drain_next fails it q = Inr res" "(item, rest) = res" "(it', q') = rest" "item = Some x"
  then have "it' = it\<lparr>drain_head := drain_head it + 1\<rparr>" "drain_head it \<noteq> to_head it"
    by (auto simp: fifo_drain_next_def Let_def rbind_Inr_iff split: if_splits)
  then show "((fails, it', q'), fails, it, q) \<in> measure (\<lambda>(fails, it, q). unat (to_head it - drain_head it))"
    using unat_minus_Suc [of "to_head it" "drain_head it"] by simp
qed simp

declare fifo_drain_drop.simps [simp del]

subsection \<open>Stealer\<close>

type_synonym 'a fifo_store = "nat \<Rightarrow> 'a fifo_queue"

definition fifo_transfer ::
  "'a fifo_store \<Rightarrow> nat \<Rightarrow> ushort \<Rightarrow> nat \<Rightarrow> ushort \<Rightarrow> ushort \<Rightarrow> 'a fifo_store res" where
  "fifo_transfer Q src stealer_head dst dest_tail transfer_count =
     rbind (transfer_items (\<lambda>a. fifo_buffer (Q a)) src (fifo_mask (Q src)) stealer_head
              dst (fifo_mask (Q dst)) dest_tail transfer_count) (\<lambda>M.
       Inr (\<lambda>a. (Q a)\<lparr>fifo_buffer := M a\<rparr>))"

definition fifo_steal ::
  "nat \<Rightarrow> nat \<Rightarrow> count_fn \<Rightarrow> nat \<Rightarrow> nat \<Rightarrow> 'a fifo_store \<Rightarrow> ((steal_error + usize) \<times> 'a fifo_store) res" where
  "fifo_steal fails fails' count_fn self dest Q =
     (let dest_tail = tail (Q dest);
          dest_stealer_head = snd (unpack (heads (Q dest)))
      in rbind (checked_minus (fifo_capacity (Q dest)) (dest_tail - dest_stealer_head)) (\<lambda>dest_free_capacity.
         rbind (assert_that (dest_free_capacity \<le> fifo_capacity (Q dest))) (\<lambda>_.
         rbind (fifo_book_items fails count_fn dest_free_capacity (Q self)) (\<lambda>(r, q).
         case r of
           Inl e \<Rightarrow> Inr (Inl e, Q(self := q))
         | Inr (stealer_head, transfer_count) \<Rightarrow>
             rbind (assert_that (transfer_count \<le> dest_free_capacity)) (\<lambda>_.
             rbind (fifo_transfer (Q(self := q)) self stealer_head dest dest_tail transfer_count) (\<lambda>Q1.
             let Q2 = Q1(dest := (Q1 dest)\<lparr>tail := dest_tail + transfer_count\<rparr>)
             in rbind (fifo_complete fails' stealer_head (Q2 self)) (\<lambda>q'.
                Inr (Inr (ucast transfer_count), Q2(self := q')))))))))"

definition fifo_steal_and_pop ::
  "nat \<Rightarrow> nat \<Rightarrow> count_fn \<Rightarrow> nat \<Rightarrow> nat \<Rightarrow> 'a fifo_store \<Rightarrow> ((steal_error + 'a \<times> usize) \<times> 'a fifo_store) res" where
  "fifo_steal_and_pop fails fails' count_fn self dest Q =
     (let dest_tail = tail (Q dest);
          dest_stealer_head = snd (unpack (heads (Q dest)))
      in rbind (checked_minus (fifo_capacity (Q dest)) (dest_tail - dest_stealer_head)) (\<lambda>dest_free_capacity.
         rbind (assert_that (dest_free_capacity \<le> fifo_capacity (Q dest))) (\<lambda>_.
         rbind (checked_plus dest_free_capacity 1) (\<lambda>max_count.
         rbind (fifo_book_items fails count_fn max_count (Q self)) (\<lambda>(r, q).
         case r of
           Inl e \<Rightarrow> Inr (Inl e, Q(self := q))
         | Inr (stealer_head, cnt) \<Rightarrow>
             rbind (checked_minus cnt 1) (\<lambda>transfer_count.
             rbind (assert_that (transfer_count \<le> dest_free_capacity)) (\<lambda>_.
             rbind (fifo_transfer (Q(self := q)) self stealer_head dest dest_tail transfer_count) (\<lambda>Q1.
             rbind (fifo_read_at (Q1 self) (stealer_head + transfer_count)) (\<lambda>(last_item, q1).
             let Q2 = Q1(self := q1);
                 Q3 = Q2(dest := (Q2 dest)\<lparr>tail := dest_tail + transfer_count\<rparr>)
             in rbind (fifo_complete fails' stealer_head (Q3 self)) (\<lambda>q'.
                Inr (Inr (last_item, ucast transfer_count), Q3(self := q'))))))))))))"

section \<open>What a queue holds\<close>

text \<open>
  \<open>fifo_rep q moved inflight hole items\<close>: from the stealer head on, the queue has the slots
  that an unfinished drain or steal has claimed, \<open>moved\<close> of them moved out already and the
  next ones still holding the items \<open>inflight\<close>, then \<open>hole\<close> slots that the worker has popped
  in the meantime, and then the available \<open>items\<close>, oldest first; every other slot is free.
\<close>

abbreviation fifo_worker_head :: "'a fifo_queue \<Rightarrow> ushort" where
  "fifo_worker_head q \<equiv> fst (unpack (heads q))"

abbreviation fifo_stealer_head :: "'a fifo_queue \<Rightarrow> ushort" where
  "fifo_stealer_head q \<equiv> snd (unpack (heads q))"

abbreviation fifo_cap :: "'a fifo_queue \<Rightarrow> nat" where
  "fifo_cap q \<equiv> cap_of (fifo_mask q)"

definition fifo_items :: "'a fifo_queue \<Rightarrow> 'a list" where
  "fifo_items q = ring_items (fifo_buffer q) (fifo_mask q) (fifo_worker_head q) (unat (tail q - fifo_worker_head q))"

definition claimed :: "nat \<Rightarrow> 'a list \<Rightarrow> nat \<Rightarrow> 'a option list" where
  "claimed moved inflight hole = replicate moved None @ map Some inflight @ replicate hole None"

lemma length_claimed [simp]: "length (claimed a xs b) = a + length xs + b"
  by (simp add: claimed_def)

definition fifo_rep :: "'a fifo_queue \<Rightarrow> nat \<Rightarrow> 'a list \<Rightarrow> nat \<Rightarrow> 'a list \<Rightarrow> bool" where
  "fifo_rep q moved inflight hole items \<longleftrightarrow>
     ring_shape (fifo_buffer q) (fifo_mask q) (fifo_stealer_head q) (claimed moved inflight hole @ map Some items) \<and>
     fifo_worker_head q = fifo_stealer_head q + word_of_nat (moved + length inflight + hole) \<and>
     tail q = fifo_worker_head q + word_of_nat (length items)"

lemma fifo_repD:
  assumes "fifo_rep q a fl h xs"
  shows fifo_rep_shape: "ring_shape (fifo_buffer q) (fifo_mask q) (fifo_stealer_head q) (claimed a fl h @ map Some xs)"
    and fifo_rep_worker: "fifo_worker_head q = fifo_stealer_head q + word_of_nat (a + length fl + h)"
    and fifo_rep_tail: "tail q = fifo_worker_head q + word_of_nat (length xs)"
    and fifo_rep_mask: "is_mask (fifo_mask q)"
    and fifo_rep_fits: "a + length fl + h + length xs \<le> fifo_cap q"
    and fifo_rep_small: "a + length fl + h + length xs \<le> 2147483648"
proof -
  show *: "ring_shape (fifo_buffer q) (fifo_mask q) (fifo_stealer_head q) (claimed a fl h @ map Some xs)"
    and "fifo_worker_head q = fifo_stealer_head q + word_of_nat (a + length fl + h)"
    and "tail q = fifo_worker_head q + word_of_nat (length xs)"
    using assms unfolding fifo_rep_def by blast+
  show m: "is_mask (fifo_mask q)" by (rule ring_shape_mask [OF *])
  show "a + length fl + h + length xs \<le> fifo_cap q" using ring_shape_len [OF *] by simp
  with cap_of_le [OF m] show "a + length fl + h + length xs \<le> 2147483648" by linarith
qed

lemma fifo_rep_len:
  assumes "fifo_rep q a fl h xs"
  shows "tail q - fifo_stealer_head q = word_of_nat (a + length fl + h + length xs)"
    and "unat (tail q - fifo_stealer_head q) = a + length fl + h + length xs"
proof -
  show *: "tail q - fifo_stealer_head q = word_of_nat (a + length fl + h + length xs)"
    using fifo_rep_tail [OF assms] fifo_rep_worker [OF assms] by simp
  show "unat (tail q - fifo_stealer_head q) = a + length fl + h + length xs"
    using fifo_rep_small [OF assms] by (simp only: * unat_of_nat_small)
qed

lemma fifo_rep_tail_pos:
  assumes "fifo_rep q a fl h xs"
  shows "tail q = fifo_stealer_head q + word_of_nat (length (claimed a fl h @ map Some xs))"
  using fifo_rep_tail [OF assms] fifo_rep_worker [OF assms] by simp

lemma fifo_rep_idle: "fifo_rep q 0 [] 0 xs \<Longrightarrow>
    ring_holds (fifo_buffer q) (fifo_mask q) (fifo_stealer_head q) xs \<and> fifo_worker_head q = fifo_stealer_head q"
  using fifo_rep_shape [of q 0 "[]" 0 xs] fifo_rep_worker [of q 0 "[]" 0 xs] by (simp add: ring_holds_shape claimed_def)

lemma fifo_rep_idleI:
  assumes "ring_holds (fifo_buffer q) (fifo_mask q) (fifo_stealer_head q) xs" "fifo_worker_head q = fifo_stealer_head q"
    "tail q = fifo_stealer_head q + word_of_nat (length xs)"
  shows "fifo_rep q 0 [] 0 xs"
  using assms by (simp add: fifo_rep_def ring_holds_shape claimed_def)

lemma ring_shape_items:
  assumes "ring_shape b m p (os @ map Some xs)"
  shows "ring_items b m (p + word_of_nat (length os)) (length xs) = xs"
  using ring_shape_len [OF assms] ring_shape_slot [OF assms]
  by (intro nth_equalityI) (auto simp: slot_shift nth_append)

lemma fifo_rep_items: "fifo_rep q a fl h xs \<Longrightarrow> fifo_items q = xs"
  using ring_shape_items [OF fifo_rep_shape [of q a fl h xs]] fifo_rep_small [of q a fl h xs]
  by (simp add: fifo_items_def fifo_rep_tail fifo_rep_worker unat_of_nat_small)

lemma fifo_capacity_cap: "is_mask (fifo_mask q) \<Longrightarrow> unat (fifo_capacity q) = fifo_cap q"
  by (simp add: fifo_capacity_def unat_capacity)

section \<open>Operations\<close>

subsection \<open>Creation and queries\<close>

lemma fifo_new_ok:
  assumes "n \<le> MAX_CAPACITY"
  shows "\<exists>q. fifo_new n = Inr q \<and> fifo_rep q 0 [] 0 [] \<and> fifo_cap q = next_power_of_two n"
proof -
  obtain m where m: "is_mask m" "cap_of m = next_power_of_two n"
    "checked_minus (word_of_nat (next_power_of_two n)) 1 = Inr m"
    using capacity_mask [OF assms] by blast
  show ?thesis
    using assms m ring_holds_allocate [OF m(1), of 0]
    by (auto simp: fifo_new_def Let_def intro: fifo_rep_idleI)
qed

lemma fifo_free_capacity:
  assumes "fifo_rep q a fl h xs"
  defines "free \<equiv> (word_of_nat (fifo_cap q - (a + length fl + h + length xs)) :: ushort)"
  shows "checked_minus (fifo_capacity q) (tail q - fifo_stealer_head q) = Inr free"
    and "free \<le> fifo_capacity q" and "unat free = fifo_cap q - (a + length fl + h + length xs)"
  unfolding free_def fifo_capacity_def
  using free_capacity [OF fifo_rep_mask [OF assms(1)] fifo_rep_len(2) [OF assms(1)] fifo_rep_fits [OF assms(1)]] by simp_all

lemma fifo_spare_ok:
  assumes "fifo_rep q a fl h xs"
  shows "fifo_spare_capacity q = Inr (word_of_nat (fifo_cap q - (a + length fl + h + length xs)))"
  using fifo_free_capacity [OF assms] ucast_of_nat_unat(1) [of "word_of_nat (fifo_cap q - (a + length fl + h + length xs))"]
  unfolding fifo_spare_capacity_def Let_def by simp

lemma fifo_is_empty_iff: "fifo_rep q a fl h xs \<Longrightarrow> fifo_is_empty q \<longleftrightarrow> xs = []"
  using fifo_rep_tail [of q a fl h xs] fifo_rep_small [of q a fl h xs]
  by (simp add: fifo_is_empty_def of_nat_eq_0_small)

subsection \<open>Push and extend\<close>

lemma fifo_push_full:
  assumes "fifo_rep q a fl h xs" "a + length fl + h + length xs = fifo_cap q"
  shows "fifo_push q x = Inr (Inl x, q)"
proof -
  have "unat (fifo_mask q) < unat (tail q - fifo_stealer_head q)"
    using fifo_rep_len(2) [OF assms(1)] assms(2) by (simp add: cap_of_def)
  then show ?thesis by (simp add: fifo_push_def Let_def word_less_nat_alt)
qed

lemma fifo_push_ok:
  assumes r: "fifo_rep q a fl h xs" and room: "a + length fl + h + length xs < fifo_cap q"
  shows "\<exists>q'. fifo_push q x = Inr (Inr (), q') \<and> fifo_rep q' a fl h (xs @ [x]) \<and>
     heads q' = heads q \<and> fifo_mask q' = fifo_mask q"
proof -
  let ?b = "(fifo_buffer q)[ring_idx (fifo_mask q) (tail q) := Some x]"
  have guard: "\<not> fifo_mask q < tail q - fifo_stealer_head q"
    using fifo_rep_len(2) [OF r] room by (simp add: word_less_nat_alt cap_of_def)
  have "length (claimed a fl h @ map Some xs) < fifo_cap q" using room by simp
  from ring_shape_write [OF fifo_rep_shape [OF r] this, of x, folded fifo_rep_tail_pos [OF r]]
  have w: "ring_write (fifo_buffer q) (fifo_mask q) (tail q) x = Inr ?b"
    and sh: "ring_shape ?b (fifo_mask q) (fifo_stealer_head q) (claimed a fl h @ map Some (xs @ [x]))" by simp_all
  have "fifo_rep (q\<lparr>fifo_buffer := ?b, tail := tail q + 1\<rparr>) a fl h (xs @ [x])"
    using sh fifo_rep_worker [OF r] fifo_rep_tail [OF r] by (simp add: fifo_rep_def algebra_simps)
  with guard w show ?thesis by (simp add: fifo_push_def Let_def fifo_write_at_def)
qed

lemma fifo_extend_loop_ok:
  assumes "ring_shape (fifo_buffer q) (fifo_mask q) p os" "length os + k \<le> fifo_cap q"
    "t = p + word_of_nat (length os)" "max_tail = t + word_of_nat k" "k \<le> 2147483648"
  shows "\<exists>b'. fifo_extend_loop q max_tail t iter
       = Inr (t + word_of_nat (length (take k iter)), drop k iter, q\<lparr>fifo_buffer := b'\<rparr>) \<and>
     ring_shape b' (fifo_mask q) p (os @ map Some (take k iter))"
  using assms
proof (induction iter arbitrary: q t os k)
  case Nil
  then show ?case by (auto intro: exI [of _ "fifo_buffer q"])
next
  case (Cons x iter)
  show ?case
  proof (cases k)
    case 0
    with Cons.prems show ?thesis by (auto intro: exI [of _ "fifo_buffer q"])
  next
    case (Suc k')
    have ne: "t \<noteq> max_tail" using Cons.prems(4,5) of_nat_eq_0_small [of k] Suc by simp
    let ?b = "(fifo_buffer q)[ring_idx (fifo_mask q) t := Some x]"
    have len: "length os < fifo_cap q" using Cons.prems(2) Suc by simp
    have w: "ring_write (fifo_buffer q) (fifo_mask q) t x = Inr ?b"
      and sh: "ring_shape ?b (fifo_mask q) p (os @ [Some x])"
      using ring_shape_write [OF Cons.prems(1) len, of x] Cons.prems(3) by simp_all
    have "\<exists>b'. fifo_extend_loop (q\<lparr>fifo_buffer := ?b\<rparr>) max_tail (t + 1) iter
       = Inr (t + 1 + word_of_nat (length (take k' iter)), drop k' iter, (q\<lparr>fifo_buffer := ?b\<rparr>)\<lparr>fifo_buffer := b'\<rparr>) \<and>
       ring_shape b' (fifo_mask (q\<lparr>fifo_buffer := ?b\<rparr>)) p ((os @ [Some x]) @ map Some (take k' iter))"
      using sh Cons.prems Suc by (intro Cons.IH) (simp_all add: algebra_simps)
    then show ?thesis using ne w Suc by (auto simp: fifo_write_at_def algebra_simps)
  qed
qed

lemma fifo_extend_ok:
  assumes r: "fifo_rep q a fl h xs"
  defines "room \<equiv> fifo_cap q - (a + length fl + h + length xs)"
  shows "\<exists>q'. fifo_extend q iter = Inr (drop room iter, q') \<and> fifo_rep q' a fl h (xs @ take room iter) \<and>
     heads q' = heads q \<and> fifo_mask q' = fifo_mask q"
proof -
  have fits: "a + length fl + h + length xs \<le> fifo_cap q" by (rule fifo_rep_fits [OF r])
  have "unat (fifo_capacity q) = a + length fl + h + length xs + room"
    using fifo_capacity_cap [OF fifo_rep_mask [OF r]] fits by (simp add: room_def)
  then have "fifo_capacity q = word_of_nat (a + length fl + h + length xs + room)" by (metis of_nat_unat ucast_id)
  then have mt: "fifo_stealer_head q + fifo_capacity q = tail q + word_of_nat room"
    using fifo_rep_len(1) [OF r] by (simp add: algebra_simps)
  have small: "room \<le> 2147483648"
    using cap_of_le [OF fifo_rep_mask [OF r]] by (simp add: room_def)
  have fit: "length (claimed a fl h @ map Some xs) + room \<le> fifo_cap q" using fits by (simp add: room_def)
  obtain b' where b': "fifo_extend_loop q (fifo_stealer_head q + fifo_capacity q) (tail q) iter
       = Inr (tail q + word_of_nat (length (take room iter)), drop room iter, q\<lparr>fifo_buffer := b'\<rparr>)"
    and sh: "ring_shape b' (fifo_mask q) (fifo_stealer_head q) ((claimed a fl h @ map Some xs) @ map Some (take room iter))"
    using fifo_extend_loop_ok [OF fifo_rep_shape [OF r] fit fifo_rep_tail_pos [OF r] mt small] by blast
  let ?q = "q\<lparr>fifo_buffer := b', tail := tail q + word_of_nat (length (take room iter))\<rparr>"
  have "fifo_rep ?q a fl h (xs @ take room iter)"
    using sh fifo_rep_worker [OF r] fifo_rep_tail [OF r] by (simp add: fifo_rep_def algebra_simps)
  with b' show ?thesis by (simp add: fifo_extend_def Let_def algebra_simps)
qed

subsection \<open>Pop\<close>

lemma fifo_rep_same_heads:
  assumes "fifo_rep q a fl h xs"
  shows "fifo_stealer_head q = fifo_worker_head q \<longleftrightarrow> a + length fl + h = 0"
proof -
  have "a + length fl + h \<le> 2147483648" using fifo_rep_small [OF assms] by linarith
  from of_nat_eq_0_small [OF this] show ?thesis using fifo_rep_worker [OF assms] by (metis add_cancel_left_right)
qed

lemma fifo_pop_loop_eq:
  "fifo_pop_loop fails (heads q) q =
     (if tail q = fifo_worker_head q then None
      else Some (fifo_worker_head q, q\<lparr>heads := pack (fifo_worker_head q + 1)
        (fifo_stealer_head q + of_bool (fifo_stealer_head q = fifo_worker_head q))\<rparr>))"
  by (induction fails; subst fifo_pop_loop.simps) (simp_all add: split_beta)

lemma fifo_pop_empty: "fifo_rep q a fl h [] \<Longrightarrow> fifo_pop fails q = Inr (None, q)"
  using fifo_rep_tail [of q a fl h "[]"] by (simp add: fifo_pop_def fifo_pop_loop_eq)

lemma claimed_read: "(claimed a fl h @ Some x # os)[a + length fl + h := None] = claimed a fl (Suc h) @ os"
proof -
  have "claimed a fl (Suc h) = claimed a fl h @ [None]" by (simp add: claimed_def flip: replicate_append_same)
  then show ?thesis using list_update_length [of "claimed a fl h" "Some x" os None] by simp
qed

lemma fifo_pop_ok:
  assumes r: "fifo_rep q a fl h (x # xs)"
  shows "\<exists>q'. fifo_pop fails q = Inr (Some x, q') \<and> fifo_mask q' = fifo_mask q \<and>
     (if a + length fl + h = 0 then fifo_rep q' 0 [] 0 xs
      else fifo_rep q' a fl (Suc h) xs \<and> fifo_stealer_head q' = fifo_stealer_head q)"
proof -
  let ?n = "a + length fl + h"
  let ?b = "(fifo_buffer q)[ring_idx (fifo_mask q) (fifo_worker_head q) := None]"
  define hs where "hs = pack (fifo_worker_head q + 1) (fifo_stealer_head q + of_bool (fifo_stealer_head q = fifo_worker_head q))"
  have "length (x # xs) \<le> 2147483648" using fifo_rep_small [OF r] by simp
  then have ne: "tail q \<noteq> fifo_worker_head q"
    using fifo_rep_tail [OF r] of_nat_eq_0_small [of "length (x # xs)"] by simp
  have "ring_shape (fifo_buffer q) (fifo_mask q) (fifo_stealer_head q) (claimed a fl h @ Some x # map Some xs)"
    using fifo_rep_shape [OF r] by simp
  from ring_shape_read [OF this, of ?n x, folded fifo_rep_worker [OF r], unfolded claimed_read]
  have rd: "ring_read (fifo_buffer q) (fifo_mask q) (fifo_worker_head q) = Inr (x, ?b)"
    and sh: "ring_shape ?b (fifo_mask q) (fifo_stealer_head q) (claimed a fl (Suc h) @ map Some xs)"
    by (simp_all add: nth_append)
  have pop: "fifo_pop fails q = Inr (Some x, q\<lparr>heads := hs, fifo_buffer := ?b\<rparr>)"
    using ne rd by (simp add: fifo_pop_def fifo_pop_loop_eq fifo_read_at_def hs_def)
  show ?thesis
  proof (cases "?n = 0")
    case True
    then have "fifo_stealer_head q = fifo_worker_head q" using fifo_rep_same_heads [OF r] by simp
    then have hs: "unpack hs = (fifo_worker_head q + 1, fifo_worker_head q + 1)" by (simp add: hs_def)
    have "ring_shape ?b (fifo_mask q) (fifo_worker_head q + word_of_nat 1) (map Some xs)"
      using ring_shape_skip [of ?b "fifo_mask q" "fifo_worker_head q" 1] sh True
        \<open>fifo_stealer_head q = fifo_worker_head q\<close> by (simp add: claimed_def)
    then have "fifo_rep (q\<lparr>heads := hs, fifo_buffer := ?b\<rparr>) 0 [] 0 xs"
      using fifo_rep_tail [OF r] by (intro fifo_rep_idleI) (simp_all add: hs ring_holds_shape)
    with pop True show ?thesis by simp
  next
    case False
    then have "fifo_stealer_head q \<noteq> fifo_worker_head q" using fifo_rep_same_heads [OF r] by simp
    then have hs: "unpack hs = (fifo_worker_head q + 1, fifo_stealer_head q)" by (simp add: hs_def)
    have "fifo_rep (q\<lparr>heads := hs, fifo_buffer := ?b\<rparr>) a fl (Suc h) xs"
      using sh fifo_rep_tail [OF r] fifo_rep_worker [OF r] by (simp add: fifo_rep_def hs algebra_simps)
    with pop False hs show ?thesis by auto
  qed
qed

subsection \<open>Booking\<close>

lemma fifo_book_busy:
  assumes "fifo_rep q a fl h xs" "0 < a + length fl + h"
  shows "fifo_book_items fails f m q = Inr (Inl Busy, q)"
  using fifo_rep_same_heads [OF assms(1)] assms(2)
  by (simp add: fifo_book_items_def fifo_book_loop.simps [of fails] split_beta)

lemma fifo_book_loop_eq:
  assumes "fifo_stealer_head q = fifo_worker_head q" "n = tail q - fifo_worker_head q" "n \<noteq> 0"
  shows "fifo_book_loop fails call f m (heads q) q =
    rbind (book_choice fails call f m n) (\<lambda>r.
      Inr (case r of Inl e \<Rightarrow> (Inl e, q)
           | Inr c \<Rightarrow> (Inr (fifo_stealer_head q, c),
                       q\<lparr>heads := pack (fifo_stealer_head q + c) (fifo_stealer_head q)\<rparr>)))"
  using assms
  by (induction fails arbitrary: call; subst fifo_book_loop.simps)
     (auto simp: split_beta Let_def steal_count_def split: option.splits)

lemma fifo_book_empty:
  assumes "fifo_rep q 0 [] 0 []"
  shows "fifo_book_items fails f m q = Inr (Inl Empty, q)"
  using fifo_rep_idle [OF assms] fifo_rep_tail [OF assms]
  by (simp add: fifo_book_items_def fifo_book_loop.simps [of fails] split_beta Let_def)

lemma fifo_book_choice:
  assumes r: "fifo_rep q 0 [] 0 xs" and ne: "xs \<noteq> []"
  shows "fifo_book_items fails f m q =
    rbind (book_choice fails 0 f m (word_of_nat (length xs))) (\<lambda>r.
      Inr (case r of Inl e \<Rightarrow> (Inl e, q)
           | Inr c \<Rightarrow> (Inr (fifo_stealer_head q, c),
                       q\<lparr>heads := pack (fifo_stealer_head q + c) (fifo_stealer_head q)\<rparr>)))"
proof -
  have "fifo_stealer_head q = fifo_worker_head q" using fifo_rep_idle [OF r] by simp
  moreover have "word_of_nat (length xs) = tail q - fifo_worker_head q" using fifo_rep_tail [OF r] by simp
  moreover have "(word_of_nat (length xs) :: ushort) \<noteq> 0"
    using ne fifo_rep_small [OF r] of_nat_eq_0_small [of "length xs"] by simp
  ultimately show ?thesis unfolding fifo_book_items_def by (rule fifo_book_loop_eq)
qed

lemma fifo_book_rep:
  assumes r: "fifo_rep q 0 [] 0 xs" and c: "unat c \<le> length xs"
  shows "fifo_rep (q\<lparr>heads := pack (fifo_stealer_head q + c) (fifo_stealer_head q)\<rparr>)
           0 (take (unat c) xs) 0 (drop (unat c) xs)"
proof -
  have "c = word_of_nat (unat c)" by simp
  moreover have "tail q = fifo_stealer_head q + word_of_nat (length xs)"
    using fifo_rep_tail [OF r] fifo_rep_idle [OF r] by simp
  moreover have "(word_of_nat (length xs - unat c) :: ushort) = word_of_nat (length xs) - c"
    using c by (simp add: of_nat_diff)
  moreover have "claimed 0 (take (unat c) xs) 0 @ map Some (drop (unat c) xs) = claimed 0 [] 0 @ map Some xs"
    by (simp add: claimed_def flip: map_append)
  ultimately show ?thesis
    using fifo_rep_shape [OF r] c by (simp add: fifo_rep_def min_def)
qed

subsection \<open>Completion\<close>

lemma fifo_complete_eq:
  "fifo_complete fails p q =
     (if fifo_stealer_head q = p then Inr (q\<lparr>heads := pack (fifo_worker_head q) (fifo_worker_head q)\<rparr>)
      else Inl AssertFailed)"
  unfolding fifo_complete_def
  by (induction fails; subst fifo_complete_loop.simps) (simp_all add: split_beta)

lemma fifo_complete_rep:
  assumes r: "fifo_rep q a [] h xs"
  shows "fifo_rep (q\<lparr>heads := pack (fifo_worker_head q) (fifo_worker_head q)\<rparr>) 0 [] 0 xs"
proof -
  have "claimed a [] h @ map Some xs = replicate (a + h) None @ map Some xs"
    by (simp add: claimed_def replicate_add)
  then have "ring_shape (fifo_buffer q) (fifo_mask q) (fifo_worker_head q) (map Some xs)"
    using ring_shape_skip [of "fifo_buffer q" "fifo_mask q" "fifo_stealer_head q" "a + h" "map Some xs"]
      fifo_rep_shape [OF r] fifo_rep_worker [OF r] by simp
  then show ?thesis using fifo_rep_tail [OF r] by (intro fifo_rep_idleI) (simp_all add: ring_holds_shape)
qed

subsection \<open>Drain\<close>

text \<open>A live drain iterator over the in-flight items of the queue.\<close>

definition fifo_drain_at :: "fifo_drain_iter \<Rightarrow> 'a fifo_queue \<Rightarrow> nat \<Rightarrow> 'a list \<Rightarrow> bool" where
  "fifo_drain_at it q moved fl \<longleftrightarrow>
     from_head it = fifo_stealer_head q \<and> drain_head it = fifo_stealer_head q + word_of_nat moved \<and>
     to_head it = drain_head it + word_of_nat (length fl)"

lemma fifo_drain_ok:
  assumes r: "fifo_rep q 0 [] 0 xs" and ne: "xs \<noteq> []"
    and c: "book_choice fails 0 f (- 1) (word_of_nat (length xs)) = Inr (Inr c)"
  shows "\<exists>it q'. fifo_drain fails f q = Inr (Inr it, q') \<and> 0 < unat c \<and> unat c \<le> length xs \<and>
     fifo_rep q' 0 (take (unat c) xs) 0 (drop (unat c) xs) \<and> fifo_drain_at it q' 0 (take (unat c) xs) \<and>
     fifo_mask q' = fifo_mask q"
proof -
  have b: "0 < unat c" "unat c \<le> length xs"
    using book_choice_bounds [OF c] fifo_rep_small [OF r] by (simp_all add: unat_of_nat_small)
  with fifo_book_rep [OF r] show ?thesis
    by (auto simp: fifo_drain_def fifo_book_choice [OF r ne] c fifo_drain_at_def min_def)
qed

lemma claimed_next: "(claimed a (x # fl) h @ os)[a := None] = claimed (Suc a) fl h @ os"
proof -
  have "claimed a (x # fl) h @ os = replicate a None @ Some x # (map Some fl @ replicate h None @ os)"
    by (simp add: claimed_def)
  moreover have "claimed (Suc a) fl h @ os = replicate a None @ None # (map Some fl @ replicate h None @ os)"
    by (simp add: claimed_def replicate_app_Cons_same)
  ultimately show ?thesis
    using list_update_length [of "replicate a None" "Some x" "map Some fl @ replicate h None @ os" None] by simp
qed

lemma fifo_drain_next_done: "drain_head it = to_head it \<Longrightarrow> fifo_drain_next fails it q = Inr (None, it, q)"
  by (simp add: fifo_drain_next_def)

lemma fifo_drain_next_ok:
  assumes r: "fifo_rep q a (x # fl) h xs" and d: "fifo_drain_at it q a (x # fl)"
  shows "\<exists>it' q'. fifo_drain_next fails it q = Inr (Some x, it', q') \<and> fifo_mask q' = fifo_mask q \<and>
     (if fl = [] then fifo_rep q' 0 [] 0 xs \<and> drain_head it' = to_head it'
      else fifo_rep q' (Suc a) fl h xs \<and> fifo_drain_at it' q' (Suc a) fl)"
proof -
  let ?b = "(fifo_buffer q)[ring_idx (fifo_mask q) (drain_head it) := None]"
  let ?it = "it\<lparr>drain_head := drain_head it + 1\<rparr>" and ?q = "q\<lparr>fifo_buffer := ?b\<rparr>"
  have it: "from_head it = fifo_stealer_head q" "drain_head it = fifo_stealer_head q + word_of_nat a"
    "to_head it = drain_head it + word_of_nat (length (x # fl))"
    using d by (simp_all add: fifo_drain_at_def)
  have small: "length (x # fl) \<le> 2147483648" using fifo_rep_small [OF r] by simp
  have ne: "drain_head it \<noteq> to_head it" using of_nat_eq_0_small [OF small] it(3) by simp
  have last: "drain_head it + 1 = to_head it \<longleftrightarrow> fl = []"
    using of_nat_eq_0_small [of "length fl"] small it(3) by simp
  have "(claimed a (x # fl) h @ map Some xs) ! a = Some x" by (simp add: claimed_def nth_append)
  from ring_shape_read [OF fifo_rep_shape [OF r] _ this, folded it(2), unfolded claimed_next]
  have rd: "ring_read (fifo_buffer q) (fifo_mask q) (drain_head it) = Inr (x, ?b)"
    and sh: "ring_shape ?b (fifo_mask q) (fifo_stealer_head q) (claimed (Suc a) fl h @ map Some xs)" by simp_all
  have rep: "fifo_rep ?q (Suc a) fl h xs"
    using sh fifo_rep_worker [OF r] fifo_rep_tail [OF r] by (simp add: fifo_rep_def)
  show ?thesis
  proof (cases "fl = []")
    case True
    have "fifo_complete fails (from_head it) ?q = Inr (?q\<lparr>heads := pack (fifo_worker_head ?q) (fifo_worker_head ?q)\<rparr>)"
      by (simp add: fifo_complete_eq it(1))
    then have "fifo_drain_next fails it q = Inr (Some x, ?it, ?q\<lparr>heads := pack (fifo_worker_head ?q) (fifo_worker_head ?q)\<rparr>)"
      using ne rd last True by (simp add: fifo_drain_next_def fifo_read_at_def Let_def)
    then show ?thesis using True last fifo_complete_rep [OF rep [unfolded True]] by simp
  next
    case False
    have "fifo_drain_next fails it q = Inr (Some x, ?it, ?q)"
      using ne rd last False by (simp add: fifo_drain_next_def fifo_read_at_def Let_def)
    moreover have "fifo_drain_at ?it ?q (Suc a) fl" by (simp add: fifo_drain_at_def it)
    ultimately show ?thesis using False rep by simp
  qed
qed

lemma fifo_drain_drop_ok:
  assumes "fifo_rep q a fl h xs" "fifo_drain_at it q a fl" "fl \<noteq> []"
  shows "\<exists>q'. fifo_drain_drop fails it q = Inr (fl, q') \<and> fifo_rep q' 0 [] 0 xs"
  using assms
proof (induction fl arbitrary: q it a)
  case (Cons x fl)
  obtain it' q' where n: "fifo_drain_next fails it q = Inr (Some x, it', q')"
    and r: "if fl = [] then fifo_rep q' 0 [] 0 xs \<and> drain_head it' = to_head it'
      else fifo_rep q' (Suc a) fl h xs \<and> fifo_drain_at it' q' (Suc a) fl"
    using fifo_drain_next_ok [OF Cons.prems(1,2)] by blast
  show ?case
  proof (cases "fl = []")
    case True
    with n r show ?thesis
      by (simp add: fifo_drain_drop.simps [of fails it] fifo_drain_drop.simps [of fails it'] fifo_drain_next_done)
  next
    case False
    with Cons.IH [of q' "Suc a" it'] r obtain q'' where "fifo_drain_drop fails it' q' = Inr (fl, q'')" "fifo_rep q'' 0 [] 0 xs"
      by auto
    with n show ?thesis by (simp add: fifo_drain_drop.simps [of fails it])
  qed
qed simp

subsection \<open>Dropping the queue\<close>

lemma ring_shape_read_list:
  assumes "ring_shape b m p (os @ Some x # ys)"
  shows "ring_read b m (p + word_of_nat (length os)) = Inr (x, b[ring_idx m (p + word_of_nat (length os)) := None])"
    and "ring_shape (b[ring_idx m (p + word_of_nat (length os)) := None]) m p ((os @ [None]) @ ys)"
  using ring_shape_read [OF assms, of "length os" x] by (simp_all add: list_update_append)

lemma fifo_drop_loop_ok:
  assumes "ring_shape (fifo_buffer q) (fifo_mask q) p (os @ map Some zs)" "length os = n + k"
    "head = p + word_of_nat n"
  shows "\<exists>b'. fifo_drop_loop q head [k..<k + length zs] = Inr (zs, q\<lparr>fifo_buffer := b'\<rparr>)"
  using assms
proof (induction zs arbitrary: q k os)
  case Nil
  then show ?case by (auto intro: exI [of _ "fifo_buffer q"])
next
  case (Cons x zs)
  let ?i = "ring_idx (fifo_mask q) (head + word_of_nat k)"
  have pos: "p + word_of_nat (length os) = head + word_of_nat k" using Cons.prems(2,3) by simp
  have "ring_shape (fifo_buffer q) (fifo_mask q) p (os @ Some x # map Some zs)" using Cons.prems(1) by simp
  from ring_shape_read_list [OF this, unfolded pos]
  have rd: "ring_read (fifo_buffer q) (fifo_mask q) (head + word_of_nat k) = Inr (x, (fifo_buffer q)[?i := None])"
    and sh: "ring_shape ((fifo_buffer q)[?i := None]) (fifo_mask q) p ((os @ [None]) @ map Some zs)" by simp_all
  have "\<exists>b'. fifo_drop_loop (q\<lparr>fifo_buffer := (fifo_buffer q)[?i := None]\<rparr>) head [Suc k..<Suc k + length zs]
       = Inr (zs, (q\<lparr>fifo_buffer := (fifo_buffer q)[?i := None]\<rparr>)\<lparr>fifo_buffer := b'\<rparr>)"
    using Cons.IH [of "q\<lparr>fifo_buffer := (fifo_buffer q)[?i := None]\<rparr>" "os @ [None]" "Suc k"] sh Cons.prems(2,3) by simp
  moreover have "[k..<k + length (x # zs)] = k # [Suc k..<Suc k + length zs]"
    using upt_conv_Cons [of k "k + length (x # zs)"] by (simp del: upt_Suc)
  ultimately show ?case using rd by (auto simp: fifo_read_at_def simp del: upt_Suc)
qed

text \<open>
  The destructor starts at the worker head, so the items of a leaked \<^verbatim>\<open>Drain\<close> are leaked
  with it and no slot is read twice.
\<close>

lemma fifo_drop_ok:
  assumes r: "fifo_rep q a fl h xs"
  shows "\<exists>q'. fifo_drop q = Inr (xs, q')"
proof -
  have "unat (tail q - fifo_worker_head q) = length xs"
    using fifo_rep_tail [OF r] fifo_rep_small [OF r] by (simp add: unat_of_nat_small)
  then show ?thesis
    using fifo_drop_loop_ok [OF fifo_rep_shape [OF r], of "a + length fl + h" 0] fifo_rep_worker [OF r]
    by (auto simp: fifo_drop_def Let_def)
qed

subsection \<open>Steal\<close>

lemma fifo_transfer_booked:
  "fifo_transfer (Q(self := (Q self)\<lparr>heads := v\<rparr>)) self p dest t k =
     rbind (transfer_items (\<lambda>a. fifo_buffer (Q a)) self (fifo_mask (Q self)) p dest (fifo_mask (Q dest)) t k) (\<lambda>M.
       Inr (\<lambda>a. ((Q(self := (Q self)\<lparr>heads := v\<rparr>)) a)\<lparr>fifo_buffer := M a\<rparr>))"
proof -
  have "(\<lambda>a. fifo_buffer ((Q(self := (Q self)\<lparr>heads := v\<rparr>)) a)) = (\<lambda>a. fifo_buffer (Q a))" by auto
  then show ?thesis unfolding fifo_transfer_def by simp
qed

lemma fifo_transfer_apart:
  assumes ne: "self \<noteq> dest" and s: "fifo_rep (Q self) 0 [] 0 xs" and d: "fifo_rep (Q dest) a fl h ys"
    and k: "unat k \<le> length xs" "unat k \<le> fifo_cap (Q dest) - (a + length fl + h + length ys)"
  shows "\<exists>M. fifo_transfer (Q(self := (Q self)\<lparr>heads := v\<rparr>)) self (fifo_stealer_head (Q self)) dest (tail (Q dest)) k
       = Inr (\<lambda>a. ((Q(self := (Q self)\<lparr>heads := v\<rparr>)) a)\<lparr>fifo_buffer := M a\<rparr>) \<and>
     ring_holds (M self) (fifo_mask (Q self)) (fifo_stealer_head (Q self) + k) (drop (unat k) xs) \<and>
     ring_shape (M dest) (fifo_mask (Q dest)) (fifo_stealer_head (Q dest)) (claimed a fl h @ map Some (ys @ take (unat k) xs)) \<and>
     (\<forall>a. a \<noteq> self \<longrightarrow> a \<noteq> dest \<longrightarrow> M a = fifo_buffer (Q a))"
proof -
  define M0 where "M0 = (\<lambda>a. fifo_buffer (Q a))"
  have "ring_holds (M0 self) (fifo_mask (Q self)) (fifo_stealer_head (Q self)) (take (unat k) xs @ drop (unat k) xs)"
    using fifo_rep_idle [OF s] by (simp add: M0_def)
  moreover have "ring_shape (M0 dest) (fifo_mask (Q dest)) (fifo_stealer_head (Q dest)) (claimed a fl h @ map Some ys)"
    using fifo_rep_shape [OF d] by (simp add: M0_def)
  moreover have "length (claimed a fl h @ map Some ys) + length (take (unat k) xs) \<le> fifo_cap (Q dest)" "unat k = length (take (unat k) xs)"
    using k fifo_rep_fits [OF d] by simp_all
  ultimately obtain M where
    "transfer_items M0 self (fifo_mask (Q self)) (fifo_stealer_head (Q self)) dest (fifo_mask (Q dest)) (tail (Q dest)) k = Inr M"
    and *: "ring_holds (M self) (fifo_mask (Q self)) (fifo_stealer_head (Q self) + k) (drop (unat k) xs)"
      "ring_shape (M dest) (fifo_mask (Q dest)) (fifo_stealer_head (Q dest)) ((claimed a fl h @ map Some ys) @ map Some (take (unat k) xs))"
      "\<forall>a. a \<noteq> self \<longrightarrow> a \<noteq> dest \<longrightarrow> M a = M0 a"
    unfolding fifo_rep_tail_pos [OF d] using transfer_shape_apart [OF ne] by blast
  then have "fifo_transfer (Q(self := (Q self)\<lparr>heads := v\<rparr>)) self (fifo_stealer_head (Q self)) dest (tail (Q dest)) k
       = Inr (\<lambda>a. ((Q(self := (Q self)\<lparr>heads := v\<rparr>)) a)\<lparr>fifo_buffer := M a\<rparr>)"
    unfolding fifo_transfer_booked M0_def [symmetric] by simp
  with * show ?thesis unfolding M0_def by (intro exI [of _ M]) simp
qed

lemma fifo_transfer_self:
  assumes s: "fifo_rep (Q self) 0 [] 0 xs" and k: "unat k \<le> length xs" "unat k \<le> fifo_cap (Q self) - length xs"
  shows "\<exists>M. fifo_transfer (Q(self := (Q self)\<lparr>heads := v\<rparr>)) self (fifo_stealer_head (Q self)) self (tail (Q self)) k
       = Inr (\<lambda>a. ((Q(self := (Q self)\<lparr>heads := v\<rparr>)) a)\<lparr>fifo_buffer := M a\<rparr>) \<and>
     ring_holds (M self) (fifo_mask (Q self)) (fifo_stealer_head (Q self) + k) (drop (unat k) xs @ take (unat k) xs) \<and>
     (\<forall>a. a \<noteq> self \<longrightarrow> M a = fifo_buffer (Q a))"
proof -
  define M0 where "M0 = (\<lambda>a. fifo_buffer (Q a))"
  have "ring_holds (M0 self) (fifo_mask (Q self)) (fifo_stealer_head (Q self)) (take (unat k) xs @ drop (unat k) xs)"
    using fifo_rep_idle [OF s] by (simp add: M0_def)
  moreover have "length (take (unat k) xs @ drop (unat k) xs) + length (take (unat k) xs) \<le> fifo_cap (Q self)"
    "unat k = length (take (unat k) xs)"
    using k fifo_rep_fits [OF s] by simp_all
  moreover have "tail (Q self) = fifo_stealer_head (Q self) + word_of_nat (length (take (unat k) xs @ drop (unat k) xs))"
    using fifo_rep_tail [OF s] fifo_rep_idle [OF s] by simp
  ultimately obtain M where
    "transfer_items M0 self (fifo_mask (Q self)) (fifo_stealer_head (Q self)) self (fifo_mask (Q self)) (tail (Q self)) k = Inr M"
    and "ring_holds (M self) (fifo_mask (Q self)) (fifo_stealer_head (Q self) + k) (drop (unat k) xs @ take (unat k) xs)"
      "\<forall>a. a \<noteq> self \<longrightarrow> M a = M0 a"
    using transfer_holds_self by metis
  then show ?thesis unfolding fifo_transfer_booked M0_def [symmetric] by (auto simp: M0_def)
qed

text \<open>The queues after a steal.\<close>

lemma fifo_rep_stolen:
  assumes s: "fifo_rep q 0 [] 0 xs" and c: "unat c \<le> length xs" and k: "unat k = length zs"
    and h: "ring_holds b (fifo_mask q) (fifo_stealer_head q + c) (drop (unat c) xs @ zs)"
  shows "fifo_rep (q\<lparr>heads := pack (fifo_stealer_head q + c) (fifo_stealer_head q + c), fifo_buffer := b, tail := tail q + k\<rparr>)
    0 [] 0 (drop (unat c) xs @ zs)"
proof -
  have "(word_of_nat (length xs) :: ushort) = c + word_of_nat (length xs - unat c)"
    using c by (simp add: of_nat_diff)
  moreover have "k = word_of_nat (length zs)" by (simp flip: k)
  ultimately show ?thesis
    using h fifo_rep_tail [OF s] fifo_rep_idle [OF s] by (intro fifo_rep_idleI) (simp_all add: add.assoc)
qed

lemma fifo_rep_received:
  assumes d: "fifo_rep q a fl h ys" and k: "unat k = length zs"
    and sh: "ring_shape buf (fifo_mask q) (fifo_stealer_head q) (claimed a fl h @ map Some (ys @ zs))"
  shows "fifo_rep (q\<lparr>fifo_buffer := buf, tail := tail q + k\<rparr>) a fl h (ys @ zs)"
proof -
  have "k = word_of_nat (length zs)" by (simp flip: k)
  then show ?thesis using sh fifo_rep_worker [OF d] fifo_rep_tail [OF d] by (simp add: fifo_rep_def)
qed

lemma fifo_steal_apart:
  assumes ne: "self \<noteq> dest" and s: "fifo_rep (Q self) 0 [] 0 xs" and d: "fifo_rep (Q dest) a fl h ys"
    and xs: "xs \<noteq> []"
    and c: "book_choice fails 0 f (word_of_nat (fifo_cap (Q dest) - (a + length fl + h + length ys))) (word_of_nat (length xs)) = Inr (Inr c)"
  shows "\<exists>Q'. fifo_steal fails fails' f self dest Q = Inr (Inr (ucast c), Q') \<and>
     fifo_rep (Q' self) 0 [] 0 (drop (unat c) xs) \<and> fifo_rep (Q' dest) a fl h (ys @ take (unat c) xs) \<and>
     (\<forall>i. i \<noteq> self \<longrightarrow> i \<noteq> dest \<longrightarrow> Q' i = Q i) \<and>
     fifo_mask (Q' self) = fifo_mask (Q self) \<and> fifo_mask (Q' dest) = fifo_mask (Q dest) \<and> heads (Q' dest) = heads (Q dest)"
proof -
  define free :: ushort where "free = word_of_nat (fifo_cap (Q dest) - (a + length fl + h + length ys))"
  note free = fifo_free_capacity [OF d, folded free_def]
  have cb: "unat c \<le> length xs" "unat c \<le> fifo_cap (Q dest) - (a + length fl + h + length ys)" "c \<le> free"
    using book_choice_bounds [OF c, folded free_def] fifo_rep_small [OF s] free(3)
    by (simp_all add: unat_of_nat_small word_le_nat_alt)
  define p where "p = fifo_stealer_head (Q self)"
  define v where "v = pack (p + c) p"
  obtain M where M: "fifo_transfer (Q(self := (Q self)\<lparr>heads := v\<rparr>)) self p dest (tail (Q dest)) c
        = Inr (\<lambda>i. ((Q(self := (Q self)\<lparr>heads := v\<rparr>)) i)\<lparr>fifo_buffer := M i\<rparr>)"
    and hs: "ring_holds (M self) (fifo_mask (Q self)) (p + c) (drop (unat c) xs)"
    and hd: "ring_shape (M dest) (fifo_mask (Q dest)) (fifo_stealer_head (Q dest)) (claimed a fl h @ map Some (ys @ take (unat c) xs))"
    and fr: "\<forall>i. i \<noteq> self \<longrightarrow> i \<noteq> dest \<longrightarrow> M i = fifo_buffer (Q i)"
    using fifo_transfer_apart [of self dest Q, OF ne s d cb(1,2)] unfolding p_def by blast
  define Q' where "Q' = (\<lambda>i. if i = self then (Q self)\<lparr>heads := pack (p + c) (p + c), fifo_buffer := M i\<rparr>
      else if i = dest then (Q i)\<lparr>fifo_buffer := M i, tail := tail (Q dest) + c\<rparr> else Q i)"
  have book: "fifo_book_items fails f free (Q self) = Inr (Inr (p, c), (Q self)\<lparr>heads := v\<rparr>)"
    using c by (simp add: fifo_book_choice [OF s xs] v_def free_def p_def)
  have "fifo_steal fails fails' f self dest Q = Inr (Inr (ucast c), Q')"
    using free(1,2) M cb(3) ne fr book
    by (simp add: fifo_steal_def fifo_complete_eq Let_def Q'_def v_def fun_eq_iff)
  moreover have "fifo_rep (Q' self) 0 [] 0 (drop (unat c) xs)"
    using fifo_rep_stolen [OF s cb(1), of 0 "[]"] hs by (simp add: Q'_def p_def)
  moreover have "fifo_rep (Q' dest) a fl h (ys @ take (unat c) xs)"
    using fifo_rep_received [OF d _ hd, of c] cb ne by (simp add: Q'_def)
  ultimately show ?thesis using ne by (intro exI [of _ Q']) (simp add: Q'_def)
qed

lemma fifo_steal_self:
  assumes s: "fifo_rep (Q self) 0 [] 0 xs" and xs: "xs \<noteq> []"
    and c: "book_choice fails 0 f (word_of_nat (fifo_cap (Q self) - length xs)) (word_of_nat (length xs)) = Inr (Inr c)"
  shows "\<exists>Q'. fifo_steal fails fails' f self self Q = Inr (Inr (ucast c), Q') \<and>
     fifo_rep (Q' self) 0 [] 0 (drop (unat c) xs @ take (unat c) xs) \<and> (\<forall>i. i \<noteq> self \<longrightarrow> Q' i = Q i) \<and>
     fifo_mask (Q' self) = fifo_mask (Q self)"
proof -
  define free :: ushort where "free = word_of_nat (fifo_cap (Q self) - length xs)"
  note free = fifo_free_capacity [OF s, simplified add_0 list.size, folded free_def]
  have cb: "unat c \<le> length xs" "unat c \<le> fifo_cap (Q self) - length xs" "c \<le> free"
    using book_choice_bounds [OF c, folded free_def] fifo_rep_small [OF s] free(3)
    by (simp_all add: unat_of_nat_small word_le_nat_alt)
  define p where "p = fifo_stealer_head (Q self)"
  define v where "v = pack (p + c) p"
  obtain M where M: "fifo_transfer (Q(self := (Q self)\<lparr>heads := v\<rparr>)) self p self (tail (Q self)) c
        = Inr (\<lambda>i. ((Q(self := (Q self)\<lparr>heads := v\<rparr>)) i)\<lparr>fifo_buffer := M i\<rparr>)"
    and hs: "ring_holds (M self) (fifo_mask (Q self)) (p + c) (drop (unat c) xs @ take (unat c) xs)"
    and fr: "\<forall>i. i \<noteq> self \<longrightarrow> M i = fifo_buffer (Q i)"
    using fifo_transfer_self [of Q self, OF s cb(1,2)] unfolding p_def by blast
  define Q' where "Q' = Q(self := (Q self)\<lparr>heads := pack (p + c) (p + c), fifo_buffer := M self, tail := tail (Q self) + c\<rparr>)"
  have book: "fifo_book_items fails f free (Q self) = Inr (Inr (p, c), (Q self)\<lparr>heads := v\<rparr>)"
    using c by (simp add: fifo_book_choice [OF s xs] v_def free_def p_def)
  have "fifo_steal fails fails' f self self Q = Inr (Inr (ucast c), Q')"
    using free(1,2) M cb(3) fr book
    by (simp add: fifo_steal_def fifo_complete_eq Let_def Q'_def v_def fun_eq_iff)
  moreover have "fifo_rep (Q' self) 0 [] 0 (drop (unat c) xs @ take (unat c) xs)"
    using fifo_rep_stolen [OF s cb(1) _ hs [unfolded p_def], of c] cb by (simp add: Q'_def p_def)
  ultimately show ?thesis by (intro exI [of _ Q']) (simp add: Q'_def)
qed

subsection \<open>Steal and pop\<close>

lemma fifo_steal_and_pop_apart:
  assumes ne: "self \<noteq> dest" and s: "fifo_rep (Q self) 0 [] 0 xs" and d: "fifo_rep (Q dest) a fl h ys"
    and xs: "xs \<noteq> []"
    and c: "book_choice fails 0 f (word_of_nat (fifo_cap (Q dest) - (a + length fl + h + length ys)) + 1) (word_of_nat (length xs)) = Inr (Inr c)"
  shows "\<exists>Q'. fifo_steal_and_pop fails fails' f self dest Q = Inr (Inr (xs ! (unat c - 1), ucast (c - 1)), Q') \<and>
     fifo_rep (Q' self) 0 [] 0 (drop (unat c) xs) \<and> fifo_rep (Q' dest) a fl h (ys @ take (unat c - 1) xs) \<and>
     (\<forall>i. i \<noteq> self \<longrightarrow> i \<noteq> dest \<longrightarrow> Q' i = Q i) \<and>
     fifo_mask (Q' self) = fifo_mask (Q self) \<and> fifo_mask (Q' dest) = fifo_mask (Q dest) \<and> heads (Q' dest) = heads (Q dest)"
proof -
  define free :: ushort where "free = word_of_nat (fifo_cap (Q dest) - (a + length fl + h + length ys))"
  define k where "k = c - 1"
  note free = fifo_free_capacity [OF d, folded free_def]
  have small: "length xs \<le> 2147483648" "fifo_cap (Q dest) - (a + length fl + h + length ys) \<le> 2147483648"
    using fifo_rep_small [OF s] cap_of_le [OF fifo_rep_mask [OF d]] by simp_all
  note cb = steal_and_pop_counts [OF small(2,1) c, folded free_def k_def]
  define p where "p = fifo_stealer_head (Q self)"
  define v where "v = pack (p + c) p"
  have k: "unat k \<le> length xs" using cb(3,4) by simp
  obtain M where M: "fifo_transfer (Q(self := (Q self)\<lparr>heads := v\<rparr>)) self p dest (tail (Q dest)) k
        = Inr (\<lambda>i. ((Q(self := (Q self)\<lparr>heads := v\<rparr>)) i)\<lparr>fifo_buffer := M i\<rparr>)"
    and hs: "ring_holds (M self) (fifo_mask (Q self)) (p + k) (drop (unat k) xs)"
    and hd: "ring_shape (M dest) (fifo_mask (Q dest)) (fifo_stealer_head (Q dest)) (claimed a fl h @ map Some (ys @ take (unat k) xs))"
    and fr: "\<forall>i. i \<noteq> self \<longrightarrow> i \<noteq> dest \<longrightarrow> M i = fifo_buffer (Q i)"
    using fifo_transfer_apart [of self dest Q, OF ne s d k cb(5)] unfolding p_def by blast
  define buf where "buf = (M self)[ring_idx (fifo_mask (Q self)) (p + k) := None]"
  have "drop (unat k) xs = xs ! unat k # drop (unat c) xs" using cb(3,4) by (simp add: Cons_nth_drop_Suc)
  from ring_holds_read_first [OF hs [unfolded this]]
  have rd: "ring_read (M self) (fifo_mask (Q self)) (p + k) = Inr (xs ! unat k, buf)"
    and hs': "ring_holds buf (fifo_mask (Q self)) (p + c) (drop (unat c) xs)"
    by (simp_all add: buf_def k_def algebra_simps)
  define Q' where "Q' = (\<lambda>i. if i = self then (Q self)\<lparr>heads := pack (p + c) (p + c), fifo_buffer := buf\<rparr>
      else if i = dest then (Q i)\<lparr>fifo_buffer := M i, tail := tail (Q dest) + k\<rparr> else Q i)"
  have book: "fifo_book_items fails f (free + 1) (Q self) = Inr (Inr (p, c), (Q self)\<lparr>heads := v\<rparr>)"
    using c by (simp add: fifo_book_choice [OF s xs] v_def free_def p_def)
  have "fifo_steal_and_pop fails fails' f self dest Q = Inr (Inr (xs ! unat k, ucast k), Q')"
    using free(1,2) M cb(1,2,6) ne fr book rd
    by (simp add: fifo_steal_and_pop_def fifo_read_at_def fifo_complete_eq Let_def Q'_def v_def fun_eq_iff)
  moreover have "fifo_rep (Q' self) 0 [] 0 (drop (unat c) xs)"
    using fifo_rep_stolen [OF s cb(3), of 0 "[]"] hs' by (simp add: Q'_def p_def)
  moreover have "fifo_rep (Q' dest) a fl h (ys @ take (unat k) xs)"
    using fifo_rep_received [OF d _ hd, of k] k ne by (simp add: Q'_def)
  ultimately show ?thesis using ne cb(4) by (intro exI [of _ Q']) (simp add: Q'_def k_def)
qed

lemma fifo_steal_and_pop_self:
  assumes s: "fifo_rep (Q self) 0 [] 0 xs" and xs: "xs \<noteq> []"
    and c: "book_choice fails 0 f (word_of_nat (fifo_cap (Q self) - length xs) + 1) (word_of_nat (length xs)) = Inr (Inr c)"
  shows "\<exists>Q'. fifo_steal_and_pop fails fails' f self self Q = Inr (Inr (xs ! (unat c - 1), ucast (c - 1)), Q') \<and>
     fifo_rep (Q' self) 0 [] 0 (drop (unat c) xs @ take (unat c - 1) xs) \<and> (\<forall>i. i \<noteq> self \<longrightarrow> Q' i = Q i) \<and>
     fifo_mask (Q' self) = fifo_mask (Q self)"
proof -
  define free :: ushort where "free = word_of_nat (fifo_cap (Q self) - length xs)"
  define k where "k = c - 1"
  note free = fifo_free_capacity [OF s, simplified add_0 list.size, folded free_def]
  have small: "length xs \<le> 2147483648" "fifo_cap (Q self) - length xs \<le> 2147483648"
    using fifo_rep_small [OF s] cap_of_le [OF fifo_rep_mask [OF s]] by simp_all
  note cb = steal_and_pop_counts [OF small(2,1) c, folded free_def k_def]
  define p where "p = fifo_stealer_head (Q self)"
  define v where "v = pack (p + c) p"
  have k: "unat k \<le> length xs" using cb(3,4) by simp
  obtain M where M: "fifo_transfer (Q(self := (Q self)\<lparr>heads := v\<rparr>)) self p self (tail (Q self)) k
        = Inr (\<lambda>i. ((Q(self := (Q self)\<lparr>heads := v\<rparr>)) i)\<lparr>fifo_buffer := M i\<rparr>)"
    and hs: "ring_holds (M self) (fifo_mask (Q self)) (p + k) (drop (unat k) xs @ take (unat k) xs)"
    and fr: "\<forall>i. i \<noteq> self \<longrightarrow> M i = fifo_buffer (Q i)"
    using fifo_transfer_self [of Q self, OF s k cb(5)] unfolding p_def by blast
  define buf where "buf = (M self)[ring_idx (fifo_mask (Q self)) (p + k) := None]"
  have "drop (unat k) xs @ take (unat k) xs = xs ! unat k # (drop (unat c) xs @ take (unat k) xs)"
    using cb(3,4) Cons_nth_drop_Suc [of "unat k" xs] by simp
  from ring_holds_read_first [OF hs [unfolded this]]
  have rd: "ring_read (M self) (fifo_mask (Q self)) (p + k) = Inr (xs ! unat k, buf)"
    and hs': "ring_holds buf (fifo_mask (Q self)) (p + c) (drop (unat c) xs @ take (unat k) xs)"
    by (simp_all add: buf_def k_def algebra_simps)
  define Q' where "Q' = Q(self := (Q self)\<lparr>heads := pack (p + c) (p + c), fifo_buffer := buf, tail := tail (Q self) + k\<rparr>)"
  have book: "fifo_book_items fails f (free + 1) (Q self) = Inr (Inr (p, c), (Q self)\<lparr>heads := v\<rparr>)"
    using c by (simp add: fifo_book_choice [OF s xs] v_def free_def p_def)
  have "fifo_steal_and_pop fails fails' f self self Q = Inr (Inr (xs ! unat k, ucast k), Q')"
    using free(1,2) M cb(1,2,6) fr book rd
    by (simp add: fifo_steal_and_pop_def fifo_read_at_def fifo_complete_eq Let_def Q'_def v_def fun_eq_iff)
  moreover have "fifo_rep (Q' self) 0 [] 0 (drop (unat c) xs @ take (unat k) xs)"
    using fifo_rep_stolen [OF s cb(3) _ hs' [unfolded p_def], of k] k by (simp add: Q'_def p_def)
  ultimately show ?thesis using cb(4) by (intro exI [of _ Q']) (simp add: Q'_def k_def)
qed

section \<open>The queue implements the interface\<close>

definition fifo_ops :: "('a fifo_queue, fifo_drain_iter, 'a) wq_ops" where
  "fifo_ops =
     \<lparr>wq_new = fifo_new, wq_capacity = fifo_worker_capacity, wq_push = fifo_push, wq_extend = fifo_extend, wq_pop = fifo_pop,
      wq_spare_capacity = fifo_spare_capacity, wq_is_empty = fifo_is_empty,
      wq_drain = fifo_drain, wq_next = fifo_drain_next, wq_size_hint = fifo_drain_size_hint,
      wq_steal = fifo_steal, wq_steal_and_pop = fifo_steal_and_pop, wq_drop = fifo_drop\<rparr>"

lemma fifo_ops_simps [simp]:
  "wq_new fifo_ops = fifo_new" "wq_capacity fifo_ops = fifo_worker_capacity"
  "wq_push fifo_ops = fifo_push" "wq_extend fifo_ops = fifo_extend" "wq_pop fifo_ops = fifo_pop"
  "wq_spare_capacity fifo_ops = fifo_spare_capacity" "wq_is_empty fifo_ops = fifo_is_empty"
  "wq_drain fifo_ops = fifo_drain" "wq_next fifo_ops = fifo_drain_next"
  "wq_size_hint fifo_ops = fifo_drain_size_hint" "wq_steal fifo_ops = fifo_steal"
  "wq_steal_and_pop fifo_ops = fifo_steal_and_pop" "wq_drop fifo_ops = fifo_drop"
  by (simp_all add: fifo_ops_def)

definition fifo_drain_rel :: "'a fifo_queue \<Rightarrow> nat \<Rightarrow> fifo_drain_iter option \<Rightarrow> 'a list \<Rightarrow> bool" where
  "fifo_drain_rel q moved d fl \<longleftrightarrow>
     (case d of
        None \<Rightarrow> fl = []
      | Some it \<Rightarrow> if fl = [] then drain_head it = to_head it else fifo_drain_at it q moved fl)"

definition fifo_rel :: "'a fifo_queue \<Rightarrow> fifo_drain_iter option \<Rightarrow> 'a aqueue \<Rightarrow> bool" where
  "fifo_rel q d A \<longleftrightarrow>
     (\<exists>moved hole. fifo_rep q moved (aq_inflight A) hole (aq_items A) \<and>
        aq_booked A = moved + length (aq_inflight A) + hole \<and> fifo_drain_rel q moved d (aq_inflight A)) \<and>
     aq_cap A = fifo_cap q \<and> (aq_inflight A = [] \<longrightarrow> aq_booked A = 0)"

lemma fifo_relE:
  assumes "fifo_rel q d A"
  obtains a h where "fifo_rep q a (aq_inflight A) h (aq_items A)" "aq_booked A = a + length (aq_inflight A) + h"
    "fifo_drain_rel q a d (aq_inflight A)" "aq_cap A = fifo_cap q" "aq_inflight A = [] \<longrightarrow> a = 0 \<and> h = 0"
    "aq_room A = fifo_cap q - (a + length (aq_inflight A) + h + length (aq_items A))"
  using assms by (fastforce simp: fifo_rel_def aq_room_def)

lemma fifo_drain_rel_cong: "fifo_stealer_head q' = fifo_stealer_head q \<Longrightarrow> fifo_drain_rel q' a d fl = fifo_drain_rel q a d fl"
  by (simp add: fifo_drain_rel_def fifo_drain_at_def split: option.split)

lemma fifo_relI:
  assumes "fifo_rep q a (aq_inflight A) h (aq_items A)" "aq_booked A = a + length (aq_inflight A) + h"
    "fifo_drain_rel q a d (aq_inflight A)" "aq_cap A = fifo_cap q" "aq_inflight A = [] \<Longrightarrow> aq_booked A = 0"
  shows "fifo_rel q d A"
  using assms by (auto simp: fifo_rel_def)

lemma fifo_rel_wf: "fifo_rel q d A \<Longrightarrow> aq_wf A"
proof (elim fifo_relE)
  fix a h
  assume "fifo_rep q a (aq_inflight A) h (aq_items A)" "aq_booked A = a + length (aq_inflight A) + h"
    "aq_cap A = fifo_cap q" "aq_inflight A = [] \<longrightarrow> a = 0 \<and> h = 0"
  then show "aq_wf A" using fifo_rep_fits [of q a _ h] cap_of_le [OF fifo_rep_mask [of q a _ h]] by (auto simp: aq_wf_def)
qed

lemma fifo_rel_idle:
  assumes "fifo_rel q d A" "aq_booked A = 0"
  shows "aq_inflight A = []" "fifo_rep q 0 [] 0 (aq_items A)"
  using assms by (auto elim!: fifo_relE)

lemma fifo_push_law:
  assumes r: "fifo_rel q d A"
  shows "res_rel (\<lambda>(r, q') (r', A'). r = r' \<and> fifo_rel q' d A') (fifo_push q x) (Inr (aq_push A x))"
proof -
  obtain a h where rep: "fifo_rep q a (aq_inflight A) h (aq_items A)" and b: "aq_booked A = a + length (aq_inflight A) + h"
    and dr: "fifo_drain_rel q a d (aq_inflight A)" and cap: "aq_cap A = fifo_cap q"
    and i: "aq_inflight A = [] \<longrightarrow> a = 0 \<and> h = 0"
    and room: "aq_room A = fifo_cap q - (a + length (aq_inflight A) + h + length (aq_items A))"
    using r by (rule fifo_relE)
  show ?thesis
  proof (cases "aq_room A = 0")
    case True
    then have "fifo_push q x = Inr (Inl x, q)" using fifo_push_full [OF rep] room fifo_rep_fits [OF rep] by simp
    with True r show ?thesis by (simp add: aq_push_def)
  next
    case False
    then obtain q' where q': "fifo_push q x = Inr (Inr (), q')" "fifo_rep q' a (aq_inflight A) h (aq_items A @ [x])"
      "heads q' = heads q" "fifo_mask q' = fifo_mask q"
      using fifo_push_ok [OF rep, of x] room by auto
    have "fifo_rel q' d (A\<lparr>aq_items := aq_items A @ [x]\<rparr>)"
      using q' b dr cap i by (intro fifo_relI [of q' a _ h]) (simp_all add: fifo_drain_rel_cong [of q' q])
    with q'(1) False show ?thesis by (simp add: aq_push_def)
  qed
qed

lemma fifo_extend_law:
  assumes r: "fifo_rel q d A"
  shows "res_rel (\<lambda>(r, q') (r', A'). r = r' \<and> fifo_rel q' d A') (fifo_extend q xs) (Inr (aq_extend A xs))"
proof -
  obtain a h where rep: "fifo_rep q a (aq_inflight A) h (aq_items A)" and b: "aq_booked A = a + length (aq_inflight A) + h"
    and dr: "fifo_drain_rel q a d (aq_inflight A)" and cap: "aq_cap A = fifo_cap q"
    and i: "aq_inflight A = [] \<longrightarrow> a = 0 \<and> h = 0"
    and room: "aq_room A = fifo_cap q - (a + length (aq_inflight A) + h + length (aq_items A))"
    using r by (rule fifo_relE)
  obtain q' where q': "fifo_extend q xs = Inr (drop (aq_room A) xs, q')"
    "fifo_rep q' a (aq_inflight A) h (aq_items A @ take (aq_room A) xs)" "heads q' = heads q" "fifo_mask q' = fifo_mask q"
    using fifo_extend_ok [OF rep, of xs] unfolding room by blast
  have "fifo_rel q' d (A\<lparr>aq_items := aq_items A @ take (aq_room A) xs\<rparr>)"
    using q' b dr cap i by (intro fifo_relI [of q' a _ h]) (simp_all add: fifo_drain_rel_cong [of q' q])
  with q'(1) show ?thesis by (simp add: aq_extend_def)
qed

lemma fifo_pop_law:
  assumes r: "fifo_rel q d A"
  shows "res_rel (\<lambda>(r, q') (r', A'). r = r' \<and> fifo_rel q' d A') (fifo_pop n q) (Inr (aq_pop TakeOldest A))"
proof -
  obtain a h where rep: "fifo_rep q a (aq_inflight A) h (aq_items A)" and b: "aq_booked A = a + length (aq_inflight A) + h"
    and dr: "fifo_drain_rel q a d (aq_inflight A)" and cap: "aq_cap A = fifo_cap q"
    and i: "aq_inflight A = [] \<longrightarrow> a = 0 \<and> h = 0"
    and room: "aq_room A = fifo_cap q - (a + length (aq_inflight A) + h + length (aq_items A))"
    using r by (rule fifo_relE)
  show ?thesis
  proof (cases "aq_items A")
    case Nil
    with r fifo_pop_empty [of q a _ h n] rep show ?thesis by (simp add: aq_pop_def)
  next
    case (Cons x xs)
    obtain q' where q': "fifo_pop n q = Inr (Some x, q')" "fifo_mask q' = fifo_mask q"
      "if a + length (aq_inflight A) + h = 0 then fifo_rep q' 0 [] 0 xs
       else fifo_rep q' a (aq_inflight A) (Suc h) xs \<and> fifo_stealer_head q' = fifo_stealer_head q"
      using fifo_pop_ok [OF rep [unfolded Cons], of n] by blast
    have "fifo_rel q' d (A\<lparr>aq_items := xs, aq_booked := (if aq_booked A = 0 then 0 else Suc (aq_booked A))\<rparr>)"
    proof (cases "aq_booked A = 0")
      case True
      then have "a = 0" "h = 0" "aq_inflight A = []" using b by auto
      with True q' dr cap show ?thesis
        by (intro fifo_relI [of q' 0 _ 0]) (simp_all add: fifo_drain_rel_def split: option.splits)
    next
      case False
      with b q' have "fifo_rep q' a (aq_inflight A) (Suc h) xs" "fifo_stealer_head q' = fifo_stealer_head q"
        by (auto split: if_splits)
      with False q' b dr cap i show ?thesis
        by (intro fifo_relI [of q' a _ "Suc h"]) (auto simp: fifo_drain_rel_cong [of q' q])
    qed
    with q'(1) Cons show ?thesis by (simp add: aq_pop_def)
  qed
qed

text \<open>A booking on the queue ends like a booking of the specification.\<close>

lemma fifo_book_law:
  assumes r: "fifo_rel q d A"
  obtains (fault) e where "aq_book n f m A = Inl e" "fifo_book_items n f m q = Inl e"
  | (failed) e where "aq_book n f m A = Inr (Inl e)" "fifo_book_items n f m q = Inr (Inl e, q)"
  | (booked) c where "aq_book n f m A = Inr (Inr (unat c))" "fifo_rep q 0 [] 0 (aq_items A)"
      "aq_booked A = 0" "aq_inflight A = []" "aq_items A \<noteq> []"
      "book_choice n 0 f m (word_of_nat (length (aq_items A))) = Inr (Inr c)"
proof (cases "aq_booked A = 0")
  case False
  then show thesis using r fifo_book_busy [of q _ _ _ _ n f m]
    by (intro failed [of Busy]) (auto simp: aq_book_def elim!: fifo_relE)
next
  case idle: True
  note rep = fifo_rel_idle [OF r idle]
  show thesis
  proof (cases "aq_items A = []")
    case True
    then show ?thesis using idle rep fifo_book_empty [of q]
      by (intro failed [of Empty]) (simp_all add: aq_book_def)
  next
    case ne: False
    show ?thesis
    proof (cases "book_choice n 0 f m (word_of_nat (length (aq_items A)))")
      case (Inl e)
      then show ?thesis
        using idle ne by (intro fault [of e]) (simp_all add: aq_book_def fifo_book_choice [OF rep(2)])
    next
      case (Inr b)
      then show ?thesis
        using idle ne rep by (cases b) (auto simp: aq_book_def fifo_book_choice [OF rep(2)] intro: failed booked)
    qed
  qed
qed

lemma fifo_drain_law:
  assumes r: "fifo_rel q d A"
  shows "res_rel (\<lambda>(r, q') (r', A'). case r of
       Inl e \<Rightarrow> r' = Some e \<and> q' = q \<and> A' = A
     | Inr d' \<Rightarrow> r' = None \<and> fifo_rel q' (Some d') A') (fifo_drain n f q) (aq_drain n f A)"
  using r
proof (cases rule: fifo_book_law [where n = n and f = f and m = "- 1"])
  case (booked c)
  obtain it q' where *: "fifo_drain n f q = Inr (Inr it, q')" "0 < unat c" "unat c \<le> length (aq_items A)"
    "fifo_rep q' 0 (take (unat c) (aq_items A)) 0 (drop (unat c) (aq_items A))"
    "fifo_drain_at it q' 0 (take (unat c) (aq_items A))" "fifo_mask q' = fifo_mask q"
    using fifo_drain_ok [OF booked(2,5,6)] by blast
  have "aq_cap A = fifo_cap q" using r by (rule fifo_relE)
  with * booked(5) have "fifo_rel q' (Some it)
      (A\<lparr>aq_booked := unat c, aq_inflight := take (unat c) (aq_items A), aq_items := drop (unat c) (aq_items A)\<rparr>)"
    by (intro fifo_relI [of q' 0 _ 0]) (simp_all add: fifo_drain_rel_def)
  with *(1) booked(1) show ?thesis by (simp add: aq_drain_def)
qed (simp_all add: aq_drain_def fifo_drain_def)

lemma fifo_next_law:
  assumes r: "fifo_rel q (Some it) A"
  shows "res_rel (\<lambda>(r, d', q') (r', A'). r = r' \<and> fifo_rel q' (Some d') A') (fifo_drain_next n it q) (Inr (aq_next A))"
proof -
  obtain a h where rep: "fifo_rep q a (aq_inflight A) h (aq_items A)" and b: "aq_booked A = a + length (aq_inflight A) + h"
    and dr: "fifo_drain_rel q a (Some it) (aq_inflight A)" and cap: "aq_cap A = fifo_cap q"
    using r by (rule fifo_relE)
  show ?thesis
  proof (cases "aq_inflight A")
    case Nil
    then have "drain_head it = to_head it" using dr by (simp add: fifo_drain_rel_def)
    with Nil r show ?thesis by (simp add: fifo_drain_next_done aq_next_def)
  next
    case (Cons x fl)
    have at: "fifo_drain_at it q a (x # fl)" using dr Cons by (simp add: fifo_drain_rel_def)
    obtain it' q' where *: "fifo_drain_next n it q = Inr (Some x, it', q')" "fifo_mask q' = fifo_mask q"
      "if fl = [] then fifo_rep q' 0 [] 0 (aq_items A) \<and> drain_head it' = to_head it'
       else fifo_rep q' (Suc a) fl h (aq_items A) \<and> fifo_drain_at it' q' (Suc a) fl"
      using fifo_drain_next_ok [OF rep [unfolded Cons] at] by blast
    have "fifo_rel q' (Some it') (A\<lparr>aq_inflight := fl, aq_booked := (if fl = [] then 0 else aq_booked A)\<rparr>)"
    proof (cases "fl = []")
      case True
      then show ?thesis using * cap by (intro fifo_relI [of q' 0 _ 0]) (simp_all add: fifo_drain_rel_def)
    next
      case False
      then show ?thesis using * cap b Cons by (intro fifo_relI [of q' "Suc a" _ h]) (simp_all add: fifo_drain_rel_def)
    qed
    with *(1) Cons show ?thesis by (simp add: aq_next_def)
  qed
qed

lemma fifo_size_hint_law:
  assumes r: "fifo_rel q (Some it) A"
  shows "fifo_drain_size_hint it = (word_of_nat (length (aq_inflight A)), Some (word_of_nat (length (aq_inflight A))))"
proof -
  have e: "to_head it - drain_head it = word_of_nat (length (aq_inflight A))"
    using r by (auto simp: fifo_drain_rel_def fifo_drain_at_def elim!: fifo_relE split: if_splits)
  have "length (aq_inflight A) < 4294967296"
    using fifo_rel_wf [OF r] by (simp add: aq_wf_def)
  then have "ucast (word_of_nat (length (aq_inflight A)) :: ushort) = (word_of_nat (length (aq_inflight A)) :: usize)"
    by (simp add: ucast_of_nat_unat(1) unat_of_nat32)
  with e show ?thesis by (simp add: fifo_drain_size_hint_def Let_def)
qed

text \<open>A queue that has given away or received items.\<close>

lemma fifo_rel_idleI:
  assumes r: "fifo_rel q d A" and b: "aq_booked A = 0" and s: "fifo_rep q' 0 [] 0 xs" "fifo_mask q' = fifo_mask q"
  shows "fifo_rel q' d (A\<lparr>aq_items := xs\<rparr>)"
  using r fifo_rel_idle(1) [OF r b] b s
  by (auto simp: fifo_drain_rel_def split: option.splits elim!: fifo_relE intro!: fifo_relI [of q' 0 _ 0])

lemma fifo_rel_update:
  assumes r: "fifo_rel q d A"
    and s: "\<And>a h. fifo_rep q a (aq_inflight A) h (aq_items A) \<Longrightarrow> aq_booked A = a + length (aq_inflight A) + h \<Longrightarrow>
      fifo_rep q' a (aq_inflight A) h xs"
    and h: "heads q' = heads q" "fifo_mask q' = fifo_mask q"
  shows "fifo_rel q' d (A\<lparr>aq_items := xs\<rparr>)"
proof -
  obtain a h where "fifo_rep q a (aq_inflight A) h (aq_items A)" "aq_booked A = a + length (aq_inflight A) + h"
    "fifo_drain_rel q a d (aq_inflight A)" "aq_cap A = fifo_cap q" "aq_inflight A = [] \<longrightarrow> a = 0 \<and> h = 0"
    using r by (rule fifo_relE)
  with s h show ?thesis by (intro fifo_relI [of q' a _ h]) (simp_all add: fifo_drain_rel_cong [of q' q])
qed

lemma fifo_rel_free:
  assumes r: "fifo_rel q d A"
  shows "checked_minus (fifo_capacity q) (tail q - fifo_stealer_head q) = Inr (word_of_nat (aq_room A))"
    and "word_of_nat (aq_room A) \<le> fifo_capacity q"
proof -
  obtain a h where rep: "fifo_rep q a (aq_inflight A) h (aq_items A)"
    and room: "aq_room A = fifo_cap q - (a + length (aq_inflight A) + h + length (aq_items A))"
    using r by (rule fifo_relE)
  from fifo_free_capacity(1,2) [OF rep, folded room]
  show "checked_minus (fifo_capacity q) (tail q - fifo_stealer_head q) = Inr (word_of_nat (aq_room A))"
    "word_of_nat (aq_room A) \<le> fifo_capacity q" .
qed

lemma fifo_steal_law:
  assumes r: "\<And>i. fifo_rel (Q i) (ds i) (S i)"
  shows "res_rel (\<lambda>(r, Q') (r', S'). map_sum id unat r = r' \<and> (\<forall>i. fifo_rel (Q' i) (ds i) (S' i)))
    (fifo_steal n n' f self dest Q) (aq_steal n f self dest S)"
proof -
  note free = fifo_rel_free [OF r [of dest]]
  obtain a h where rep: "fifo_rep (Q dest) a (aq_inflight (S dest)) h (aq_items (S dest))"
    and bk: "aq_booked (S dest) = a + length (aq_inflight (S dest)) + h"
    and dr: "fifo_drain_rel (Q dest) a (ds dest) (aq_inflight (S dest))" and cap: "aq_cap (S dest) = fifo_cap (Q dest)"
    and idle: "aq_inflight (S dest) = [] \<longrightarrow> a = 0 \<and> h = 0"
    and room: "aq_room (S dest) = fifo_cap (Q dest) - (a + length (aq_inflight (S dest)) + h + length (aq_items (S dest)))"
    using r [of dest] by (rule fifo_relE)
  show ?thesis
    using r [of self]
  proof (cases rule: fifo_book_law [where n = n and f = f and m = "word_of_nat (aq_room (S dest))"])
    case (booked c)
    note ch = booked(6)
    show ?thesis
    proof (cases "self = dest")
      case True
      obtain Q' where Q': "fifo_steal n n' f self self Q = Inr (Inr (ucast c), Q')"
        "fifo_rep (Q' self) 0 [] 0 (drop (unat c) (aq_items (S self)) @ take (unat c) (aq_items (S self)))"
        "\<forall>i. i \<noteq> self \<longrightarrow> Q' i = Q i" "fifo_mask (Q' self) = fifo_mask (Q self)"
        using fifo_steal_self [of Q self, OF booked(2,5), of n f c n'] ch booked(3,4) room idle True by fastforce
      have "fifo_rel (Q' self) (ds self) ((S self)\<lparr>aq_items := drop (unat c) (aq_items (S self)) @ take (unat c) (aq_items (S self))\<rparr>)"
        using fifo_rel_idleI [OF r booked(3) Q'(2,4)] .
      with True Q' booked r show ?thesis
        by (auto simp: aq_steal_def aq_move_def Let_def ucast_of_nat_unat(2))
    next
      case False
      obtain Q' where Q': "fifo_steal n n' f self dest Q = Inr (Inr (ucast c), Q')"
        "fifo_rep (Q' self) 0 [] 0 (drop (unat c) (aq_items (S self)))"
        "fifo_rep (Q' dest) a (aq_inflight (S dest)) h (aq_items (S dest) @ take (unat c) (aq_items (S self)))"
        "\<forall>i. i \<noteq> self \<longrightarrow> i \<noteq> dest \<longrightarrow> Q' i = Q i" "fifo_mask (Q' self) = fifo_mask (Q self)"
        "fifo_mask (Q' dest) = fifo_mask (Q dest)" "heads (Q' dest) = heads (Q dest)"
        using fifo_steal_apart [of self dest Q, OF False booked(2) rep booked(5), of n f c n'] ch room by auto
      have "fifo_rel (Q' self) (ds self) ((S self)\<lparr>aq_items := drop (unat c) (aq_items (S self))\<rparr>)"
        using fifo_rel_idleI [OF r booked(3) Q'(2,5)] .
      moreover have "fifo_rel (Q' dest) (ds dest) ((S dest)\<lparr>aq_items := aq_items (S dest) @ take (unat c) (aq_items (S self))\<rparr>)"
        using Q' dr bk cap idle by (intro fifo_relI [of "Q' dest" a _ h]) (simp_all add: fifo_drain_rel_cong [of "Q' dest" "Q dest"])
      ultimately show ?thesis using False Q'(1,4) booked(1) r
        by (auto simp: aq_steal_def aq_move_def Let_def ucast_of_nat_unat(2))
    qed
  qed (use free r in \<open>auto simp: aq_steal_def fifo_steal_def Let_def\<close>)
qed

lemma fifo_steal_and_pop_law:
  assumes r: "\<And>i. fifo_rel (Q i) (ds i) (S i)"
  shows "res_rel (\<lambda>(r, Q') (r', S'). map_sum id (apsnd unat) r = r' \<and> (\<forall>i. fifo_rel (Q' i) (ds i) (S' i)))
    (fifo_steal_and_pop n n' f self dest Q) (aq_steal_and_pop n f self dest S)"
proof -
  note free = fifo_rel_free [OF r [of dest]]
  have plus: "checked_plus (word_of_nat (aq_room (S dest)) :: ushort) 1 = Inr (word_of_nat (aq_room (S dest)) + 1)"
    using aq_room_le [OF fifo_rel_wf [OF r [of dest]]] unat_room [OF fifo_rel_wf [OF r [of dest]]] by (simp add: checked_plus_def)
  obtain a h where rep: "fifo_rep (Q dest) a (aq_inflight (S dest)) h (aq_items (S dest))"
    and bk: "aq_booked (S dest) = a + length (aq_inflight (S dest)) + h"
    and dr: "fifo_drain_rel (Q dest) a (ds dest) (aq_inflight (S dest))" and cap: "aq_cap (S dest) = fifo_cap (Q dest)"
    and idle: "aq_inflight (S dest) = [] \<longrightarrow> a = 0 \<and> h = 0"
    and room: "aq_room (S dest) = fifo_cap (Q dest) - (a + length (aq_inflight (S dest)) + h + length (aq_items (S dest)))"
    using r [of dest] by (rule fifo_relE)
  show ?thesis
    using r [of self]
  proof (cases rule: fifo_book_law [where n = n and f = f and m = "word_of_nat (aq_room (S dest)) + 1"])
    case (booked c)
    note ch = booked(6)
    have "0 < unat c" using book_choice_bounds [OF ch] by simp
    then have c1: "unat (c - 1) = unat c - 1" by (simp add: unat_minus_one unat_gt_0)
    show ?thesis
    proof (cases "self = dest")
      case True
      obtain Q' where Q': "fifo_steal_and_pop n n' f self self Q = Inr (Inr (aq_items (S self) ! (unat c - 1), ucast (c - 1)), Q')"
        "fifo_rep (Q' self) 0 [] 0 (drop (unat c) (aq_items (S self)) @ take (unat c - 1) (aq_items (S self)))"
        "\<forall>i. i \<noteq> self \<longrightarrow> Q' i = Q i" "fifo_mask (Q' self) = fifo_mask (Q self)"
        using fifo_steal_and_pop_self [of Q self, OF booked(2,5), of n f c n'] ch booked(3,4) room idle True by fastforce
      have "fifo_rel (Q' self) (ds self) ((S self)\<lparr>aq_items := drop (unat c) (aq_items (S self)) @ take (unat c - 1) (aq_items (S self))\<rparr>)"
        using fifo_rel_idleI [OF r booked(3) Q'(2,4)] .
      with True Q' booked r c1 show ?thesis
        by (auto simp: aq_steal_and_pop_def aq_move_def Let_def ucast_of_nat_unat(2))
    next
      case False
      obtain Q' where Q': "fifo_steal_and_pop n n' f self dest Q = Inr (Inr (aq_items (S self) ! (unat c - 1), ucast (c - 1)), Q')"
        "fifo_rep (Q' self) 0 [] 0 (drop (unat c) (aq_items (S self)))"
        "fifo_rep (Q' dest) a (aq_inflight (S dest)) h (aq_items (S dest) @ take (unat c - 1) (aq_items (S self)))"
        "\<forall>i. i \<noteq> self \<longrightarrow> i \<noteq> dest \<longrightarrow> Q' i = Q i" "fifo_mask (Q' self) = fifo_mask (Q self)"
        "fifo_mask (Q' dest) = fifo_mask (Q dest)" "heads (Q' dest) = heads (Q dest)"
        using fifo_steal_and_pop_apart [of self dest Q, OF False booked(2) rep booked(5), of n f c n'] ch room by auto
      have "fifo_rel (Q' self) (ds self) ((S self)\<lparr>aq_items := drop (unat c) (aq_items (S self))\<rparr>)"
        using fifo_rel_idleI [OF r booked(3) Q'(2,5)] .
      moreover have "fifo_rel (Q' dest) (ds dest) ((S dest)\<lparr>aq_items := aq_items (S dest) @ take (unat c - 1) (aq_items (S self))\<rparr>)"
        using Q' dr bk cap idle by (intro fifo_relI [of "Q' dest" a _ h]) (simp_all add: fifo_drain_rel_cong [of "Q' dest" "Q dest"])
      ultimately show ?thesis using False Q'(1,4) booked(1) r c1
        by (auto simp: aq_steal_and_pop_def aq_move_def Let_def ucast_of_nat_unat(2))
    qed
  qed (use free plus r in \<open>auto simp: aq_steal_and_pop_def fifo_steal_and_pop_def Let_def\<close>)
qed

lemma fifo_new_law:
  "res_rel (\<lambda>q A. fifo_rel q None A) (fifo_new n :: 'a fifo_queue res)
     (if n \<le> MAX_CAPACITY then Inr (aq_new (next_power_of_two n)) else Inl AssertFailed)"
proof (cases "n \<le> MAX_CAPACITY")
  case True
  then obtain q :: "'a fifo_queue" where q: "fifo_new n = Inr q" "fifo_rep q 0 [] 0 []" "fifo_cap q = next_power_of_two n"
    using fifo_new_ok by blast
  then have "fifo_rel q None (aq_new (next_power_of_two n))"
    by (intro fifo_relI [of q 0 _ 0]) (simp_all add: aq_new_def fifo_drain_rel_def)
  with q(1) True show ?thesis by simp
qed (simp add: fifo_new_def)

lemma fifo_rel_ring: "fifo_rel q d A \<Longrightarrow> is_mask (fifo_mask q) \<and> aq_cap A = fifo_cap q"
  using fifo_rep_mask by (auto elim!: fifo_relE)

lemma fifo_worker_capacity_law: "fifo_rel q d A \<Longrightarrow> fifo_worker_capacity q = word_of_nat (aq_cap A)"
  using fifo_capacity_cap [of q] fifo_rel_ring [of q d A] ucast_of_nat_unat(1) [of "fifo_capacity q"]
  unfolding fifo_worker_capacity_def by simp

lemma fifo_spare_law: "fifo_rel q d A \<Longrightarrow> fifo_spare_capacity q = Inr (word_of_nat (aq_room A))"
  by (elim fifo_relE) (simp add: fifo_spare_ok)

lemma fifo_is_empty_law: "fifo_rel q d A \<Longrightarrow> fifo_is_empty q \<longleftrightarrow> aq_items A = []"
  by (elim fifo_relE) (simp add: fifo_is_empty_iff)

lemma fifo_idle_law: "fifo_rel q None A \<Longrightarrow> aq_inflight A = []"
  by (elim fifo_relE) (simp add: fifo_drain_rel_def)

lemma fifo_drop_law: "fifo_rel q d A \<Longrightarrow> \<exists>q'. fifo_drop q = Inr (aq_items A, q')"
  by (elim fifo_relE) (rule fifo_drop_ok)

interpretation fifo_wq: work_queue fifo_ops TakeOldest fifo_rel
proof (unfold_locales, goal_cases)
  case (1 q d A) then show ?case by (rule fifo_rel_wf)
next
  case (2 n) then show ?case using fifo_new_law [of n] by simp
next
  case (3 q d A) then show ?case using fifo_worker_capacity_law by simp
next
  case (4 q d A x) then show ?case using fifo_push_law by simp
next
  case (5 q d A xs) then show ?case using fifo_extend_law by simp
next
  case (6 q d A n) then show ?case using fifo_pop_law by simp
next
  case (7 q d A) then show ?case using fifo_spare_law by simp
next
  case (8 q d A) then show ?case using fifo_is_empty_law by simp
next
  case (9 q d A n f) then show ?case using fifo_drain_law by simp
next
  case (10 q dr A n) then show ?case using fifo_next_law by simp
next
  case (11 q dr A) then show ?case using fifo_size_hint_law by simp
next
  case (12 q A) then show ?case by (rule fifo_idle_law)
next
  case (13 Q ds S n n' f self dest) then show ?case using fifo_steal_law [of Q ds S, OF 13] by simp
next
  case (14 Q ds S n n' f self dest) then show ?case using fifo_steal_and_pop_law [of Q ds S, OF 14] by simp
next
  case (15 q d A) then show ?case using fifo_drop_law by simp
next
  case (16 q d A) then show ?case by (auto elim!: fifo_relE)
qed

section \<open>Properties\<close>


abbreviation fifo_new_queue :: "'a fifo_queue" where
  "fifo_new_queue \<equiv> \<lparr>heads = 0, tail = 0, fifo_buffer = [None, None], fifo_mask = 1\<rparr>"

lemma fifo_new_2: "fifo_new 2 = Inr fifo_new_queue"
  by (simp add: fifo_new_def MAX_CAPACITY_def next_power_of_two_2 allocate_buffer_2 checked_minus_def)


text \<open>
  C28. The FIFO queue never faults: when no user closure panics, every sequence of calls on
  new queues returns.
\<close>

theorem fifo_no_fault:
  assumes "\<And>i. fifo_new (n i) = Inr (q i)" "\<forall>c \<in> set cs. total_call c"
  shows "\<exists>rs C. wq_run fifo_ops cs (wq_start q) = Inr (rs, C)"
  by (rule fifo_wq.no_fault_from_new [of n]) (use assms in simp_all)

theorem fifo_no_fault_witness:
  "\<exists>rs C. wq_run fifo_ops [Push 0 ''a'', Drain 0 0 (\<lambda>_ _. Some 5), Pop 0 0, Next 0 0] (wq_start (\<lambda>_. fifo_new_queue)) = Inr (rs, C)"
  by (rule fifo_no_fault [of "\<lambda>_. 2"]) (simp_all add: fifo_new_2 total_call_def)


lemma fifo_example_run:
  "\<exists>C. wq_run fifo_ops [Push 0 ''a'', Push 0 ''b'', Steal 1 1 (\<lambda>_. Some) 0 1] (wq_start (\<lambda>_. fifo_new_queue))
      = Inr ([Pushed, Pushed, Count 2], C) \<and> (\<forall>i. drains C i = None)"
proof -
  let ?cs = "[Push 0 ''a'', Push 0 ''b'', Steal 1 1 (\<lambda>_. Some) 0 1]"
  have rel: "fifo_wq.state_rel (wq_start (\<lambda>_. fifo_new_queue)) (aq_start (\<lambda>_. 2))"
    by (rule fifo_wq.start_rel) (simp add: fifo_new_2)
  obtain S where S: "aq_run TakeOldest ?cs (aq_start (\<lambda>_. 2)) = Inr ([Pushed, Pushed, Count 2], S)" "\<forall>i. \<not> fst (S i)"
    by (simp add: aq_start_def aq_new_def next_power_of_two_2 aq_push_def aq_room_def aq_set_def push_reply_def
        aq_steal_def aq_book_def steal_count_def aq_move_def aq_with_def Let_def)
  show ?thesis
    using fifo_wq.run_refines [OF rel, of ?cs, unfolded S(1)] S(2)
    by (auto simp: fifo_wq.state_rel_def simp del: wq_run.simps dest!: res_rel_InrD)
qed


text \<open>
  C30. Spurious compare-exchange failures cannot be observed: when the user closures depend on
  the item count only, every call replies what it replies when no exchange fails.
\<close>

theorem fifo_failures_unobservable:
  assumes "\<And>i. fifo_new (n i) = Inr (q i)" "\<forall>c \<in> set cs. pure_call c"
  shows "res_rel (\<lambda>(rs, C) (rs', C'). rs = rs')
    (wq_run fifo_ops cs (wq_start q)) (wq_run fifo_ops (map without_failures cs) (wq_start q))"
  using fifo_wq.failures_unobservable [of n q cs] assms by simp

theorem fifo_failures_unobservable_witness:
  "res_rel (\<lambda>(rs, C) (rs', C'). rs = rs')
    (wq_run fifo_ops [Push 0 ''a'', Pop 3 0] (wq_start (\<lambda>_. fifo_new_queue)))
    (wq_run fifo_ops [Push 0 ''a'', Pop 0 0] (wq_start (\<lambda>_. fifo_new_queue)))"
  using fifo_failures_unobservable [of "\<lambda>_. 2" "\<lambda>_. fifo_new_queue" "[Push 0 ''a'', Pop 3 0]"]
  by (simp add: fifo_new_2 pure_call_def)

text \<open>
  C31. Leaking a \<^verbatim>\<open>Drain\<close> of a FIFO queue is safe: whatever a drain has claimed, yielded or left,
  dropping the queue drops exactly the available items.
\<close>

theorem fifo_leaked_drain_drop:
  assumes "fifo_rep q moved inflight hole items"
  shows "\<exists>q'. fifo_drop q = Inr (items, q')"
  using assms by (rule fifo_drop_ok)

theorem fifo_leaked_drain_drop_witness:
  "\<exists>q'. fifo_drop \<lparr>heads = pack 1 0, tail = 2, fifo_buffer = [None, Some ''b''], fifo_mask = 1\<rparr> = Inr ([''b''], q')"
proof (rule fifo_leaked_drain_drop)
  have "is_mask 1" using is_mask_mask [of 1] by (simp add: mask_eq_exp_minus_1)
  then show "fifo_rep \<lparr>heads = pack 1 0, tail = 2, fifo_buffer = [None, Some ''b''], fifo_mask = 1\<rparr> 1 [] 0 [''b'']"
    by (auto simp: fifo_rep_def ring_shape_def claimed_def ring_ok_def cap_of_def slot_def ring_idx_def less_Suc_eq)
qed

end
