(* ===== verification/Injector.thy ===== *)
theory Injector
  imports Prelude
begin

text \<open>
  The unbounded injector, \<^verbatim>\<open>src/src/fanout/injector.rs\<close>: a queue of linked blocks with
  \<open>BLOCK_CAP\<close> slots each. An index counts tickets, one more than \<open>BLOCK_CAP\<close> per block, in
  all bits but the lowest; the lowest bit of the head index remembers that there is a next
  block. Blocks live in an explicit heap: a pointer is an address of it, freeing a block
  removes it, and following a pointer to a freed block is the fault \<open>UseAfterFree\<close>.

  The operations are modelled one at a time: a spin loop that would wait for another thread
  is the fault \<open>Livelock\<close>. A weak compare-exchange may fail spuriously, as often as the
  first argument of an operation says.
\<close>

section \<open>Model\<close>

definition WRITE :: usize where "WRITE = 1"
definition READ :: usize where "READ = 2"
definition DESTROY :: usize where "DESTROY = 4"

definition LAP :: nat where "LAP = 32"
definition BLOCK_CAP :: nat where "BLOCK_CAP = LAP - 1"
definition SHIFT :: nat where "SHIFT = 1"
definition HAS_NEXT :: usize where "HAS_NEXT = 1"

record 'a inj_slot =
  slot_value :: "'a option"
  slot_state :: usize

record 'a inj_block =
  block_next :: "nat option"
  block_slots :: "'a inj_slot list"

record inj_position =
  pos_index :: usize
  pos_block :: "nat option"

record 'a injector =
  inj_head :: inj_position
  inj_tail :: inj_position
  inj_heap :: "nat \<Rightarrow> 'a inj_block option"
  inj_brk :: nat

definition block_new :: "'a inj_block" where
  "block_new = \<lparr>block_next = None, block_slots = replicate BLOCK_CAP \<lparr>slot_value = None, slot_state = 0\<rparr>\<rparr>"

definition inj_new :: "'a injector" where
  "inj_new = \<lparr>inj_head = \<lparr>pos_index = 0, pos_block = None\<rparr>, inj_tail = \<lparr>pos_index = 0, pos_block = None\<rparr>,
              inj_heap = (\<lambda>_. None), inj_brk = 0\<rparr>"

text \<open>The heap: allocation, release, and access through a pointer.\<close>

definition inj_alloc :: "'a injector \<Rightarrow> nat \<times> 'a injector" where
  "inj_alloc q = (inj_brk q, q\<lparr>inj_heap := (inj_heap q)(inj_brk q := Some block_new), inj_brk := inj_brk q + 1\<rparr>)"

definition inj_free :: "'a injector \<Rightarrow> nat \<Rightarrow> 'a injector" where
  "inj_free q a = q\<lparr>inj_heap := (inj_heap q)(a := None)\<rparr>"

definition deref :: "'a injector \<Rightarrow> nat \<Rightarrow> 'a inj_block res" where
  "deref q a = (case inj_heap q a of None \<Rightarrow> Inl UseAfterFree | Some b \<Rightarrow> Inr b)"

definition set_block :: "'a injector \<Rightarrow> nat \<Rightarrow> 'a inj_block \<Rightarrow> 'a injector" where
  "set_block q a b = q\<lparr>inj_heap := (inj_heap q)(a := Some b)\<rparr>"

definition get_slot :: "'a inj_block \<Rightarrow> nat \<Rightarrow> 'a inj_slot res" where
  "get_slot b i = (if i < length (block_slots b) then Inr (block_slots b ! i) else Inl IndexOutOfBounds)"

definition set_slot :: "'a inj_block \<Rightarrow> nat \<Rightarrow> 'a inj_slot \<Rightarrow> 'a inj_block" where
  "set_slot b i s = b\<lparr>block_slots := (block_slots b)[i := s]\<rparr>"

text \<open>The ticket an index stands for, its block and its offset in the block.\<close>

definition ticket :: "usize \<Rightarrow> nat" where
  "ticket index = unat (drop_bit SHIFT index)"

definition offset_of :: "usize \<Rightarrow> nat" where
  "offset_of index = ticket index mod LAP"

subsection \<open>Push\<close>

text \<open>What a push does once it owns the ticket at \<open>offset\<close> of \<open>block\<close>.\<close>

definition inj_push_slot :: "usize \<Rightarrow> nat \<Rightarrow> nat \<Rightarrow> nat option \<Rightarrow> 'a \<Rightarrow> 'a injector \<Rightarrow> 'a injector res" where
  "inj_push_slot new_tail offset block next_block value q =
     rbind (if offset + 1 = BLOCK_CAP
            then case next_block of
                None \<Rightarrow> Inl AssertFailed
              | Some nb \<Rightarrow>
                  let next_index = new_tail + push_bit SHIFT 1;
                      q1 = q\<lparr>inj_tail := (inj_tail q)\<lparr>pos_block := Some nb\<rparr>\<rparr>;
                      q2 = q1\<lparr>inj_tail := (inj_tail q1)\<lparr>pos_index := next_index\<rparr>\<rparr>
                  in rbind (deref q2 block) (\<lambda>b. Inr (set_block q2 block (b\<lparr>block_next := Some nb\<rparr>), None))
            else Inr (q, next_block)) (\<lambda>(q3, unused).
     rbind (deref q3 block) (\<lambda>b.
     rbind (get_slot b offset) (\<lambda>s.
       let s' = s\<lparr>slot_value := Some value, slot_state := slot_state s OR WRITE\<rparr>;
           q4 = set_block q3 block (set_slot b offset s')
       in Inr (case unused of None \<Rightarrow> q4 | Some nb \<Rightarrow> inj_free q4 nb))))"

text \<open>
  The first push installs the first block. \<open>Inl\<close> is the block of a push that lost the race
  to install it.
\<close>

definition inj_install :: "nat option \<Rightarrow> 'a injector \<Rightarrow> (nat + nat) \<times> 'a injector" where
  "inj_install block q =
     (case block of
        Some a \<Rightarrow> (Inr a, q)
      | None \<Rightarrow>
          let (new, q1) = inj_alloc q in
          if pos_block (inj_tail q1) = None
          then (Inr new, q1\<lparr>inj_tail := (inj_tail q1)\<lparr>pos_block := Some new\<rparr>,
                            inj_head := (inj_head q1)\<lparr>pos_block := Some new\<rparr>\<rparr>)
          else (Inl new, q1))"

function inj_push_loop :: "nat \<Rightarrow> usize \<Rightarrow> nat option \<Rightarrow> nat option \<Rightarrow> 'a \<Rightarrow> 'a injector \<Rightarrow> 'a injector res" where
  "inj_push_loop fails tail block next_block value q =
     (let offset = offset_of tail in
      if offset = BLOCK_CAP then Inl Livelock
      else
        let (next_block, q) =
              (if offset + 1 = BLOCK_CAP \<and> next_block = None
               then let (a, q') = inj_alloc q in (Some a, q')
               else (next_block, q))
        in case inj_install block q of
             (Inl new, q) \<Rightarrow>
               let q = (case next_block of None \<Rightarrow> q | Some nb \<Rightarrow> inj_free q nb)
               in inj_push_loop fails (pos_index (inj_tail q)) (pos_block (inj_tail q)) (Some new) value q
           | (Inr a, q) \<Rightarrow>
               rbind (checked_plus tail (push_bit SHIFT 1)) (\<lambda>new_tail.
               if pos_index (inj_tail q) = tail \<and> fails = 0
               then inj_push_slot new_tail offset a next_block value
                      (q\<lparr>inj_tail := (inj_tail q)\<lparr>pos_index := new_tail\<rparr>\<rparr>)
               else inj_push_loop (fails - 1) (pos_index (inj_tail q)) (pos_block (inj_tail q)) next_block value q))"
  by pat_completeness auto
termination
  by (relation "measure (\<lambda>(fails, tail, block, nb, v, q).
        fails + (if pos_index (inj_tail q) = tail then 0 else 1) + (if pos_block (inj_tail q) = block then 0 else 1) +
        (if block = None then 1 else 0))")
     (auto simp: inj_install_def inj_alloc_def inj_free_def Let_def split: if_splits option.splits)

declare inj_push_loop.simps [simp del]

definition inj_push :: "nat \<Rightarrow> 'a injector \<Rightarrow> 'a \<Rightarrow> 'a injector res" where
  "inj_push fails q value = inj_push_loop fails (pos_index (inj_tail q)) (pos_block (inj_tail q)) None value q"

subsection \<open>Pop\<close>

text \<open>
  \<^verbatim>\<open>Block::destroy\<close>: a slot whose reader is not done yet gets the \<open>DESTROY\<close> bit, and its
  reader goes on from there; when there is none, the block is freed.
\<close>

fun inj_destroy_from :: "nat \<Rightarrow> nat list \<Rightarrow> 'a injector \<Rightarrow> 'a injector res" where
  "inj_destroy_from this [] q = rbind (deref q this) (\<lambda>_. Inr (inj_free q this))"
| "inj_destroy_from this (i # is) q =
     rbind (deref q this) (\<lambda>b.
     rbind (get_slot b i) (\<lambda>s.
       if slot_state s AND READ = 0
       then Inr (set_block q this (set_slot b i (s\<lparr>slot_state := slot_state s OR DESTROY\<rparr>)))
       else inj_destroy_from this is q))"

definition inj_destroy :: "nat \<Rightarrow> nat \<Rightarrow> 'a injector \<Rightarrow> 'a injector res" where
  "inj_destroy this start q = inj_destroy_from this [start..<BLOCK_CAP - 1] q"

text \<open>What a pop does once it owns the ticket at \<open>offset\<close> of \<open>block\<close>.\<close>

definition inj_advance_head :: "usize \<Rightarrow> nat \<Rightarrow> 'a injector \<Rightarrow> 'a injector res" where
  "inj_advance_head new_head block q =
     rbind (deref q block) (\<lambda>b.
       case block_next b of
         None \<Rightarrow> Inl Livelock
       | Some nxt \<Rightarrow>
           rbind (deref q nxt) (\<lambda>nb.
             let next_index = (new_head AND NOT HAS_NEXT) + push_bit SHIFT 1;
                 next_index = (if block_next nb \<noteq> None then next_index OR HAS_NEXT else next_index)
             in Inr (q\<lparr>inj_head := \<lparr>pos_index = next_index, pos_block = Some nxt\<rparr>\<rparr>)))"

definition inj_pop_slot :: "usize \<Rightarrow> nat \<Rightarrow> nat \<Rightarrow> 'a injector \<Rightarrow> ('a \<times> 'a injector) res" where
  "inj_pop_slot new_head offset block q =
     rbind (if offset + 1 = BLOCK_CAP then inj_advance_head new_head block q else Inr q) (\<lambda>q1.
     rbind (deref q1 block) (\<lambda>b.
     rbind (get_slot b offset) (\<lambda>s.
       if slot_state s AND WRITE = 0 then Inl Livelock
       else case slot_value s of
         None \<Rightarrow> Inl UninitRead
       | Some value \<Rightarrow>
           let q2 = set_block q1 block (set_slot b offset (s\<lparr>slot_value := None\<rparr>)) in
           if offset + 1 = BLOCK_CAP
           then rbind (inj_destroy block 0 q2) (\<lambda>q3. Inr (value, q3))
           else
             let q3 = set_block q1 block
                        (set_slot b offset (s\<lparr>slot_value := None, slot_state := slot_state s OR READ\<rparr>))
             in if slot_state s AND DESTROY \<noteq> 0
                then rbind (inj_destroy block (offset + 1) q3) (\<lambda>q4. Inr (value, q4))
                else Inr (value, q3))))"

text \<open>The new head index a pop tries to install, or \<open>None\<close> when the queue is empty.\<close>

definition inj_next_head :: "usize \<Rightarrow> usize \<Rightarrow> 'a injector \<Rightarrow> usize option" where
  "inj_next_head head new_head q =
     (if new_head AND HAS_NEXT = 0
      then let tail = pos_index (inj_tail q) in
           if ticket head = ticket tail then None
           else if ticket head div LAP \<noteq> ticket tail div LAP then Some (new_head OR HAS_NEXT)
           else Some new_head
      else Some new_head)"

function inj_pop_loop :: "nat \<Rightarrow> usize \<Rightarrow> nat option \<Rightarrow> 'a injector \<Rightarrow> ('a option \<times> 'a injector) res" where
  "inj_pop_loop fails head block q =
     (let offset = offset_of head in
      if offset = BLOCK_CAP then Inl Livelock
      else
        rbind (checked_plus head (push_bit SHIFT 1)) (\<lambda>new_head.
        case inj_next_head head new_head q of
          None \<Rightarrow> Inr (None, q)
        | Some new_head \<Rightarrow>
            (case block of
               None \<Rightarrow> Inl Livelock
             | Some a \<Rightarrow>
                 if pos_index (inj_head q) = head \<and> fails = 0
                 then rbind (inj_pop_slot new_head offset a
                               (q\<lparr>inj_head := (inj_head q)\<lparr>pos_index := new_head\<rparr>\<rparr>))
                            (\<lambda>(value, q'). Inr (Some value, q'))
                 else inj_pop_loop (fails - 1) (pos_index (inj_head q)) (pos_block (inj_head q)) q)))"
  by pat_completeness auto
termination
  by (relation "measure (\<lambda>(fails, head, block, q). fails + (if pos_index (inj_head q) = head then 0 else 1))") auto

declare inj_pop_loop.simps [simp del]

definition inj_pop :: "nat \<Rightarrow> 'a injector \<Rightarrow> ('a option \<times> 'a injector) res" where
  "inj_pop fails q = inj_pop_loop fails (pos_index (inj_head q)) (pos_block (inj_head q)) q"

subsection \<open>Length\<close>

definition inj_is_empty :: "'a injector \<Rightarrow> bool" where
  "inj_is_empty q = (ticket (pos_index (inj_head q)) = ticket (pos_index (inj_tail q)))"

definition index_up :: "usize \<Rightarrow> usize" where
  "index_up index =
     (let i = index AND NOT (push_bit SHIFT 1 - 1) in
      if drop_bit SHIFT i AND (word_of_nat LAP - 1) = word_of_nat LAP - 1 then i + push_bit SHIFT 1 else i)"

definition inj_len :: "'a injector \<Rightarrow> usize res" where
  "inj_len q =
     (let tail = index_up (pos_index (inj_tail q));
          head = index_up (pos_index (inj_head q));
          lap = drop_bit SHIFT head div word_of_nat LAP;
          tail = drop_bit SHIFT (tail - push_bit SHIFT (lap * word_of_nat LAP));
          head = drop_bit SHIFT (head - push_bit SHIFT (lap * word_of_nat LAP))
      in rbind (checked_minus tail head) (\<lambda>d. checked_minus d (tail div word_of_nat LAP)))"

subsection \<open>Drop\<close>

text \<open>
  \<^verbatim>\<open>Drop for Injector\<close>: the items it drops, in order, and the heap it leaves. The walk
  goes ticket by ticket from the head to the tail, so the distance in tickets is fuel enough
  for it: both indices have their lowest bit cleared, and a walk that misses the tail would
  never end.
\<close>

fun inj_drop_loop :: "nat \<Rightarrow> usize \<Rightarrow> usize \<Rightarrow> nat option \<Rightarrow> 'a injector \<Rightarrow> ('a list \<times> 'a injector) res" where
  "inj_drop_loop fuel head tail block q =
     (if head = tail
      then Inr ([], case block of None \<Rightarrow> q | Some a \<Rightarrow> inj_free q a)
      else
        case fuel of
          0 \<Rightarrow> Inl Livelock
        | Suc fuel' \<Rightarrow>
            (case block of
               None \<Rightarrow> Inl UseAfterFree
             | Some a \<Rightarrow>
                 rbind (deref q a) (\<lambda>b.
                 if offset_of head < BLOCK_CAP
                 then rbind (get_slot b (offset_of head)) (\<lambda>s.
                      case slot_value s of
                        None \<Rightarrow> Inl UninitRead
                      | Some value \<Rightarrow>
                          rbind (inj_drop_loop fuel' (head + push_bit SHIFT 1) tail block
                                   (set_block q a (set_slot b (offset_of head) (s\<lparr>slot_value := None\<rparr>))))
                                (\<lambda>(vs, q'). Inr (value # vs, q')))
                 else inj_drop_loop fuel' (head + push_bit SHIFT 1) tail (block_next b) (inj_free q a))))"

declare inj_drop_loop.simps [simp del]

definition inj_drop :: "'a injector \<Rightarrow> ('a list \<times> 'a injector) res" where
  "inj_drop q =
     (let clear = NOT (push_bit SHIFT 1 - 1);
          head = pos_index (inj_head q) AND clear;
          tail = pos_index (inj_tail q) AND clear
      in inj_drop_loop (unat (drop_bit SHIFT (tail - head))) head tail (pos_block (inj_head q)) q)"

section \<open>Tickets\<close>

text \<open>The \<open>n\<close>-th item ever pushed has this ticket: every block wastes one.\<close>

definition tk :: "nat \<Rightarrow> nat" where
  "tk n = n + n div 31"

definition idx :: "nat \<Rightarrow> bool \<Rightarrow> usize" where
  "idx k flag = word_of_nat (2 * k + of_bool flag)"

lemmas inj_consts [simp] = LAP_def BLOCK_CAP_def SHIFT_def HAS_NEXT_def WRITE_def READ_def DESTROY_def

lemma tk_Suc: "n mod 31 < 30 \<Longrightarrow> tk (Suc n) = tk n + 1"
  by (simp add: tk_def div_Suc mod_Suc)

lemma tk_Suc_wrap: "n mod 31 = 30 \<Longrightarrow> tk (Suc n) = tk n + 2"
  by (simp add: tk_def div_Suc mod_Suc)

lemma tk_less: "m < n \<Longrightarrow> tk m < tk n"
  by (simp add: tk_def add_less_le_mono div_le_mono)

lemma tk_eq [simp]: "tk m = tk n \<longleftrightarrow> m = n"
  by (metis nat_neq_iff tk_less)

lemma tk_mod: "tk n mod 32 = n mod 31"
proof -
  have "tk n = 32 * (n div 31) + n mod 31" by (simp add: tk_def)
  then show ?thesis by simp
qed

lemma tk_div: "tk n div 32 = n div 31"
proof -
  have "tk n = 32 * (n div 31) + n mod 31" by (simp add: tk_def)
  then show ?thesis by simp
qed

lemma unat_idx: "k < 2 ^ 63 \<Longrightarrow> unat (idx k f) = 2 * k + of_bool f"
  unfolding idx_def by (subst unat_of_nat) (cases f; simp)

lemma ticket_idx [simp]: "k < 2 ^ 63 \<Longrightarrow> ticket (idx k f) = k"
proof -
  assume "k < 2 ^ 63"
  moreover have "ticket (idx k f) = unat (idx k f) div 2"
    by (simp add: ticket_def drop_bit_Suc unat_div)
  ultimately show ?thesis by (simp add: unat_idx)
qed

lemma idx_plus [simp]: "idx k f + 2 = idx (Suc k) f"
  by (simp add: idx_def)

lemma checked_plus_idx: "k < 2 ^ 63 - 1 \<Longrightarrow> checked_plus (idx k f) 2 = Inr (idx (Suc k) f)"
  by (simp add: checked_plus_def unat_idx)

lemma even_idx: "even (idx k f) \<longleftrightarrow> \<not> f"
  by (simp add: idx_def)

lemma idx_and_1: "idx k f AND 1 = 0 \<longleftrightarrow> \<not> f"
  by (simp add: and_one_eq even_idx mod_2_eq_odd)

lemma idx_or_1: "idx k f OR 1 = idx k True"
  by (simp add: or_one_eq even_idx) (simp add: idx_def)

lemma idx_div_2: "k < 2 ^ 63 \<Longrightarrow> idx k f div 2 = word_of_nat k"
proof -
  assume k: "k < 2 ^ 63"
  have "unat (idx k f div 2) = k" using k by (simp add: unat_div unat_idx)
  then show ?thesis by (metis of_nat_unat ucast_id)
qed

lemma idx_and_not_1: "k < 2 ^ 63 \<Longrightarrow> idx k f AND NOT 1 = idx k False"
proof -
  assume k: "k < 2 ^ 63"
  have "idx k f AND NOT 1 = 2 * (idx k f div 2)"
    using unset_bit_eq_and_not [of 0 "idx k f"] unset_bit_0 [of "idx k f"] by simp
  then show ?thesis by (simp only: idx_div_2 [OF k]) (simp add: idx_def)
qed

section \<open>What the injector holds\<close>

text \<open>
  After \<open>h\<close> pops and \<open>h + length xs\<close> pushes, the item that was pushed as number \<open>n\<close> has slot
  \<open>n mod 31\<close> of block \<open>n div 31\<close>. The blocks from the head's to the tail's are linked and
  allocated, \<open>addr\<close> says where; everything else has been freed. While a push prepares the
  block after the tail's, there is one more block, \<open>extra\<close>.
\<close>

definition slot_at :: "nat \<Rightarrow> 'a list \<Rightarrow> nat \<Rightarrow> 'a inj_slot" where
  "slot_at h xs n =
     (if n < h then \<lparr>slot_value = None, slot_state = 3\<rparr>
      else if n - h < length xs then \<lparr>slot_value = Some (xs ! (n - h)), slot_state = 1\<rparr>
      else \<lparr>slot_value = None, slot_state = 0\<rparr>)"

definition block_at :: "nat \<Rightarrow> 'a list \<Rightarrow> (nat \<Rightarrow> nat) \<Rightarrow> nat \<Rightarrow> 'a inj_block" where
  "block_at h xs addr b =
     \<lparr>block_next = (if b < (h + length xs) div 31 then Some (addr (Suc b)) else None),
      block_slots = map (\<lambda>j. slot_at h xs (31 * b + j)) [0..<31]\<rparr>"

definition live_blocks :: "nat \<Rightarrow> 'a list \<Rightarrow> nat set" where
  "live_blocks h xs = {h div 31..(h + length xs) div 31}"

definition inj_limit :: nat where
  "inj_limit = 2 ^ 61"

definition inj_linked :: "'a injector \<Rightarrow> nat \<Rightarrow> 'a list \<Rightarrow> (nat \<Rightarrow> nat) \<Rightarrow> nat option \<Rightarrow> bool" where
  "inj_linked q h xs addr extra \<longleftrightarrow>
     h + length xs \<le> inj_limit \<and>
     (\<exists>flag. pos_index (inj_head q) = idx (tk h) flag \<and> (flag \<longrightarrow> h div 31 < (h + length xs) div 31)) \<and>
     pos_index (inj_tail q) = idx (tk (h + length xs)) False \<and>
     pos_block (inj_head q) = Some (addr (h div 31)) \<and>
     pos_block (inj_tail q) = Some (addr ((h + length xs) div 31)) \<and>
     inj_on addr (live_blocks h xs) \<and>
     (\<forall>b \<in> live_blocks h xs. inj_heap q (addr b) = Some (block_at h xs addr b) \<and> addr b < inj_brk q) \<and>
     (\<forall>e. extra = Some e \<longrightarrow> inj_heap q e = Some block_new \<and> e < inj_brk q \<and> e \<notin> addr ` live_blocks h xs) \<and>
     (\<forall>a. a \<notin> addr ` live_blocks h xs \<and> extra \<noteq> Some a \<longrightarrow> inj_heap q a = None)"

definition inj_rep :: "'a injector \<Rightarrow> nat \<Rightarrow> 'a list \<Rightarrow> bool" where
  "inj_rep q h xs \<longleftrightarrow>
     (h = 0 \<and> xs = [] \<and> pos_index (inj_head q) = 0 \<and> pos_index (inj_tail q) = 0 \<and>
        pos_block (inj_head q) = None \<and> pos_block (inj_tail q) = None \<and> inj_heap q = (\<lambda>_. None)) \<or>
     (\<exists>addr. inj_linked q h xs addr None)"

lemma inj_linkedD:
  assumes "inj_linked q h xs addr extra"
  shows "h + length xs \<le> inj_limit"
    and "\<exists>flag. pos_index (inj_head q) = idx (tk h) flag \<and> (flag \<longrightarrow> h div 31 < (h + length xs) div 31)"
    and "pos_index (inj_tail q) = idx (tk (h + length xs)) False"
    and "pos_block (inj_head q) = Some (addr (h div 31))"
    and "pos_block (inj_tail q) = Some (addr ((h + length xs) div 31))"
    and "inj_on addr (live_blocks h xs)"
    and "b \<in> live_blocks h xs \<Longrightarrow> inj_heap q (addr b) = Some (block_at h xs addr b)"
    and "b \<in> live_blocks h xs \<Longrightarrow> addr b < inj_brk q"
    and "extra = Some e \<Longrightarrow> inj_heap q e = Some block_new \<and> e < inj_brk q \<and> e \<notin> addr ` live_blocks h xs"
    and "a \<notin> addr ` live_blocks h xs \<Longrightarrow> extra \<noteq> Some a \<Longrightarrow> inj_heap q a = None"
  using assms unfolding inj_linked_def by blast+

lemma tk_small: "n \<le> inj_limit \<Longrightarrow> tk n < 2 ^ 62"
  by (simp add: tk_def inj_limit_def)

lemma tail_block_live [simp]: "(h + length xs) div 31 \<in> live_blocks h xs"
  by (simp add: live_blocks_def div_le_mono)

lemma head_block_live [simp]: "h div 31 \<in> live_blocks h xs"
  by (simp add: live_blocks_def div_le_mono)

lemma offset_idx: "k < 2 ^ 63 \<Longrightarrow> offset_of (idx k f) = k mod 32"
  by (simp add: offset_of_def)

lemma length_block_at [simp]: "length (block_slots (block_at h xs addr b)) = 31"
  by (simp add: block_at_def)

lemma get_slot_at: "j < 31 \<Longrightarrow> get_slot (block_at h xs addr b) j = Inr (slot_at h xs (31 * b + j))"
  by (simp add: get_slot_def block_at_def)

lemma block_new_at: "h + length xs \<le> 31 * b \<Longrightarrow> b = (h + length xs) div 31 \<or> \<not> b < (h + length xs) div 31 \<Longrightarrow>
    block_at h xs addr b = block_new"
  by (auto simp: block_at_def block_new_def slot_at_def map_replicate_trivial intro!: nth_equalityI)

lemma inj_new_rep: "inj_rep inj_new 0 []"
  by (simp add: inj_rep_def inj_new_def)

subsection \<open>Push\<close>

text \<open>Installing the first block leads from the initial state to a linked one.\<close>

lemma inj_install_first:
  assumes "pos_index (inj_head q) = 0" "pos_index (inj_tail q) = 0" "pos_block (inj_head q) = None"
    "pos_block (inj_tail q) = None" "inj_heap q = (\<lambda>_. None)"
  shows "\<exists>q' a. inj_install None q = (Inr a, q') \<and> pos_index (inj_tail q') = 0 \<and> inj_linked q' 0 [] (\<lambda>_. a) None"
proof -
  have "block_at 0 [] (\<lambda>_. inj_brk q) 0 = (block_new :: 'a inj_block)" by (rule block_new_at) simp_all
  then show ?thesis
    using assms by (auto simp: inj_install_def inj_alloc_def Let_def inj_linked_def live_blocks_def tk_def idx_def inj_limit_def)
qed

lemma slot_at_snoc: "slot_at h (xs @ [x]) n = (if n = h + length xs then \<lparr>slot_value = Some x, slot_state = 1\<rparr> else slot_at h xs n)"
  by (auto simp: slot_at_def nth_append)

lemma block_pos: "j < 31 \<Longrightarrow> 31 * b + j = n \<longleftrightarrow> b = n div 31 \<and> j = n mod (31::nat)"
  by auto

lemma block_slots_snoc:
  "block_slots (block_at h (xs @ [x]) addr b) =
     (if b = (h + length xs) div 31
      then (block_slots (block_at h xs addr b))[(h + length xs) mod 31 := \<lparr>slot_value = Some x, slot_state = 1\<rparr>]
      else block_slots (block_at h xs addr b))"
  by (rule nth_equalityI)
     (auto simp: block_at_def slot_at_snoc block_pos nth_list_update)

lemma slot_at_free: "h + length xs \<le> n \<Longrightarrow> slot_at h xs n = \<lparr>slot_value = None, slot_state = 0\<rparr>"
  by (simp add: slot_at_def)

text \<open>A block that does not change but for the slot of the new item.\<close>

lemma block_at_snoc:
  assumes "(h + length (xs @ [x])) div 31 = (h + length xs) div 31"
  shows "block_at h (xs @ [x]) addr b =
    (if b = (h + length xs) div 31
     then set_slot (block_at h xs addr b) ((h + length xs) mod 31) \<lparr>slot_value = Some x, slot_state = 1\<rparr>
     else block_at h xs addr b)"
proof (rule inj_block.equality)
  show "block_next (block_at h (xs @ [x]) addr b) = block_next (if b = (h + length xs) div 31
     then set_slot (block_at h xs addr b) ((h + length xs) mod 31) \<lparr>slot_value = Some x, slot_state = 1\<rparr>
     else block_at h xs addr b)"
    using assms by (simp add: block_at_def set_slot_def)
  show "block_slots (block_at h (xs @ [x]) addr b) = block_slots (if b = (h + length xs) div 31
     then set_slot (block_at h xs addr b) ((h + length xs) mod 31) \<lparr>slot_value = Some x, slot_state = 1\<rparr>
     else block_at h xs addr b)"
    by (simp add: block_slots_snoc set_slot_def)
qed simp

lemma inj_push_slot_inner:
  assumes L: "inj_linked q h xs addr None" and room: "(h + length xs) mod 31 < 30" and lim: "h + length xs < inj_limit"
  defines "t \<equiv> h + length xs"
  shows "\<exists>q'. inj_push_slot (idx (tk (Suc t)) False) (t mod 31) (addr (t div 31)) None x
      (q\<lparr>inj_tail := (inj_tail q)\<lparr>pos_index := idx (tk (Suc t)) False\<rparr>\<rparr>) = Inr q' \<and>
      inj_linked q' h (xs @ [x]) addr None"
proof -
  note D = inj_linkedD [OF L]
  have d: "Suc t div 31 = t div 31" using room by (simp add: t_def div_Suc mod_Suc)
  have live: "live_blocks h (xs @ [x]) = live_blocks h xs" using d by (simp add: live_blocks_def t_def)
  have heap: "inj_heap q (addr (t div 31)) = Some (block_at h xs addr (t div 31))" using D(7) by (simp add: t_def)
  have sl: "get_slot (block_at h xs addr (t div 31)) (t mod 31) = Inr \<lparr>slot_value = None, slot_state = 0\<rparr>"
    by (simp add: get_slot_at slot_at_free t_def)
  define q' where "q' = q\<lparr>inj_tail := (inj_tail q)\<lparr>pos_index := idx (tk (Suc t)) False\<rparr>,
      inj_heap := (inj_heap q)(addr (t div 31) \<mapsto> set_slot (block_at h xs addr (t div 31)) (t mod 31) \<lparr>slot_value = Some x, slot_state = 1\<rparr>)\<rparr>"
  have "inj_push_slot (idx (tk (Suc t)) False) (t mod 31) (addr (t div 31)) None x
      (q\<lparr>inj_tail := (inj_tail q)\<lparr>pos_index := idx (tk (Suc t)) False\<rparr>\<rparr>) = Inr q'"
    using room heap sl by (simp add: inj_push_slot_def deref_def set_block_def q'_def t_def Let_def)
  moreover have "inj_linked q' h (xs @ [x]) addr None"
    unfolding inj_linked_def live
  proof (intro conjI)
    show "h + length (xs @ [x]) \<le> inj_limit" using lim by simp
    show "\<exists>flag. pos_index (inj_head q') = idx (tk h) flag \<and> (flag \<longrightarrow> h div 31 < (h + length (xs @ [x])) div 31)"
      using D(2) d by (auto simp: q'_def t_def)
    show "pos_index (inj_tail q') = idx (tk (h + length (xs @ [x]))) False" by (simp add: q'_def t_def)
    show "pos_block (inj_head q') = Some (addr (h div 31))" using D(4) by (simp add: q'_def)
    show "pos_block (inj_tail q') = Some (addr ((h + length (xs @ [x])) div 31))" using D(5) d by (simp add: q'_def t_def)
    show "inj_on addr (live_blocks h xs)" by (rule D(6))
    have "(h + length (xs @ [x])) div 31 = (h + length xs) div 31" using d by (simp add: t_def)
    note snoc = block_at_snoc [OF this]
    show "\<forall>b\<in>live_blocks h xs. inj_heap q' (addr b) = Some (block_at h (xs @ [x]) addr b) \<and> addr b < inj_brk q'"
    proof
      fix b assume b: "b \<in> live_blocks h xs"
      have "addr b = addr (t div 31) \<longleftrightarrow> b = t div 31"
        using inj_on_eq_iff [OF D(6) b] tail_block_live [of h xs] by (simp add: t_def)
      then show "inj_heap q' (addr b) = Some (block_at h (xs @ [x]) addr b) \<and> addr b < inj_brk q'"
        using D(7,8) [OF b] unfolding snoc by (simp add: q'_def t_def)
    qed
    show "\<forall>a. a \<notin> addr ` live_blocks h xs \<and> None \<noteq> Some a \<longrightarrow> inj_heap q' a = None"
      using D(10) tail_block_live [of h xs] by (auto simp: q'_def t_def simp del: tail_block_live)
  qed simp
  ultimately show ?thesis by blast
qed

lemma inj_push_slot_last:
  assumes L: "inj_linked q h xs addr (Some e)" and last: "(h + length xs) mod 31 = 30" and lim: "h + length xs < inj_limit"
  defines "t \<equiv> h + length xs"
  shows "\<exists>q' addr'. inj_push_slot (idx (Suc (tk t)) False) (t mod 31) (addr (t div 31)) (Some e) x
      (q\<lparr>inj_tail := (inj_tail q)\<lparr>pos_index := idx (Suc (tk t)) False\<rparr>\<rparr>) = Inr q' \<and>
      inj_linked q' h (xs @ [x]) addr' None"
proof -
  note D = inj_linkedD [OF L]
  define b where "b = t div 31"
  define addr' where "addr' = addr(Suc b := e)"
  have e: "inj_heap q e = Some block_new" "e < inj_brk q" "e \<notin> addr ` live_blocks h xs" using D(9) by simp_all
  have hb: "h div 31 \<le> b" by (simp add: b_def t_def div_le_mono)
  have d: "Suc t div 31 = Suc b" using last by (simp add: t_def b_def div_Suc mod_Suc)
  have tk': "tk (Suc t) = Suc (Suc (tk t))" using tk_Suc_wrap [of t] last by (simp add: t_def)
  have blive: "b \<in> live_blocks h xs" by (simp add: b_def t_def)
  have live: "live_blocks h (xs @ [x]) = insert (Suc b) (live_blocks h xs)"
    using d hb by (auto simp: live_blocks_def t_def b_def)
  have notin: "Suc b \<notin> live_blocks h xs" by (simp add: live_blocks_def b_def t_def)
  have heap: "inj_heap q (addr b) = Some (block_at h xs addr b)" by (rule D(7) [OF blive])
  have sl: "get_slot (block_at h xs addr b\<lparr>block_next := Some e\<rparr>) 30 = Inr \<lparr>slot_value = None, slot_state = 0\<rparr>"
    using get_slot_at [of 30 h xs addr b] slot_at_free [of h xs "31 * b + 30"] last
    by (simp add: get_slot_def b_def t_def)
  define B where "B = (block_at h xs addr b)\<lparr>block_next := Some e, block_slots := (block_slots (block_at h xs addr b))[30 := \<lparr>slot_value = Some x, slot_state = 1\<rparr>]\<rparr>"
  define q' where "q' = q\<lparr>inj_tail := \<lparr>pos_index = idx (tk (Suc t)) False, pos_block = Some e\<rparr>,
      inj_heap := (inj_heap q)(addr b \<mapsto> B)\<rparr>"
  have "inj_push_slot (idx (Suc (tk t)) False) (t mod 31) (addr (t div 31)) (Some e) x
      (q\<lparr>inj_tail := (inj_tail q)\<lparr>pos_index := idx (Suc (tk t)) False\<rparr>\<rparr>) = Inr q'"
    using last heap sl tk'
    by (simp add: inj_push_slot_def deref_def set_block_def set_slot_def q'_def t_def b_def B_def Let_def)
  moreover have "inj_linked q' h (xs @ [x]) addr' None"
    unfolding inj_linked_def live
  proof (intro conjI)
    show "h + length (xs @ [x]) \<le> inj_limit" using lim by simp
    show "\<exists>flag. pos_index (inj_head q') = idx (tk h) flag \<and> (flag \<longrightarrow> h div 31 < (h + length (xs @ [x])) div 31)"
      using D(2) d by (auto simp: q'_def t_def b_def)
    show "pos_index (inj_tail q') = idx (tk (h + length (xs @ [x]))) False" by (simp add: q'_def t_def)
    show "pos_block (inj_head q') = Some (addr' (h div 31))" using D(4) hb by (simp add: q'_def addr'_def)
    show "pos_block (inj_tail q') = Some (addr' ((h + length (xs @ [x])) div 31))" using d by (simp add: q'_def addr'_def t_def)
    show "inj_on addr' (insert (Suc b) (live_blocks h xs))"
      using D(6) e(3) notin by (auto simp: addr'_def inj_on_def)
    show "\<forall>i\<in>insert (Suc b) (live_blocks h xs). inj_heap q' (addr' i) = Some (block_at h (xs @ [x]) addr' i) \<and> addr' i < inj_brk q'"
    proof
      fix i assume i: "i \<in> insert (Suc b) (live_blocks h xs)"
      show "inj_heap q' (addr' i) = Some (block_at h (xs @ [x]) addr' i) \<and> addr' i < inj_brk q'"
      proof (cases "i = Suc b")
        case True
        have "block_at h (xs @ [x]) addr' (Suc b) = block_new"
          by (rule block_new_at) (use d last in \<open>simp_all add: t_def b_def\<close>)
        moreover have "e \<noteq> addr b" using e(3) blive by auto
        ultimately show ?thesis using True e by (simp add: q'_def addr'_def)
      next
        case False
        then have il: "i \<in> live_blocks h xs" using i by simp
        then have ib: "i \<le> b" by (simp add: live_blocks_def b_def t_def)
        have eq: "addr i = addr b \<longleftrightarrow> i = b" using inj_on_eq_iff [OF D(6) il blive] .
        have "block_at h (xs @ [x]) addr' i = (if i = b then B else block_at h xs addr i)"
          by (rule inj_block.equality)
             (use ib d last block_slots_snoc [of h xs x addr' i] in
               \<open>auto simp: block_at_def B_def addr'_def t_def b_def\<close>)
        with False il eq D(7,8) [OF il] show ?thesis by (simp add: q'_def addr'_def)
      qed
    qed
    show "\<forall>a. a \<notin> addr' ` insert (Suc b) (live_blocks h xs) \<and> None \<noteq> Some a \<longrightarrow> inj_heap q' a = None"
    proof (intro allI impI)
      fix a assume a: "a \<notin> addr' ` insert (Suc b) (live_blocks h xs) \<and> None \<noteq> Some a"
      then have "a \<noteq> e" by (auto simp: addr'_def)
      moreover have "a \<notin> addr ` live_blocks h xs" using a notin by (auto simp: addr'_def image_iff split: if_splits)
      moreover from this have "a \<noteq> addr b" using blive by auto
      ultimately show "inj_heap q' a = None" using D(10) [of a] by (simp add: q'_def)
    qed
  qed simp
  ultimately show ?thesis by blast
qed

text \<open>Preparing the next block.\<close>

lemma inj_alloc_linked:
  assumes L: "inj_linked q h xs addr None"
  shows "\<exists>e q'. inj_alloc q = (e, q') \<and> inj_linked q' h xs addr (Some e) \<and> inj_tail q' = inj_tail q"
proof -
  note D = inj_linkedD [OF L]
  have fresh: "inj_brk q \<notin> addr ` live_blocks h xs" using D(8) by fastforce
  then have ne: "b \<in> live_blocks h xs \<Longrightarrow> addr b \<noteq> inj_brk q" for b by (metis imageI)
  show ?thesis
    using assms D(8) fresh ne unfolding inj_linked_def inj_alloc_def by (auto simp: less_Suc_eq)
qed


lemma inj_push_prepare:
  assumes L: "inj_linked q h xs addr extra" and x: "extra \<noteq> None \<longrightarrow> (h + length xs) mod 31 = 30"
  shows "\<exists>extra' q1. (if (h + length xs) mod 31 + 1 = BLOCK_CAP \<and> extra = None
      then let (a, q') = inj_alloc q in (Some a, q') else (extra, q)) = (extra', q1) \<and>
      inj_linked q1 h xs addr extra' \<and> inj_tail q1 = inj_tail q \<and> (extra' \<noteq> None \<longleftrightarrow> (h + length xs) mod 31 = 30)"
proof (cases "(h + length xs) mod 31 = 30 \<and> extra = None")
  case True
  then obtain e q' where "inj_alloc q = (e, q')" "inj_linked q' h xs addr (Some e)" "inj_tail q' = inj_tail q"
    using inj_alloc_linked L by blast
  with True show ?thesis by simp
next
  case False
  then show ?thesis using L x by auto
qed

lemma inj_push_iteration:
  assumes L: "inj_linked q h xs addr extra" and x: "extra \<noteq> None \<longrightarrow> (h + length xs) mod 31 = 30"
    and lim: "h + length xs < inj_limit"
  shows "\<exists>extra' q1. inj_linked q1 h xs addr extra' \<and> (extra' \<noteq> None \<longrightarrow> (h + length xs) mod 31 = 30) \<and>
     inj_push_loop fails (pos_index (inj_tail q)) (pos_block (inj_tail q)) extra v q =
       (if fails = 0
        then inj_push_slot (idx (Suc (tk (h + length xs))) False) ((h + length xs) mod 31) (addr ((h + length xs) div 31)) extra' v
               (q1\<lparr>inj_tail := (inj_tail q1)\<lparr>pos_index := idx (Suc (tk (h + length xs))) False\<rparr>\<rparr>)
        else inj_push_loop (fails - 1) (pos_index (inj_tail q1)) (pos_block (inj_tail q1)) extra' v q1) \<and>
     (extra' \<noteq> None \<longleftrightarrow> (h + length xs) mod 31 = 30)"
proof -
  define t where "t = h + length xs"
  obtain extra' q1 where e: "(if t mod 31 + 1 = BLOCK_CAP \<and> extra = None
      then let (a, q') = inj_alloc q in (Some a, q') else (extra, q)) = (extra', q1)"
    and L1: "inj_linked q1 h xs addr extra'" and tl: "inj_tail q1 = inj_tail q" and m: "extra' \<noteq> None \<longleftrightarrow> t mod 31 = 30"
    using inj_push_prepare [OF L x] unfolding t_def by blast
  have small: "tk t < 2 ^ 62" using tk_small lim by (simp add: t_def)
  have ix: "pos_index (inj_tail q) = idx (tk t) False" "pos_block (inj_tail q) = Some (addr (t div 31))"
    using inj_linkedD(3,5) [OF L] by (simp_all add: t_def)
  have off: "offset_of (pos_index (inj_tail q)) = t mod 31" using small by (simp add: ix offset_idx tk_mod)
  have plus: "checked_plus (pos_index (inj_tail q)) 2 = Inr (idx (Suc (tk t)) False)"
    using small by (simp add: ix checked_plus_idx)
  have ne: "t mod 31 \<noteq> BLOCK_CAP" by (simp add: less_imp_neq)
  have "inj_push_loop fails (pos_index (inj_tail q)) (pos_block (inj_tail q)) extra v q =
       (if fails = 0
        then inj_push_slot (idx (Suc (tk t)) False) (t mod 31) (addr (t div 31)) extra' v
               (q1\<lparr>inj_tail := (inj_tail q1)\<lparr>pos_index := idx (Suc (tk t)) False\<rparr>\<rparr>)
        else inj_push_loop (fails - 1) (pos_index (inj_tail q1)) (pos_block (inj_tail q1)) extra' v q1)"
    by (subst inj_push_loop.simps) (use e off plus ne tl ix in \<open>simp add: inj_install_def Let_def\<close>)
  with L1 m show ?thesis unfolding t_def by blast
qed

lemma inj_push_loop_ok:
  assumes "inj_linked q h xs addr extra" "extra \<noteq> None \<longrightarrow> (h + length xs) mod 31 = 30" "h + length xs < inj_limit"
  shows "\<exists>q' addr'. inj_push_loop fails (pos_index (inj_tail q)) (pos_block (inj_tail q)) extra x q = Inr q' \<and>
    inj_linked q' h (xs @ [x]) addr' None"
  using assms
proof (induction fails arbitrary: q extra)
  case 0
  obtain extra' q1 where it: "inj_linked q1 h xs addr extra'"
    "inj_push_loop 0 (pos_index (inj_tail q)) (pos_block (inj_tail q)) extra x q =
       inj_push_slot (idx (Suc (tk (h + length xs))) False) ((h + length xs) mod 31) (addr ((h + length xs) div 31)) extra' x
               (q1\<lparr>inj_tail := (inj_tail q1)\<lparr>pos_index := idx (Suc (tk (h + length xs))) False\<rparr>\<rparr>)"
    "extra' \<noteq> None \<longleftrightarrow> (h + length xs) mod 31 = 30"
    using inj_push_iteration [OF 0, of 0 x] by auto
  show ?case
  proof (cases extra')
    case None
    have lt: "(h + length xs) mod 31 < 31" by simp
    then have room: "(h + length xs) mod 31 < 30" using it(3) None by linarith
    show ?thesis
      using inj_push_slot_inner [OF it(1) [unfolded None] room 0(3), of x] it(2) tk_Suc [OF room] None by auto
  next
    case (Some e)
    then show ?thesis using inj_push_slot_last [OF it(1) [unfolded Some] _ 0(3), of x] it(2,3) by auto
  qed
next
  case (Suc fails)
  obtain extra' q1 where it: "inj_linked q1 h xs addr extra'" "extra' \<noteq> None \<longrightarrow> (h + length xs) mod 31 = 30"
    "inj_push_loop (Suc fails) (pos_index (inj_tail q)) (pos_block (inj_tail q)) extra x q =
       inj_push_loop fails (pos_index (inj_tail q1)) (pos_block (inj_tail q1)) extra' x q1"
    using inj_push_iteration [OF Suc.prems, of "Suc fails" x] by auto
  from Suc.IH [OF it(1,2) Suc.prems(3)] it(3) show ?case by simp
qed

lemma inj_install_Some: "inj_install (Some a) q = (Inr a, q)"
  by (simp add: inj_install_def)

lemma inj_push_first:
  assumes "pos_index (inj_head q) = 0" "pos_index (inj_tail q) = 0" "pos_block (inj_head q) = None"
    "pos_block (inj_tail q) = None" "inj_heap q = (\<lambda>_. None)"
  shows "\<exists>q' addr. inj_push fails q x = Inr q' \<and> inj_linked q' 0 [x] addr None"
proof -
  obtain q1 a where i: "inj_install None q = (Inr a, q1)" "pos_index (inj_tail q1) = 0" and L: "inj_linked q1 0 [] (\<lambda>_. a) None"
    using inj_install_first [OF assms] by blast
  have tb: "pos_block (inj_tail q1) = Some a" using inj_linkedD(5) [OF L] by simp
  have "inj_push fails q x = inj_push_loop fails (pos_index (inj_tail q1)) (pos_block (inj_tail q1)) None x q1"
    unfolding inj_push_def
    by (subst (1 2) inj_push_loop.simps) (simp add: assms i tb inj_install_Some offset_of_def ticket_def)
  with inj_push_loop_ok [OF L, of fails x] show ?thesis by (auto simp: inj_limit_def)
qed

lemma inj_push_ok:
  assumes "inj_rep q h xs" "h + length xs < inj_limit"
  shows "\<exists>q'. inj_push fails q x = Inr q' \<and> inj_rep q' h (xs @ [x])"
proof (cases "\<exists>addr. inj_linked q h xs addr None")
  case True
  then obtain addr where "inj_linked q h xs addr None" by blast
  from inj_push_loop_ok [OF this _ assms(2), of fails x] show ?thesis
    by (auto simp: inj_push_def inj_rep_def)
next
  case False
  then show ?thesis
    using assms(1) inj_push_first [of q fails x] unfolding inj_rep_def by auto
qed

subsection \<open>Pop\<close>

lemma slot_at_Cons: "slot_at (Suc h) ys n = (if n = h then \<lparr>slot_value = None, slot_state = 3\<rparr> else slot_at h (x # ys) n)"
  by (auto simp: slot_at_def nth_Cons' Suc_diff_Suc)

lemma block_at_Cons:
  "block_at (Suc h) ys addr b =
     (if b = h div 31 then set_slot (block_at h (x # ys) addr b) (h mod 31) \<lparr>slot_value = None, slot_state = 3\<rparr>
      else block_at h (x # ys) addr b)"
proof (rule inj_block.equality)
  show "block_slots (block_at (Suc h) ys addr b) = block_slots (if b = h div 31
     then set_slot (block_at h (x # ys) addr b) (h mod 31) \<lparr>slot_value = None, slot_state = 3\<rparr> else block_at h (x # ys) addr b)"
    by (rule nth_equalityI) (auto simp: block_at_def set_slot_def slot_at_Cons [of h ys _ x] block_pos nth_list_update)
qed (simp_all add: block_at_def set_slot_def)

lemma slot_at_head: "slot_at h (x # ys) h = \<lparr>slot_value = Some x, slot_state = 1\<rparr>"
  by (simp add: slot_at_def)

lemma head_slot: "get_slot (block_at h (x # ys) addr (h div 31)) (h mod 31) = Inr \<lparr>slot_value = Some x, slot_state = 1\<rparr>"
  by (simp add: get_slot_at slot_at_head)

lemma inj_pop_slot_inner:
  assumes L: "inj_linked q h (x # ys) addr None" and room: "h mod 31 < 30"
    and flag: "flag \<longrightarrow> h div 31 < (h + length (x # ys)) div 31"
  shows "\<exists>q'. inj_pop_slot (idx (Suc (tk h)) flag) (h mod 31) (addr (h div 31))
      (q\<lparr>inj_head := (inj_head q)\<lparr>pos_index := idx (Suc (tk h)) flag\<rparr>\<rparr>) = Inr (x, q') \<and>
      inj_linked q' (Suc h) ys addr None"
proof -
  note D = inj_linkedD [OF L]
  have d: "Suc h div 31 = h div 31" using room by (simp add: div_Suc mod_Suc)
  have live: "live_blocks (Suc h) ys = live_blocks h (x # ys)" using d by (simp add: live_blocks_def)
  have heap: "inj_heap q (addr (h div 31)) = Some (block_at h (x # ys) addr (h div 31))" using D(7) by simp
  define q' where "q' = q\<lparr>inj_head := (inj_head q)\<lparr>pos_index := idx (Suc (tk h)) flag\<rparr>,
      inj_heap := (inj_heap q)(addr (h div 31) \<mapsto>
        set_slot (block_at h (x # ys) addr (h div 31)) (h mod 31) \<lparr>slot_value = None, slot_state = 3\<rparr>)\<rparr>"
  have "inj_pop_slot (idx (Suc (tk h)) flag) (h mod 31) (addr (h div 31))
      (q\<lparr>inj_head := (inj_head q)\<lparr>pos_index := idx (Suc (tk h)) flag\<rparr>\<rparr>) = Inr (x, q')"
    using room heap by (simp add: inj_pop_slot_def deref_def set_block_def head_slot q'_def Let_def)
  moreover have "inj_linked q' (Suc h) ys addr None"
    unfolding inj_linked_def live
  proof (intro conjI)
    show "Suc h + length ys \<le> inj_limit" using D(1) by simp
    show "\<exists>flag. pos_index (inj_head q') = idx (tk (Suc h)) flag \<and> (flag \<longrightarrow> Suc h div 31 < (Suc h + length ys) div 31)"
      using flag d tk_Suc [OF room] by (auto simp: q'_def)
    show "pos_index (inj_tail q') = idx (tk (Suc h + length ys)) False" using D(3) by (simp add: q'_def)
    show "pos_block (inj_head q') = Some (addr (Suc h div 31))" using D(4) d by (simp add: q'_def)
    show "pos_block (inj_tail q') = Some (addr ((Suc h + length ys) div 31))" using D(5) by (simp add: q'_def)
    show "inj_on addr (live_blocks h (x # ys))" by (rule D(6))
    show "\<forall>b\<in>live_blocks h (x # ys). inj_heap q' (addr b) = Some (block_at (Suc h) ys addr b) \<and> addr b < inj_brk q'"
    proof
      fix b assume b: "b \<in> live_blocks h (x # ys)"
      have "addr b = addr (h div 31) \<longleftrightarrow> b = h div 31" using inj_on_eq_iff [OF D(6) b head_block_live] .
      then show "inj_heap q' (addr b) = Some (block_at (Suc h) ys addr b) \<and> addr b < inj_brk q'"
        using D(7,8) [OF b] unfolding block_at_Cons [of h ys addr b x] by (simp add: q'_def)
    qed
    show "\<forall>a. a \<notin> addr ` live_blocks h (x # ys) \<and> None \<noteq> Some a \<longrightarrow> inj_heap q' a = None"
      using D(10) imageI [OF head_block_live [of h "x # ys"], of addr] by (auto simp: q'_def)
  qed simp
  ultimately show ?thesis by blast
qed

text \<open>Destroying a block all of whose slots have been read frees it.\<close>

lemma inj_destroy_read:
  assumes "inj_heap q a = Some b" "\<forall>i \<in> set is. i < length (block_slots b) \<and> slot_state (block_slots b ! i) AND 2 \<noteq> 0"
  shows "inj_destroy_from a is q = Inr (inj_free q a)"
  using assms by (induction "is") (auto simp: deref_def get_slot_def)

lemma inj_pop_slot_last:
  assumes L: "inj_linked q h (x # ys) addr None" and last: "h mod 31 = 30"
  shows "\<exists>q'. inj_pop_slot (idx (Suc (tk h)) flag) (h mod 31) (addr (h div 31))
      (q\<lparr>inj_head := (inj_head q)\<lparr>pos_index := idx (Suc (tk h)) flag\<rparr>\<rparr>) = Inr (x, q') \<and>
      inj_linked q' (Suc h) ys addr None"
proof -
  note D = inj_linkedD [OF L]
  define b where "b = h div 31"
  define t where "t = h + length (x # ys)"
  have d: "Suc h div 31 = Suc b" using last by (simp add: b_def div_Suc mod_Suc)
  have tk': "tk (Suc h) = Suc (Suc (tk h))" using tk_Suc_wrap last by simp
  have bt: "Suc b \<le> t div 31"
    using div_le_mono [of "Suc h" t 31] d by (simp add: t_def)
  have bl: "b \<in> live_blocks h (x # ys)" "Suc b \<in> live_blocks h (x # ys)"
    using bt by (simp_all add: b_def live_blocks_def t_def)
  have live: "live_blocks (Suc h) ys = live_blocks h (x # ys) - {b}"
    using d bt by (auto simp: live_blocks_def b_def t_def)
  have small: "tk h < 2 ^ 62" using tk_small D(1) by simp
  define f where "f = (Suc b < t div 31)"
  define q1 where "q1 = q\<lparr>inj_head := \<lparr>pos_index = idx (tk (Suc h)) f, pos_block = Some (addr (Suc b))\<rparr>\<rparr>"
  have nb: "block_next (block_at h (x # ys) addr b) = Some (addr (Suc b))"
    "block_next (block_at h (x # ys) addr (Suc b)) \<noteq> None \<longleftrightarrow> f"
    using bt by (simp_all add: block_at_def f_def t_def)
  have "idx (Suc (tk h)) flag AND - 2 = idx (Suc (tk h)) False"
    using idx_and_not_1 [of "Suc (tk h)" flag] small by simp
  then have "inj_advance_head (idx (Suc (tk h)) flag) (addr b) (q\<lparr>inj_head := (inj_head q)\<lparr>pos_index := idx (Suc (tk h)) flag\<rparr>\<rparr>) = Inr q1"
    using D(7) [OF bl(1)] D(7) [OF bl(2)] nb
    by (simp add: inj_advance_head_def deref_def Let_def idx_or_1 q1_def tk' split: if_splits)
  moreover have "get_slot (block_at h (x # ys) addr b) 30 = Inr \<lparr>slot_value = Some x, slot_state = 1\<rparr>"
    using head_slot [of h x ys addr] last by (simp add: b_def)
  moreover define B where "B = set_slot (block_at h (x # ys) addr b) 30 \<lparr>slot_value = None, slot_state = 1\<rparr>"
  moreover have "inj_destroy (addr b) 0 (set_block q1 (addr b) B) = Inr (inj_free (set_block q1 (addr b) B) (addr b))"
    unfolding inj_destroy_def
  proof (rule inj_destroy_read)
    show "inj_heap (set_block q1 (addr b) B) (addr b) = Some B" by (simp add: set_block_def)
    have "31 * b + i < h" if "i < 30" for i using that last by (simp add: b_def) presburger
    then show "\<forall>i \<in> set [0..<BLOCK_CAP - 1]. i < length (block_slots B) \<and> slot_state (block_slots B ! i) AND 2 \<noteq> 0"
      by (auto simp: B_def set_slot_def block_at_def slot_at_def)
  qed
  moreover define q' where "q' = inj_free (set_block q1 (addr b) B) (addr b)"
  ultimately have "inj_pop_slot (idx (Suc (tk h)) flag) (h mod 31) (addr (h div 31))
      (q\<lparr>inj_head := (inj_head q)\<lparr>pos_index := idx (Suc (tk h)) flag\<rparr>\<rparr>) = Inr (x, q')"
    using last D(7) [OF bl(1)] by (simp add: inj_pop_slot_def deref_def q1_def b_def [symmetric] Let_def)
  moreover have "inj_linked q' (Suc h) ys addr None"
    unfolding inj_linked_def live
  proof (intro conjI)
    have q': "inj_head q' = \<lparr>pos_index = idx (tk (Suc h)) f, pos_block = Some (addr (Suc b))\<rparr>" "inj_tail q' = inj_tail q"
      "inj_brk q' = inj_brk q" "inj_heap q' = (inj_heap q)(addr b := None)"
      by (simp_all add: q'_def q1_def inj_free_def set_block_def)
    show "Suc h + length ys \<le> inj_limit" using D(1) by simp
    show "\<exists>flag. pos_index (inj_head q') = idx (tk (Suc h)) flag \<and> (flag \<longrightarrow> Suc h div 31 < (Suc h + length ys) div 31)"
      using d by (auto simp: q' f_def t_def)
    show "pos_index (inj_tail q') = idx (tk (Suc h + length ys)) False" using D(3) by (simp add: q')
    show "pos_block (inj_head q') = Some (addr (Suc h div 31))" using d by (simp add: q')
    show "pos_block (inj_tail q') = Some (addr ((Suc h + length ys) div 31))" using D(5) by (simp add: q')
    show "inj_on addr (live_blocks h (x # ys) - {b})" using D(6) by (rule inj_on_diff)
    show "\<forall>i\<in>live_blocks h (x # ys) - {b}. inj_heap q' (addr i) = Some (block_at (Suc h) ys addr i) \<and> addr i < inj_brk q'"
    proof
      fix i assume i: "i \<in> live_blocks h (x # ys) - {b}"
      then have il: "i \<in> live_blocks h (x # ys)" "i \<noteq> b" by auto
      have "addr i \<noteq> addr b" using inj_on_eq_iff [OF D(6) il(1) bl(1)] il(2) by simp
      then show "inj_heap q' (addr i) = Some (block_at (Suc h) ys addr i) \<and> addr i < inj_brk q'"
        using D(7,8) [OF il(1)] il(2) unfolding block_at_Cons [of h ys addr i x] by (simp add: q' b_def)
    qed
    show "\<forall>a. a \<notin> addr ` (live_blocks h (x # ys) - {b}) \<and> None \<noteq> Some a \<longrightarrow> inj_heap q' a = None"
    proof (intro allI impI)
      fix a assume "a \<notin> addr ` (live_blocks h (x # ys) - {b}) \<and> None \<noteq> Some a"
      then have "a = addr b \<or> a \<notin> addr ` live_blocks h (x # ys)" by auto
      then show "inj_heap q' a = None" using D(10) [of a] by (auto simp: q')
    qed
  qed simp
  ultimately show ?thesis by blast
qed

lemma inj_next_head_eq:
  assumes L: "inj_linked q h xs addr None" and flag: "flag \<longrightarrow> h div 31 < (h + length xs) div 31"
  shows "inj_next_head (idx (tk h) flag) (idx (Suc (tk h)) flag) q =
    (if xs = [] then None else Some (idx (Suc (tk h)) (h div 31 < (h + length xs) div 31)))"
proof -
  note D = inj_linkedD [OF L]
  have small: "tk h < 2 ^ 63" "tk (h + length xs) < 2 ^ 63"
    using tk_small [of h] tk_small [of "h + length xs"] D(1) by simp_all
  have le: "h div 31 \<le> (h + length xs) div 31" by (rule div_le_mono) simp
  then have "h div 31 \<noteq> (h + length xs) div 31 \<longleftrightarrow> h div 31 < (h + length xs) div 31" by auto
  then show ?thesis
    using small flag by (auto simp: inj_next_head_def idx_and_1 D(3) tk_div idx_or_1)
qed

lemma inj_pop_iteration:
  assumes L: "inj_linked q h xs addr None"
  shows "inj_pop_loop fails (pos_index (inj_head q)) (pos_block (inj_head q)) q =
    (if xs = [] then Inr (None, q)
     else if fails = 0
     then rbind (inj_pop_slot (idx (Suc (tk h)) (h div 31 < (h + length xs) div 31)) (h mod 31) (addr (h div 31))
                  (q\<lparr>inj_head := (inj_head q)\<lparr>pos_index := idx (Suc (tk h)) (h div 31 < (h + length xs) div 31)\<rparr>\<rparr>))
                (\<lambda>(value, q'). Inr (Some value, q'))
     else inj_pop_loop (fails - 1) (pos_index (inj_head q)) (pos_block (inj_head q)) q)"
proof -
  note D = inj_linkedD [OF L]
  obtain flag where f: "pos_index (inj_head q) = idx (tk h) flag" "flag \<longrightarrow> h div 31 < (h + length xs) div 31"
    using D(2) by blast
  have small: "tk h < 2 ^ 62" using tk_small [of h] D(1) by simp
  have off: "offset_of (idx (tk h) flag) = h mod 31" using small by (simp add: offset_idx tk_mod)
  have ne: "h mod 31 \<noteq> BLOCK_CAP" by (simp add: less_imp_neq)
  have plus: "checked_plus (idx (tk h) flag) 2 = Inr (idx (Suc (tk h)) flag)" using small by (simp add: checked_plus_idx)
  show ?thesis
    by (subst inj_pop_loop.simps) (use off ne plus inj_next_head_eq [OF L f(2)] D(4) f(1) in \<open>simp add: Let_def\<close>)
qed

lemma inj_pop_loop_ok:
  assumes L: "inj_linked q h (x # ys) addr None"
  shows "\<exists>q'. inj_pop_loop fails (pos_index (inj_head q)) (pos_block (inj_head q)) q = Inr (Some x, q') \<and>
    inj_linked q' (Suc h) ys addr None"
proof (induction fails)
  case 0
  have lt: "h mod 31 < 31" by simp
  show ?case
  proof (cases "h mod 31 = 30")
    case True
    from inj_pop_slot_last [OF L this, of "h div 31 < (h + length (x # ys)) div 31"] show ?thesis
      by (auto simp: inj_pop_iteration [OF L])
  next
    case False
    then have "h mod 31 < 30" using lt by linarith
    from inj_pop_slot_inner [OF L this, of "h div 31 < (h + length (x # ys)) div 31"] show ?thesis
      by (auto simp: inj_pop_iteration [OF L])
  qed
next
  case (Suc fails)
  then show ?case by (simp add: inj_pop_iteration [OF L, of "Suc fails"])
qed

lemma idx_0 [simp]: "idx 0 False = 0"
  by (simp add: idx_def)

lemma inj_pop_initial:
  assumes "pos_index (inj_head q) = 0" "pos_index (inj_tail q) = 0"
  shows "inj_pop fails q = Inr (None, q)"
  unfolding inj_pop_def
  by (subst inj_pop_loop.simps)
     (simp add: assms offset_of_def ticket_def checked_plus_def inj_next_head_def)

lemma inj_pop_empty: "inj_rep q h [] \<Longrightarrow> inj_pop fails q = Inr (None, q)"
  using inj_pop_initial [of q fails] inj_pop_iteration [of q h "[]" _ fails]
  by (auto simp: inj_rep_def inj_pop_def)

lemma inj_pop_ok: "inj_rep q h (x # ys) \<Longrightarrow> \<exists>q'. inj_pop fails q = Inr (Some x, q') \<and> inj_rep q' (Suc h) ys"
  unfolding inj_rep_def inj_pop_def using inj_pop_loop_ok [of q h x ys _ fails] by blast

subsection \<open>Length\<close>

lemma inj_indices:
  assumes "inj_rep q h xs"
  obtains flag where "pos_index (inj_head q) = idx (tk h) flag" "pos_index (inj_tail q) = idx (tk (h + length xs)) False"
    "tk h < 2 ^ 62" "tk (h + length xs) < 2 ^ 62"
proof (cases "\<exists>addr. inj_linked q h xs addr None")
  case True
  then obtain addr where L: "inj_linked q h xs addr None" by blast
  note D = inj_linkedD [OF L]
  show ?thesis using D(2,3) tk_small [of h] tk_small [of "h + length xs"] D(1) that by auto
next
  case False
  then show ?thesis using assms that [of False] by (auto simp: inj_rep_def tk_def)
qed

lemma inj_is_empty_iff: "inj_rep q h xs \<Longrightarrow> inj_is_empty q \<longleftrightarrow> xs = []"
  by (erule inj_indices) (auto simp: inj_is_empty_def)

lemma drop_idx: "k < 2 ^ 63 \<Longrightarrow> drop_bit (Suc 0) (idx k f) = word_of_nat k"
  using idx_div_2 [of k f] by (simp add: drop_bit_Suc)

lemma unat_small64: "k < 2 ^ 63 \<Longrightarrow> unat (word_of_nat k :: usize) = k"
  by (simp add: unat_of_nat)

text \<open>At rest no index is parked on a block boundary.\<close>

lemma index_up_idx: "k < 2 ^ 62 \<Longrightarrow> k mod 32 < 31 \<Longrightarrow> index_up (idx k f) = idx k False"
proof -
  assume k: "k < 2 ^ 62" "k mod 32 < 31"
  have clr: "idx k f AND - 2 = idx k False" using idx_and_not_1 [of k f] k by simp
  have "drop_bit (Suc 0) (idx k False) AND 31 = word_of_nat (k mod 32)"
  proof -
    have "(word_of_nat k :: usize) AND mask 5 = take_bit 5 (word_of_nat k)" by (simp add: take_bit_eq_mask)
    moreover have "(take_bit 5 (word_of_nat k) :: usize) = word_of_nat (k mod 32)"
      by (simp only: take_bit_of_nat) (simp add: take_bit_eq_mod)
    moreover have "(mask 5 :: usize) = 31" by (simp add: mask_eq_exp_minus_1)
    ultimately show ?thesis using k by (simp add: drop_idx)
  qed
  moreover have "(word_of_nat (k mod 32) :: usize) \<noteq> 31"
  proof
    assume "(word_of_nat (k mod 32) :: usize) = 31"
    then have "unat (word_of_nat (k mod 32) :: usize) = 31" by simp
    then show False using k by (simp add: unat_of_nat)
  qed
  ultimately show ?thesis using clr by (simp add: index_up_def Let_def)
qed

lemma idx_minus: "j \<le> k \<Longrightarrow> idx k False - idx j False = idx (k - j) False"
  by (simp add: idx_def of_nat_diff algebra_simps)

lemma word_div_32: "k < 2 ^ 63 \<Longrightarrow> (word_of_nat k :: usize) div 32 = word_of_nat (k div 32)"
proof -
  assume k: "k < 2 ^ 63"
  have "unat ((word_of_nat k :: usize) div 32) = k div 32" using k by (simp add: unat_div unat_small64)
  then show ?thesis by (metis of_nat_unat ucast_id)
qed

lemma checked_minus_nat: "j \<le> k \<Longrightarrow> k < 2 ^ 63 \<Longrightarrow>
    checked_minus (word_of_nat k :: usize) (word_of_nat j) = Inr (word_of_nat (k - j))"
  by (simp add: checked_minus_def word_le_nat_alt unat_small64 of_nat_diff)

lemma tk_split: "tk n = 32 * (n div 31) + n mod 31"
  by (simp add: tk_def)

lemma inj_len_ok:
  assumes r: "inj_rep q h xs"
  shows "inj_len q = Inr (word_of_nat (length xs))"
proof -
  define t where "t = h + length xs"
  obtain flag where f: "pos_index (inj_head q) = idx (tk h) flag" "pos_index (inj_tail q) = idx (tk t) False"
    "tk h < 2 ^ 62" "tk t < 2 ^ 62"
    using r unfolding t_def by (rule inj_indices)
  have dv: "h div 31 \<le> t div 31" by (simp add: t_def div_le_mono)
  define L where "L = 32 * (h div 31)"
  have L: "L \<le> tk h" "tk h - L = h mod 31" "L \<le> tk t" "tk t - L = 32 * (t div 31 - h div 31) + t mod 31"
    using dv by (simp_all add: L_def tk_split [of h] tk_split [of t] algebra_simps)
  have up: "index_up (idx (tk h) flag) = idx (tk h) False" "index_up (idx (tk t) False) = idx (tk t) False"
    using index_up_idx [OF f(3)] index_up_idx [OF f(4)] by (simp_all add: tk_mod)
  have lap: "drop_bit (Suc 0) (idx (tk h) False) div 32 = (word_of_nat (h div 31) :: usize)"
    using f(3) by (simp add: drop_idx word_div_32 tk_div)
  have shift: "64 * (word_of_nat (h div 31) :: usize) = idx L False"
    by (simp add: L_def idx_def)
  have ends: "drop_bit (Suc 0) (idx (tk t) False - idx L False) = word_of_nat (tk t - L)"
    "drop_bit (Suc 0) (idx (tk h) False - idx L False) = word_of_nat (tk h - L)"
    using f(3,4) L(1,3) by (simp_all add: idx_minus drop_idx del: of_nat_diff)
  have m1: "checked_minus (word_of_nat (tk t - L) :: usize) (word_of_nat (tk h - L)) = Inr (word_of_nat (tk t - tk h))"
  proof -
    have "tk h \<le> tk t" using tk_less [of h t] by (cases "xs = []") (simp_all add: t_def less_imp_le)
    then show ?thesis using checked_minus_nat [of "tk h - L" "tk t - L"] f L(1) by (simp add: diff_le_mono)
  qed
  have dd: "(tk t - L) div 32 = t div 31 - h div 31" by (simp add: L(4))
  have "tk t - tk h - (t div 31 - h div 31) = length xs" "t div 31 - h div 31 \<le> tk t - tk h"
    using dv by (simp_all add: tk_def t_def)
  then have m2: "checked_minus (word_of_nat (tk t - tk h) :: usize) (word_of_nat (t div 31 - h div 31)) = Inr (word_of_nat (length xs))"
    using checked_minus_nat [of "t div 31 - h div 31" "tk t - tk h"] f by simp
  have d2: "(word_of_nat (tk t - L) :: usize) div 32 = word_of_nat (t div 31 - h div 31)"
    using f(4) dd by (simp add: word_div_32)
  show ?thesis
    unfolding inj_len_def f by (simp add: up lap shift ends d2 m1 m2 Let_def del: of_nat_diff)
qed

subsection \<open>Drop\<close>

text \<open>
  Half-way through the drop: the items \<open>ys\<close>, the first of which is number \<open>n\<close>, are left, and
  the blocks from that of the first one on.
\<close>

definition inj_walk :: "'a injector \<Rightarrow> nat \<Rightarrow> 'a list \<Rightarrow> (nat \<Rightarrow> nat) \<Rightarrow> bool" where
  "inj_walk q n ys addr \<longleftrightarrow>
     inj_on addr (live_blocks n ys) \<and>
     (\<forall>b \<in> live_blocks n ys. \<exists>B. inj_heap q (addr b) = Some B \<and> length (block_slots B) = 31 \<and>
        block_next B = (if b < (n + length ys) div 31 then Some (addr (Suc b)) else None) \<and>
        (\<forall>j < 31. n \<le> 31 * b + j \<and> 31 * b + j < n + length ys \<longrightarrow>
           slot_value (block_slots B ! j) = Some (ys ! (31 * b + j - n)))) \<and>
     (\<forall>a. a \<notin> addr ` live_blocks n ys \<longrightarrow> inj_heap q a = None)"

lemma inj_linked_walk:
  assumes "inj_linked q h xs addr None"
  shows "inj_walk q h xs addr"
  unfolding inj_walk_def
proof (intro conjI ballI allI impI)
  note D = inj_linkedD [OF assms]
  show "inj_on addr (live_blocks h xs)" by (rule D(6))
  show "inj_heap q a = None" if "a \<notin> addr ` live_blocks h xs" for a using D(10) [OF that] by simp
  fix b assume b: "b \<in> live_blocks h xs"
  show "\<exists>B. inj_heap q (addr b) = Some B \<and> length (block_slots B) = 31 \<and>
        block_next B = (if b < (h + length xs) div 31 then Some (addr (Suc b)) else None) \<and>
        (\<forall>j < 31. h \<le> 31 * b + j \<and> 31 * b + j < h + length xs \<longrightarrow>
           slot_value (block_slots B ! j) = Some (xs ! (31 * b + j - h)))"
    using D(7) [OF b] by (auto simp: block_at_def slot_at_def)
qed

lemma inj_walkE:
  assumes "inj_walk q n ys addr" "b \<in> live_blocks n ys"
  obtains B where "inj_heap q (addr b) = Some B" "length (block_slots B) = 31"
    "block_next B = (if b < (n + length ys) div 31 then Some (addr (Suc b)) else None)"
    "\<And>j. j < 31 \<Longrightarrow> n \<le> 31 * b + j \<Longrightarrow> 31 * b + j < n + length ys \<Longrightarrow>
      slot_value (block_slots B ! j) = Some (ys ! (31 * b + j - n))"
  using assms unfolding inj_walk_def by blast

text \<open>One item: its slot is emptied, and the walk goes on in the same block.\<close>

lemma inj_walk_item:
  assumes W: "inj_walk q n (y # ys) addr" and B: "inj_heap q (addr (n div 31)) = Some B" "length (block_slots B) = 31"
    "block_next B = (if n div 31 < (n + length (y # ys)) div 31 then Some (addr (Suc (n div 31))) else None)"
    "\<And>j. j < 31 \<Longrightarrow> n \<le> 31 * (n div 31) + j \<Longrightarrow> 31 * (n div 31) + j < n + length (y # ys) \<Longrightarrow>
      slot_value (block_slots B ! j) = Some ((y # ys) ! (31 * (n div 31) + j - n))"
    and room: "n mod 31 < 30"
  shows "inj_walk (set_block q (addr (n div 31)) (set_slot B (n mod 31) s)) (Suc n) ys addr"
proof -
  have d: "Suc n div 31 = n div 31" using room by (simp add: div_Suc mod_Suc)
  have live: "live_blocks (Suc n) ys = live_blocks n (y # ys)" using d by (simp add: live_blocks_def)
  have inj: "inj_on addr (live_blocks n (y # ys))" using W by (simp add: inj_walk_def)
  show ?thesis
    unfolding inj_walk_def live
  proof (intro conjI ballI allI impI)
    show "inj_on addr (live_blocks n (y # ys))" by (rule inj)
    show "inj_heap (set_block q (addr (n div 31)) (set_slot B (n mod 31) s)) a = None" if "a \<notin> addr ` live_blocks n (y # ys)" for a
      using W that imageI [OF head_block_live [of n "y # ys"], of addr] by (auto simp: inj_walk_def set_block_def)
    fix b assume b: "b \<in> live_blocks n (y # ys)"
    obtain C where C: "inj_heap q (addr b) = Some C" "length (block_slots C) = 31"
      "block_next C = (if b < (n + length (y # ys)) div 31 then Some (addr (Suc b)) else None)"
      "\<And>j. j < 31 \<Longrightarrow> n \<le> 31 * b + j \<Longrightarrow> 31 * b + j < n + length (y # ys) \<Longrightarrow>
        slot_value (block_slots C ! j) = Some ((y # ys) ! (31 * b + j - n))"
      using W b by (rule inj_walkE) blast
    have eq: "addr b = addr (n div 31) \<longleftrightarrow> b = n div 31" using inj_on_eq_iff [OF inj b head_block_live] .
    have nth: "(y # ys) ! (k - n) = ys ! (k - Suc n)" if "Suc n \<le> k" for k
      using that by (simp add: nth_Cons' )
    define E where "E = (if b = n div 31 then set_slot C (n mod 31) s else C)"
    have "inj_heap (set_block q (addr (n div 31)) (set_slot B (n mod 31) s)) (addr b) = Some E"
      using C(1) B(1) eq by (auto simp: set_block_def E_def)
    moreover have "slot_value (block_slots E ! j) = Some (ys ! (31 * b + j - Suc n))"
      if j: "j < 31" "Suc n \<le> 31 * b + j" "31 * b + j < Suc n + length ys" for j
    proof -
      have "\<not> (b = n div 31 \<and> j = n mod 31)" using j(2) block_pos [of j b n] j(1) by auto
      then have "block_slots E ! j = block_slots C ! j" by (auto simp: E_def set_slot_def)
      then show ?thesis using C(4) [of j] j nth [OF j(2)] by simp
    qed
    ultimately show "\<exists>B'. inj_heap (set_block q (addr (n div 31)) (set_slot B (n mod 31) s)) (addr b) = Some B' \<and> length (block_slots B') = 31 \<and>
        block_next B' = (if b < (Suc n + length ys) div 31 then Some (addr (Suc b)) else None) \<and>
        (\<forall>j < 31. Suc n \<le> 31 * b + j \<and> 31 * b + j < Suc n + length ys \<longrightarrow>
           slot_value (block_slots B' ! j) = Some (ys ! (31 * b + j - Suc n)))"
      using C(2,3) by (intro exI [of _ E]) (auto simp: E_def set_slot_def)
  qed
qed

text \<open>The last item of a block: the walk frees the block and goes to the next one.\<close>

lemma inj_walk_block:
  assumes W: "inj_walk q n (y # ys) addr" and last: "n mod 31 = 30"
    and q': "\<And>a. inj_heap q' a = (if a = addr (n div 31) then None else inj_heap q a)"
  shows "inj_walk q' (Suc n) ys addr"
proof -
  have d: "Suc n div 31 = Suc (n div 31)" using last by (simp add: div_Suc mod_Suc)
  have le: "Suc (n div 31) \<le> (n + length (y # ys)) div 31" using div_le_mono [of "Suc n" "n + length (y # ys)" 31] d by simp
  have live: "live_blocks (Suc n) ys = live_blocks n (y # ys) - {n div 31}" using d le by (auto simp: live_blocks_def)
  have inj: "inj_on addr (live_blocks n (y # ys))" using W by (simp add: inj_walk_def)
  show ?thesis
    unfolding inj_walk_def live
  proof (intro conjI ballI allI impI)
    show "inj_on addr (live_blocks n (y # ys) - {n div 31})" using inj by (rule inj_on_diff)
    show "inj_heap q' a = None" if "a \<notin> addr ` (live_blocks n (y # ys) - {n div 31})" for a
      using W that by (auto simp: inj_walk_def q')
    fix b assume "b \<in> live_blocks n (y # ys) - {n div 31}"
    then have b: "b \<in> live_blocks n (y # ys)" "b \<noteq> n div 31" by auto
    obtain C where C: "inj_heap q (addr b) = Some C" "length (block_slots C) = 31"
      "block_next C = (if b < (n + length (y # ys)) div 31 then Some (addr (Suc b)) else None)"
      "\<And>j. j < 31 \<Longrightarrow> n \<le> 31 * b + j \<Longrightarrow> 31 * b + j < n + length (y # ys) \<Longrightarrow>
        slot_value (block_slots C ! j) = Some ((y # ys) ! (31 * b + j - n))"
      using W b(1) by (rule inj_walkE) blast
    have "addr b \<noteq> addr (n div 31)" using inj_on_eq_iff [OF inj b(1) head_block_live] b(2) by simp
    moreover have "(y # ys) ! (k - n) = ys ! (k - Suc n)" if "Suc n \<le> k" for k
      using that by (simp add: nth_Cons')
    ultimately show "\<exists>B. inj_heap q' (addr b) = Some B \<and> length (block_slots B) = 31 \<and>
        block_next B = (if b < (Suc n + length ys) div 31 then Some (addr (Suc b)) else None) \<and>
        (\<forall>j < 31. Suc n \<le> 31 * b + j \<and> 31 * b + j < Suc n + length ys \<longrightarrow>
           slot_value (block_slots B ! j) = Some (ys ! (31 * b + j - Suc n)))"
      using C by (intro exI [of _ C]) (auto simp: q')
  qed
qed

lemma idx_inject: "idx j False = idx k False \<Longrightarrow> j < 2 ^ 63 \<Longrightarrow> k < 2 ^ 63 \<Longrightarrow> j = k"
  by (drule arg_cong [where f = ticket]) simp

lemma inj_drop_loop_ok:
  assumes "inj_walk q n ys addr" "n + length ys \<le> inj_limit"
  shows "\<exists>q'. inj_drop_loop (tk (n + length ys) - tk n) (idx (tk n) False) (idx (tk (n + length ys)) False) (Some (addr (n div 31))) q
      = Inr (ys, q') \<and> inj_heap q' = (\<lambda>_. None)"
  using assms
proof (induction ys arbitrary: q n)
  case Nil
  then have "inj_heap q a = None" if "a \<noteq> addr (n div 31)" for a
    using that by (auto simp: inj_walk_def live_blocks_def)
  then show ?case by (subst inj_drop_loop.simps) (auto simp: inj_free_def)
next
  case (Cons y ys)
  define t where "t = n + length (y # ys)"
  have small: "tk n < 2 ^ 62" "tk t < 2 ^ 62" using tk_small [of n] tk_small [of t] Cons.prems(2) by (simp_all add: t_def)
  have ne: "idx j False \<noteq> idx (tk t) False" if "j < tk t" for j
    using idx_inject [of j "tk t"] that small by fastforce
  have nt: "tk n < tk t" by (rule tk_less) (simp add: t_def)
  obtain B where B: "inj_heap q (addr (n div 31)) = Some B" "length (block_slots B) = 31"
    "block_next B = (if n div 31 < (n + length (y # ys)) div 31 then Some (addr (Suc (n div 31))) else None)"
    "\<And>j. j < 31 \<Longrightarrow> n \<le> 31 * (n div 31) + j \<Longrightarrow> 31 * (n div 31) + j < n + length (y # ys) \<Longrightarrow>
      slot_value (block_slots B ! j) = Some ((y # ys) ! (31 * (n div 31) + j - n))"
    using Cons.prems(1) head_block_live by (rule inj_walkE) blast
  have off: "offset_of (idx (tk n) False) = n mod 31" using small by (simp add: offset_idx tk_mod)
  have val: "slot_value (block_slots B ! (n mod 31)) = Some y" using B(4) [of "n mod 31"] by simp
  define q1 where "q1 = set_block q (addr (n div 31)) (set_slot B (n mod 31) ((block_slots B ! (n mod 31))\<lparr>slot_value := None\<rparr>))"
  obtain fuel where fuel: "tk t - tk n = Suc fuel" "fuel = tk t - Suc (tk n)" using nt by (metis Suc_diff_Suc)
  have step: "inj_drop_loop (tk t - tk n) (idx (tk n) False) (idx (tk t) False) (Some (addr (n div 31))) q =
      rbind (inj_drop_loop fuel (idx (Suc (tk n)) False) (idx (tk t) False) (Some (addr (n div 31))) q1) (\<lambda>(vs, q'). Inr (y # vs, q'))"
    by (subst inj_drop_loop.simps) (use ne [OF nt] fuel off B(1,2) val in \<open>simp add: deref_def get_slot_def q1_def\<close>)
  have tt: "Suc n + length ys = t" by (simp add: t_def)
  show ?case
  proof (cases "n mod 31 = 30")
    case False
    have "n mod 31 < 31" by simp
    then have room: "n mod 31 < 30" using False by linarith
    have W: "inj_walk q1 (Suc n) ys addr" unfolding q1_def by (rule inj_walk_item [OF Cons.prems(1) B room])
    have "Suc n div 31 = n div 31" using room by (simp add: div_Suc mod_Suc)
    then show ?thesis
      using Cons.IH [OF W] Cons.prems(2) step fuel tk_Suc [OF room] unfolding tt t_def [symmetric] by auto
  next
    case True
    have d: "Suc n div 31 = Suc (n div 31)" using True by (simp add: div_Suc mod_Suc)
    have tk2: "tk (Suc n) = Suc (Suc (tk n))" using tk_Suc_wrap [OF True] by simp
    have le: "tk (Suc n) \<le> tk t" using tk_less [of "Suc n" t] by (cases "Suc n = t") (simp_all add: t_def less_imp_le)
    then obtain fuel' where f': "fuel = Suc fuel'" "fuel' = tk t - tk (Suc n)" using fuel tk2 by (metis Suc_diff_Suc Suc_le_lessD)
    define q2 where "q2 = inj_free q1 (addr (n div 31))"
    define C where "C = set_slot B (n mod 31) ((block_slots B ! (n mod 31))\<lparr>slot_value := None\<rparr>)"
    have C: "inj_heap q1 (addr (n div 31)) = Some C" "block_next C = Some (addr (Suc (n div 31)))"
      using B(3) div_le_mono [of "Suc n" "n + length (y # ys)" 31] d by (auto simp: q1_def set_block_def C_def set_slot_def)
    have off2: "offset_of (idx (Suc (tk n)) False) = 31" using small tk_mod [of n] True by (simp add: offset_idx mod_Suc)
    have s2: "inj_drop_loop fuel (idx (Suc (tk n)) False) (idx (tk t) False) (Some (addr (n div 31))) q1 =
        inj_drop_loop fuel' (idx (tk (Suc n)) False) (idx (tk t) False) (Some (addr (Suc n div 31))) q2"
      by (subst inj_drop_loop.simps) (use ne [of "Suc (tk n)"] le f'(1) off2 C d tk2 in \<open>simp add: deref_def q2_def\<close>)
    have W: "inj_walk q2 (Suc n) ys addr"
      by (rule inj_walk_block [OF Cons.prems(1) True]) (auto simp: q2_def q1_def inj_free_def set_block_def)
    show ?thesis
      using Cons.IH [OF W] Cons.prems(2) step s2 f' unfolding tt t_def [symmetric] by auto
  qed
qed

lemma inj_drop_ok:
  assumes r: "inj_rep q h xs"
  shows "\<exists>q'. inj_drop q = Inr (xs, q') \<and> inj_heap q' = (\<lambda>_. None)"
proof (cases "\<exists>addr. inj_linked q h xs addr None")
  case True
  then obtain addr where L: "inj_linked q h xs addr None" by blast
  note D = inj_linkedD [OF L]
  define t where "t = h + length xs"
  obtain flag where f: "pos_index (inj_head q) = idx (tk h) flag" using D(2) by blast
  have small: "tk h < 2 ^ 62" "tk t < 2 ^ 62" using tk_small [of h] tk_small [of t] D(1) by (simp_all add: t_def)
  have le: "tk h \<le> tk t" using tk_less [of h t] by (cases "xs = []") (simp_all add: t_def less_imp_le)
  have clr: "idx (tk h) flag AND - 2 = idx (tk h) False" "idx (tk t) False AND - 2 = idx (tk t) False"
    using idx_and_not_1 [of "tk h" flag] idx_and_not_1 [of "tk t" False] small by simp_all
  have fuel: "unat (drop_bit (Suc 0) (idx (tk t) False - idx (tk h) False)) = tk t - tk h"
    using small le by (simp add: idx_minus drop_idx unat_small64 del: of_nat_diff)
  have "inj_drop q = inj_drop_loop (tk t - tk h) (idx (tk h) False) (idx (tk t) False) (Some (addr (h div 31))) q"
    using D(3,4) by (simp add: inj_drop_def f clr fuel Let_def t_def [symmetric])
  with inj_drop_loop_ok [OF inj_linked_walk [OF L] D(1)] show ?thesis by (simp add: t_def)
next
  case False
  then show ?thesis using r by (auto simp: inj_rep_def inj_drop_def inj_drop_loop.simps Let_def)
qed

section \<open>The interface\<close>

record ('q, 'a) mpmc_ops =
  mq_new :: 'q
  mq_push :: "nat \<Rightarrow> 'q \<Rightarrow> 'a \<Rightarrow> 'q res"
  mq_pop :: "nat \<Rightarrow> 'q \<Rightarrow> ('a option \<times> 'q) res"
  mq_is_empty :: "'q \<Rightarrow> bool"
  mq_len :: "'q \<Rightarrow> usize res"
  mq_drop :: "'q \<Rightarrow> ('a list \<times> 'q) res"

definition head_option :: "'a list \<Rightarrow> 'a option" where
  "head_option xs = (case xs of [] \<Rightarrow> None | x # _ \<Rightarrow> Some x)"

lemma head_option_simps [simp]: "head_option [] = None" "head_option (x # xs) = Some x"
  by (simp_all add: head_option_def)

datatype 'a mq_call = MqPush nat 'a | MqPop nat | MqIsEmpty | MqLen
datatype 'a mq_reply = MqDone | MqItem "'a option" | MqFlag bool | MqCount usize

fun mq_exec :: "('q, 'a) mpmc_ops \<Rightarrow> 'a mq_call \<Rightarrow> 'q \<Rightarrow> ('a mq_reply \<times> 'q) res" where
  "mq_exec ops (MqPush n x) q = rbind (mq_push ops n q x) (\<lambda>q'. Inr (MqDone, q'))"
| "mq_exec ops (MqPop n) q = rbind (mq_pop ops n q) (\<lambda>(r, q'). Inr (MqItem r, q'))"
| "mq_exec ops MqIsEmpty q = Inr (MqFlag (mq_is_empty ops q), q)"
| "mq_exec ops MqLen q = rbind (mq_len ops q) (\<lambda>n. Inr (MqCount n, q))"

fun mq_run :: "('q, 'a) mpmc_ops \<Rightarrow> 'a mq_call list \<Rightarrow> 'q \<Rightarrow> ('a mq_reply list \<times> 'q) res" where
  "mq_run ops [] q = Inr ([], q)"
| "mq_run ops (c # cs) q =
     rbind (mq_exec ops c q) (\<lambda>(r, q'). rbind (mq_run ops cs q') (\<lambda>(rs, q''). Inr (r # rs, q'')))"

text \<open>The specification is a list, oldest item first.\<close>

fun list_call :: "'a mq_call \<Rightarrow> 'a list \<Rightarrow> 'a mq_reply \<times> 'a list" where
  "list_call (MqPush n x) xs = (MqDone, xs @ [x])"
| "list_call (MqPop n) xs = (MqItem (head_option xs), tl xs)"
| "list_call MqIsEmpty xs = (MqFlag (xs = []), xs)"
| "list_call MqLen xs = (MqCount (word_of_nat (length xs)), xs)"

fun list_run :: "'a mq_call list \<Rightarrow> 'a list \<Rightarrow> 'a mq_reply list \<times> 'a list" where
  "list_run [] xs = ([], xs)"
| "list_run (c # cs) xs = (let (r, ys) = list_call c xs; (rs, zs) = list_run cs ys in (r # rs, zs))"

fun pushes :: "'a mq_call list \<Rightarrow> nat" where
  "pushes [] = 0"
| "pushes (MqPush n x # cs) = Suc (pushes cs)"
| "pushes (_ # cs) = pushes cs"

text \<open>\<open>mrep q p xs\<close>: the queue has had \<open>p\<close> pushes and holds \<open>xs\<close>.\<close>

locale mpmc_queue =
  fixes ops :: "('q, 'a) mpmc_ops" and mrep :: "'q \<Rightarrow> nat \<Rightarrow> 'a list \<Rightarrow> bool" and limit :: nat
  assumes mq_new_law: "mrep (mq_new ops) 0 []"
    and mq_push_law: "mrep q p xs \<Longrightarrow> p < limit \<Longrightarrow> \<exists>q'. mq_push ops n q x = Inr q' \<and> mrep q' (Suc p) (xs @ [x])"
    and mq_pop_law: "mrep q p xs \<Longrightarrow> \<exists>q'. mq_pop ops n q = Inr (head_option xs, q') \<and> mrep q' p (tl xs)"
    and mq_is_empty_law: "mrep q p xs \<Longrightarrow> mq_is_empty ops q \<longleftrightarrow> xs = []"
    and mq_len_law: "mrep q p xs \<Longrightarrow> mq_len ops q = Inr (word_of_nat (length xs))"
    and mq_drop_law: "mrep q p xs \<Longrightarrow> \<exists>q'. mq_drop ops q = Inr (xs, q')"
begin

lemma call_ok:
  assumes "mrep q p xs" "p + pushes [c] \<le> limit"
  shows "\<exists>q'. mq_exec ops c q = Inr (fst (list_call c xs), q') \<and> mrep q' (p + pushes [c]) (snd (list_call c xs))"
proof (cases c)
  case (MqPush n x)
  then show ?thesis using mq_push_law [OF assms(1), of n x] assms(2) by auto
next
  case (MqPop n)
  then show ?thesis using mq_pop_law [OF assms(1), of n] by auto
qed (use assms mq_is_empty_law mq_len_law in auto)

lemma pushes_Cons: "pushes (c # cs) = pushes [c] + pushes cs"
  by (cases c) auto

theorem run_ok:
  assumes "mrep q p xs" "p + pushes cs \<le> limit"
  shows "\<exists>q'. mq_run ops cs q = Inr (fst (list_run cs xs), q') \<and> mrep q' (p + pushes cs) (snd (list_run cs xs))"
  using assms
proof (induction cs arbitrary: q p xs)
  case (Cons c cs)
  have "p + pushes [c] \<le> limit" "p + pushes [c] + pushes cs \<le> limit" using Cons.prems(2) pushes_Cons [of c cs] by simp_all
  then obtain q1 where c: "mq_exec ops c q = Inr (fst (list_call c xs), q1)" "mrep q1 (p + pushes [c]) (snd (list_call c xs))"
    using call_ok Cons.prems(1) by blast
  from Cons.IH [OF c(2) \<open>p + pushes [c] + pushes cs \<le> limit\<close>] c(1) show ?case
    by (auto simp: split_beta Let_def pushes_Cons [of c cs] add.assoc)
qed simp

theorem run_from_new:
  "pushes cs \<le> limit \<Longrightarrow>
     \<exists>q'. mq_run ops cs (mq_new ops) = Inr (fst (list_run cs []), q') \<and> mrep q' (pushes cs) (snd (list_run cs []))"
  using run_ok [OF mq_new_law, of cs] by simp

end

definition inj_ops :: "('a injector, 'a) mpmc_ops" where
  "inj_ops = \<lparr>mq_new = inj_new, mq_push = inj_push, mq_pop = inj_pop, mq_is_empty = inj_is_empty,
              mq_len = inj_len, mq_drop = inj_drop\<rparr>"

lemma inj_ops_simps [simp]:
  "mq_new inj_ops = inj_new" "mq_push inj_ops = inj_push" "mq_pop inj_ops = inj_pop"
  "mq_is_empty inj_ops = inj_is_empty" "mq_len inj_ops = inj_len" "mq_drop inj_ops = inj_drop"
  by (simp_all add: inj_ops_def)

definition inj_rel :: "'a injector \<Rightarrow> nat \<Rightarrow> 'a list \<Rightarrow> bool" where
  "inj_rel q p xs \<longleftrightarrow> (\<exists>h. p = h + length xs \<and> inj_rep q h xs)"

interpretation inj_mq: mpmc_queue inj_ops inj_rel inj_limit
proof (unfold_locales, goal_cases)
  case 1 then show ?case using inj_new_rep by (simp add: inj_rel_def)
next
  case (2 q p xs n x)
  then show ?case using inj_push_ok [of q _ xs n x] by (fastforce simp: inj_rel_def)
next
  case (3 q p xs n)
  then obtain h where h: "p = h + length xs" "inj_rep q h xs" by (auto simp: inj_rel_def)
  show ?case
  proof (cases xs)
    case Nil
    then show ?thesis using inj_pop_empty [of q h n] h by (simp add: inj_rel_def)
  next
    case (Cons y ys)
    then show ?thesis using inj_pop_ok [of q h y ys n] h by (fastforce simp: inj_rel_def)
  qed
next
  case (4 q p xs) then show ?case using inj_is_empty_iff by (auto simp: inj_rel_def)
next
  case (5 q p xs) then show ?case using inj_len_ok by (auto simp: inj_rel_def)
next
  case (6 q p xs) then show ?case using inj_drop_ok by (fastforce simp: inj_rel_def)
qed

section \<open>Properties\<close>

text \<open>
  C13. The injector is a FIFO queue: any sequence of pushes, pops and queries on a new
  injector, with any spurious compare-exchange failures and up to \<open>2 ^ 61\<close> pushes, replies
  what a list replies. It never follows a pointer to a freed block, reads a slot that holds
  no item, overflows an index, or waits in a spin loop.
\<close>

theorem injector_fifo:
  assumes "pushes cs \<le> inj_limit"
  shows "\<exists>q. mq_run inj_ops cs inj_new = Inr (fst (list_run cs []), q)"
  using inj_mq.run_from_new [OF assms] by auto

theorem injector_fifo_witness:
  "\<exists>q. mq_run inj_ops [MqPush 1 ''a'', MqPush 0 ''b'', MqLen, MqPop 2, MqPop 0, MqPop 0, MqIsEmpty] inj_new
     = Inr ([MqDone, MqDone, MqCount 2, MqItem (Some ''a''), MqItem (Some ''b''), MqItem None, MqFlag True], q)"
  using injector_fifo [of "[MqPush 1 ''a'', MqPush 0 ''b'', MqLen, MqPop 2, MqPop 0, MqPop 0, MqIsEmpty]"]
  by (simp add: inj_limit_def)



end
