(* ===== verification/Job.thy ===== *)
theory Job
  imports Prelude
begin

text \<open>
  The unit of work of the pool, \<^verbatim>\<open>src/src/fanout/job.rs\<close>: a pointer and the function that
  still knows what it points at. Boxed work lives in an explicit heap; the heap also keeps a
  log of the work that has been run and of the work that was released without being run.
\<close>

section \<open>Model\<close>

datatype act = Run | Drop

record 'w job_heap =
  boxes :: "nat \<Rightarrow> 'w option"
  next_box :: nat
  ran :: "'w list"
  released :: "'w list"

record 'w job =
  pointer :: nat
  handle :: "nat \<Rightarrow> act \<Rightarrow> 'w job_heap \<Rightarrow> 'w job_heap res"

text \<open>
  The function of a boxed job, \<^verbatim>\<open>handle::<F>\<close>: \<^verbatim>\<open>Box::from_raw\<close> takes the allocation back,
  and the box goes out of scope either way.
\<close>

definition box_handle :: "nat \<Rightarrow> act \<Rightarrow> 'w job_heap \<Rightarrow> 'w job_heap res" where
  "box_handle p act m =
     (case boxes m p of
        None \<Rightarrow> Inl UseAfterFree
      | Some work \<Rightarrow>
          let m' = m\<lparr>boxes := (boxes m)(p := None)\<rparr> in
          (case act of
             Run \<Rightarrow> Inr (m'\<lparr>ran := ran m' @ [work]\<rparr>)
           | Drop \<Rightarrow> Inr (m'\<lparr>released := released m' @ [work]\<rparr>)))"

definition from_boxed :: "'w \<Rightarrow> 'w job_heap \<Rightarrow> 'w job \<times> 'w job_heap" where
  "from_boxed work m =
     (\<lparr>pointer = next_box m, handle = box_handle\<rparr>,
      m\<lparr>boxes := (boxes m)(next_box m \<mapsto> work), next_box := next_box m + 1\<rparr>)"

definition from_raw :: "nat \<Rightarrow> (nat \<Rightarrow> act \<Rightarrow> 'w job_heap \<Rightarrow> 'w job_heap res) \<Rightarrow> 'w job" where
  "from_raw p h = \<lparr>pointer = p, handle = h\<rparr>"

definition job_run :: "'w job \<Rightarrow> 'w job_heap \<Rightarrow> 'w job_heap res" where
  "job_run j m = handle j (pointer j) Run m"

definition job_drop :: "'w job \<Rightarrow> 'w job_heap \<Rightarrow> 'w job_heap res" where
  "job_drop j m = handle j (pointer j) Drop m"

text \<open>
  What owners do with jobs. Running and dropping take the job by value, so it leaves the
  list of jobs somebody owns; this is what the type system enforces.
\<close>

datatype 'w job_event = NewJob 'w | RunJob nat | DropJob nat

definition take_out :: "nat \<Rightarrow> 'a list \<Rightarrow> 'a list" where
  "take_out i xs = take i xs @ drop (Suc i) xs"

fun job_step :: "'w job_event \<Rightarrow> 'w job list \<times> 'w job_heap \<Rightarrow> ('w job list \<times> 'w job_heap) res" where
  "job_step (NewJob w) (js, m) = (let (j, m') = from_boxed w m in Inr (js @ [j], m'))"
| "job_step (RunJob i) (js, m) =
     (if i < length js then rbind (job_run (js ! i) m) (\<lambda>m'. Inr (take_out i js, m')) else Inr (js, m))"
| "job_step (DropJob i) (js, m) =
     (if i < length js then rbind (job_drop (js ! i) m) (\<lambda>m'. Inr (take_out i js, m')) else Inr (js, m))"

fun job_steps :: "'w job_event list \<Rightarrow> 'w job list \<times> 'w job_heap \<Rightarrow> ('w job list \<times> 'w job_heap) res" where
  "job_steps [] s = Inr s"
| "job_steps (e # es) s = rbind (job_step e s) (job_steps es)"

text \<open>A queue that goes away drops the jobs it still holds.\<close>

fun drop_jobs :: "'w job list \<Rightarrow> 'w job_heap \<Rightarrow> 'w job_heap res" where
  "drop_jobs [] m = Inr m"
| "drop_jobs (j # js) m = rbind (job_drop j m) (drop_jobs js)"

definition empty_heap :: "'w job_heap" where
  "empty_heap = \<lparr>boxes = (\<lambda>_. None), next_box = 0, ran = [], released = []\<rparr>"

section \<open>Ownership\<close>

text \<open>Every owned job has a box of its own, and every box belongs to an owned job.\<close>

definition owned :: "'w job list \<Rightarrow> 'w job_heap \<Rightarrow> bool" where
  "owned js m \<longleftrightarrow>
     distinct (map pointer js) \<and> (\<forall>j \<in> set js. handle j = box_handle) \<and>
     set (map pointer js) = {p. boxes m p \<noteq> None} \<and> (\<forall>p. boxes m p \<noteq> None \<longrightarrow> p < next_box m)"

definition works :: "'w job list \<Rightarrow> 'w job_heap \<Rightarrow> 'w multiset" where
  "works js m = mset (map (\<lambda>j. the (boxes m (pointer j))) js)"

fun created :: "'w job_event list \<Rightarrow> 'w multiset" where
  "created [] = {#}"
| "created (NewJob w # es) = add_mset w (created es)"
| "created (_ # es) = created es"

lemma mset_take_out: "i < length xs \<Longrightarrow> mset xs = add_mset (xs ! i) (mset (take_out i xs))"
proof -
  assume "i < length xs"
  then have "xs = take i xs @ xs ! i # drop (Suc i) xs" by (rule id_take_nth_drop)
  then have "mset xs = mset (take i xs @ xs ! i # drop (Suc i) xs)" by simp
  then show ?thesis by (simp add: take_out_def)
qed

lemma map_take_out: "map f (take_out i xs) = take_out i (map f xs)"
  by (simp add: take_out_def take_map drop_map)

lemma distinct_take_out:
  assumes "i < length xs" "distinct xs"
  shows "distinct (take_out i xs)" "set (take_out i xs) = set xs - {xs ! i}"
proof -
  have e: "xs = take i xs @ xs ! i # drop (Suc i) xs" by (rule id_take_nth_drop [OF assms(1)])
  with assms(2) have d: "distinct (take i xs @ xs ! i # drop (Suc i) xs)" by simp
  then show "distinct (take_out i xs)" by (simp add: take_out_def)
  have "set xs = set (take i xs @ xs ! i # drop (Suc i) xs)" using e by simp
  with d show "set (take_out i xs) = set xs - {xs ! i}" by (auto simp: take_out_def)
qed

text \<open>Consuming an owned job takes its work out of the heap.\<close>

lemma consume_owned:
  assumes o: "owned js m" and i: "i < length js"
  shows "\<exists>w. boxes m (pointer (js ! i)) = Some w \<and> handle (js ! i) = box_handle \<and>
    (\<forall>m'. boxes m' = (boxes m)(pointer (js ! i) := None) \<and> next_box m' = next_box m \<longrightarrow>
       owned (take_out i js) m' \<and> works js m = add_mset w (works (take_out i js) m'))"
proof -
  let ?p = "pointer (js ! i)"
  have "?p \<in> set (map pointer js)" using i by simp
  then obtain w where w: "boxes m ?p = Some w" using o by (auto simp: owned_def)
  have ps: "map pointer js ! i = ?p" using i by simp
  note dt = distinct_take_out [of i "map pointer js", unfolded ps]
  have "owned (take_out i js) m' \<and> works js m = add_mset w (works (take_out i js) m')"
    if m': "boxes m' = (boxes m)(?p := None)" "next_box m' = next_box m" for m'
  proof
    show "owned (take_out i js) m'"
    proof -
      have il: "i < length (map pointer js)" and d: "distinct (map pointer js)" using o i by (auto simp: owned_def)
      have "set (take_out i js) \<subseteq> set js" by (auto simp: take_out_def dest: in_set_takeD in_set_dropD)
      moreover have "{p. boxes m' p \<noteq> None} = set (map pointer js) - {?p}" using o m' by (auto simp: owned_def)
      ultimately show ?thesis
        using o m' dt [OF il d] by (auto simp: owned_def map_take_out simp del: set_map)
    qed
    have sub: "pointer j \<noteq> ?p" if "j \<in> set (take_out i js)" for j
    proof -
      have "pointer j \<in> set (take_out i (map pointer js))" using that by (simp flip: map_take_out)
      then show ?thesis using dt(2) i o by (auto simp: owned_def)
    qed
    have "works js m = add_mset w (mset (take_out i (map (\<lambda>j. the (boxes m (pointer j))) js)))"
      using mset_take_out [of i "map (\<lambda>j. the (boxes m (pointer j))) js"] i w by (simp add: works_def)
    also have "take_out i (map (\<lambda>j. the (boxes m (pointer j))) js) = map (\<lambda>j. the (boxes m' (pointer j))) (take_out i js)"
      using sub m' by (auto simp flip: map_take_out)
    finally show "works js m = add_mset w (works (take_out i js) m')" by (simp add: works_def)
  qed
  moreover have "handle (js ! i) = box_handle" using o i by (simp add: owned_def)
  ultimately show ?thesis using w by blast
qed

definition accounted :: "'w job list \<Rightarrow> 'w job_heap \<Rightarrow> 'w multiset" where
  "accounted js m = mset (ran m) + mset (released m) + works js m"

lemma new_job_owned:
  assumes o: "owned js m" and f: "from_boxed w m = (j, m')"
  shows "owned (js @ [j]) m' \<and> accounted (js @ [j]) m' = add_mset w (accounted js m)"
proof
  have fresh: "boxes m (next_box m) = None" using o by (auto simp: owned_def)
  then have notin: "next_box m \<notin> set (map pointer js)" using o by (auto simp: owned_def)
  have m': "j = \<lparr>pointer = next_box m, handle = box_handle\<rparr>" "boxes m' = (boxes m)(next_box m \<mapsto> w)"
    "next_box m' = Suc (next_box m)" "ran m' = ran m" "released m' = released m"
    using f by (auto simp: from_boxed_def)
  show "owned (js @ [j]) m'"
    using o notin by (auto simp: owned_def m' less_Suc_eq)
  have e: "map (\<lambda>i. the (boxes m' (pointer i))) js = map (\<lambda>i. the (boxes m (pointer i))) js"
  proof (rule map_cong [OF refl])
    fix i
    assume "i \<in> set js"
    then have "pointer i \<in> set (map pointer js)" by simp
    with notin have "pointer i \<noteq> next_box m" by metis
    then show "the (boxes m' (pointer i)) = the (boxes m (pointer i))" by (simp add: m')
  qed
  have "works (js @ [j]) m' = add_mset (the (boxes m' (pointer j))) (works js m)"
    unfolding works_def map_append e by simp
  then have "works (js @ [j]) m' = add_mset w (works js m)" by (simp add: m')
  then show "accounted (js @ [j]) m' = add_mset w (accounted js m)" by (simp add: accounted_def m')
qed

lemma consume_step:
  assumes "owned js m" "i < length js"
  shows "\<exists>m'. handle (js ! i) (pointer (js ! i)) a m = Inr m' \<and> owned (take_out i js) m' \<and>
    accounted (take_out i js) m' = accounted js m"
proof -
  obtain w where w: "boxes m (pointer (js ! i)) = Some w" "handle (js ! i) = box_handle"
    and c: "\<And>m'. boxes m' = (boxes m)(pointer (js ! i) := None) \<Longrightarrow> next_box m' = next_box m \<Longrightarrow>
       owned (take_out i js) m' \<and> works js m = add_mset w (works (take_out i js) m')"
    using consume_owned [OF assms] by blast
  let ?m = "m\<lparr>boxes := (boxes m)(pointer (js ! i) := None)\<rparr>"
  show ?thesis
  proof (cases a)
    case Run
    from c [of "?m\<lparr>ran := ran m @ [w]\<rparr>"] w Run show ?thesis
      by (simp add: box_handle_def Let_def accounted_def)
  next
    case Drop
    from c [of "?m\<lparr>released := released m @ [w]\<rparr>"] w Drop show ?thesis
      by (simp add: box_handle_def Let_def accounted_def)
  qed
qed

lemma job_step_ok:
  assumes "owned js m"
  shows "\<exists>js' m'. job_step e (js, m) = Inr (js', m') \<and> owned js' m' \<and> accounted js' m' = accounted js m + created [e]"
proof (cases e)
  case (NewJob w)
  obtain j m' where f: "from_boxed w m = (j, m')" by fastforce
  from new_job_owned [OF assms f] f NewJob show ?thesis by simp
next
  case (RunJob i)
  then show ?thesis using consume_step [OF assms, of i Run] assms by (cases "i < length js") (auto simp: job_run_def)
next
  case (DropJob i)
  then show ?thesis using consume_step [OF assms, of i Drop] assms by (cases "i < length js") (auto simp: job_drop_def)
qed

lemma created_Cons: "created (e # es) = created [e] + created es"
  by (cases e) auto

lemma job_steps_ok:
  assumes "owned js m"
  shows "\<exists>js' m'. job_steps es (js, m) = Inr (js', m') \<and> owned js' m' \<and> accounted js' m' = accounted js m + created es"
  using assms
proof (induction es arbitrary: js m)
  case (Cons e es)
  obtain js1 m1 where 1: "job_step e (js, m) = Inr (js1, m1)" "owned js1 m1" "accounted js1 m1 = accounted js m + created [e]"
    using job_step_ok [OF Cons.prems] by blast
  from Cons.IH [OF 1(2)] 1 show ?case by (auto simp: created_Cons [of e es] ac_simps)
qed simp

lemma drop_jobs_ok:
  assumes "owned js m"
  shows "\<exists>m'. drop_jobs js m = Inr m' \<and> owned [] m' \<and> accounted [] m' = accounted js m"
  using assms
proof (induction js arbitrary: m)
  case (Cons j js)
  obtain m1 where 1: "job_drop j m = Inr m1" "owned js m1" "accounted js m1 = accounted (j # js) m"
    using consume_step [OF Cons.prems, of 0 Drop] by (auto simp: job_drop_def take_out_def)
  from Cons.IH [OF 1(2)] 1 show ?case by auto
qed auto

lemma empty_owned: "owned [] empty_heap" "accounted [] empty_heap = {#}"
  by (simp_all add: owned_def empty_heap_def accounted_def works_def)

section \<open>Properties\<close>


text \<open>
  Why a job must not be copied: after either use of a boxed job, a second use of the same
  job is a use after free.
\<close>

lemma job_used_twice:
  assumes "from_boxed w m = (j, m1)" "handle j (pointer j) a m1 = Inr m2"
  shows "job_run j m2 = Inl UseAfterFree \<and> job_drop j m2 = Inl UseAfterFree"
  using assms by (auto simp: from_boxed_def box_handle_def job_run_def job_drop_def Let_def split: act.splits)

end
