(* ===== verification/Atomic_Host.thy ===== *)
theory Atomic_Host
  imports Prelude
begin

text \<open>
  Parking and waking a worker: \<^verbatim>\<open>src/src/fanout/atomic_host.rs\<close>. Every access of the
  park word is one step, the steps of one parking thread per worker and of any number of
  unparking threads interleave, and the futex of the \<^verbatim>\<open>atomic-wait\<close> package is a parameter.
  The protocol refines a binary semaphore per worker, which is what the \<^verbatim>\<open>Host\<close> trait of
  \<^verbatim>\<open>src/src/fanout/mod.rs\<close> requires of a host.
\<close>

section \<open>Model\<close>

definition LOCKED :: "32 word" where "LOCKED = 0"
definition SIGNAL :: "32 word" where "SIGNAL = 1"
definition ASLEEP :: "32 word" where "ASLEEP = 2"

lemmas park_words = LOCKED_def SIGNAL_def ASLEEP_def

lemma park_words_distinct [simp]:
  "LOCKED \<noteq> SIGNAL" "SIGNAL \<noteq> LOCKED" "LOCKED \<noteq> ASLEEP" "ASLEEP \<noteq> LOCKED" "SIGNAL \<noteq> ASLEEP" "ASLEEP \<noteq> SIGNAL"
  by (simp_all add: park_words)

record atomic_host =
  slots :: "32 word list"
  clock :: "unit \<Rightarrow> ulong"
  spurious :: ulong

definition atomic_host_new :: "nat \<Rightarrow> (unit \<Rightarrow> ulong) \<Rightarrow> atomic_host" where
  "atomic_host_new workers clk = \<lparr>slots = replicate workers 0, clock = clk, spurious = 0\<rparr>"

definition atomic_host_spurious :: "atomic_host \<Rightarrow> ulong" where
  "atomic_host_spurious h = spurious h"

definition atomic_host_now_ns :: "atomic_host \<Rightarrow> ulong" where
  "atomic_host_now_ns h = clock h ()"

definition slot_load :: "nat \<Rightarrow> atomic_host \<Rightarrow> 32 word res" where
  "slot_load w h = (if w < length (slots h) then Inr (slots h ! w) else Inl IndexOutOfBounds)"

definition slot_store :: "nat \<Rightarrow> 32 word \<Rightarrow> atomic_host \<Rightarrow> atomic_host" where
  "slot_store w v h = h\<lparr>slots := (slots h)[w := v]\<rparr>"

text \<open>
  The futex. One address per worker, at most one thread waiting on each. \<open>fx_wait a v e\<close> is
  the start of \<^verbatim>\<open>wait\<close> on address \<open>a\<close>, which holds \<open>v\<close>, with the expected value \<open>e\<close>;
  \<open>fx_leave\<close> is a return that no wake asked for.
\<close>

record 'f futex =
  fx_init :: 'f
  fx_wait :: "nat \<Rightarrow> 32 word \<Rightarrow> 32 word \<Rightarrow> 'f \<Rightarrow> 'f"
  fx_wake_one :: "nat \<Rightarrow> 'f \<Rightarrow> 'f"
  fx_leave :: "nat \<Rightarrow> 'f \<Rightarrow> 'f"
  fx_blocked :: "'f \<Rightarrow> nat \<Rightarrow> bool"

text \<open>
  What the documentation of \<^verbatim>\<open>atomic-wait\<close> promises: a wait blocks only if the value is the
  expected one, a wake releases the waiting thread, nothing else blocks a thread, and a wait
  may return spuriously.
\<close>

definition futex_ok :: "'f futex \<Rightarrow> bool" where
  "futex_ok F \<longleftrightarrow>
     (\<forall>a. \<not> fx_blocked F (fx_init F) a) \<and>
     (\<forall>k a v e. v \<noteq> e \<longrightarrow> \<not> fx_blocked F (fx_wait F a v e k) a) \<and>
     (\<forall>k a v e b. b \<noteq> a \<longrightarrow> fx_blocked F (fx_wait F a v e k) b \<longrightarrow> fx_blocked F k b) \<and>
     (\<forall>k a. \<not> fx_blocked F (fx_wake_one F a k) a) \<and>
     (\<forall>k a b. fx_blocked F (fx_wake_one F a k) b \<longrightarrow> fx_blocked F k b) \<and>
     (\<forall>k a. \<not> fx_blocked F (fx_leave F a k) a) \<and>
     (\<forall>k a b. fx_blocked F (fx_leave F a k) b \<longrightarrow> fx_blocked F k b)"

subsection \<open>Park\<close>

text \<open>Where a thread is in \<^verbatim>\<open>park\<close>; each value is the next access it makes.\<close>

datatype park_pc =
    Swap \<comment> \<open>\<^verbatim>\<open>state.swap(ASLEEP)\<close>\<close>
  | TakeSignal \<comment> \<open>a signal arrived first: \<^verbatim>\<open>compare_exchange(ASLEEP, LOCKED)\<close>\<close>
  | LoopLoad \<comment> \<open>the condition of the loop\<close>
  | Wait \<comment> \<open>\<^verbatim>\<open>atomic_wait::wait\<close>\<close>
  | Waiting \<comment> \<open>inside it\<close>
  | Recheck \<comment> \<open>the load after the wait\<close>
  | CountSpurious \<comment> \<open>\<^verbatim>\<open>spurious.fetch_add\<close>\<close>
  | Consume \<comment> \<open>\<^verbatim>\<open>compare_exchange(SIGNAL, LOCKED)\<close>\<close>
  | ParkReturn

fun park_step :: "'f futex \<Rightarrow> nat \<Rightarrow> park_pc \<Rightarrow> atomic_host \<times> 'f \<Rightarrow> (park_pc \<times> atomic_host \<times> 'f) res" where
  "park_step F w Swap (h, k) =
     rbind (slot_load w h) (\<lambda>v. Inr (if v \<noteq> LOCKED then TakeSignal else LoopLoad, slot_store w ASLEEP h, k))"
| "park_step F w TakeSignal (h, k) =
     rbind (slot_load w h) (\<lambda>v. Inr (ParkReturn, if v = ASLEEP then slot_store w LOCKED h else h, k))"
| "park_step F w LoopLoad (h, k) =
     rbind (slot_load w h) (\<lambda>v. Inr (if v = ASLEEP then Wait else Consume, h, k))"
| "park_step F w Wait (h, k) = rbind (slot_load w h) (\<lambda>v. Inr (Waiting, h, fx_wait F w v ASLEEP k))"
| "park_step F w Waiting (h, k) = Inr (if fx_blocked F k w then Waiting else Recheck, h, k)"
| "park_step F w Recheck (h, k) =
     rbind (slot_load w h) (\<lambda>v. Inr (if v = ASLEEP then CountSpurious else LoopLoad, h, k))"
| "park_step F w CountSpurious (h, k) = Inr (LoopLoad, h\<lparr>spurious := spurious h + 1\<rparr>, k)"
| "park_step F w Consume (h, k) =
     rbind (slot_load w h) (\<lambda>v. Inr (ParkReturn, if v = SIGNAL then slot_store w LOCKED h else h, k))"
| "park_step F w ParkReturn (h, k) = Inr (ParkReturn, h, k)"

text \<open>The call when no other thread takes a step; it returns within the given number of steps or not.\<close>

fun park_alone :: "nat \<Rightarrow> 'f futex \<Rightarrow> nat \<Rightarrow> park_pc \<Rightarrow> atomic_host \<times> 'f \<Rightarrow> (atomic_host \<times> 'f) option res" where
  "park_alone n F w ParkReturn s = Inr (Some s)"
| "park_alone 0 F w pc s = Inr None"
| "park_alone (Suc n) F w pc s = rbind (park_step F w pc s) (\<lambda>(pc', s'). park_alone n F w pc' s')"

subsection \<open>Unpark\<close>

datatype unpark_pc = SwapSignal | WakeOne | UnparkReturn

fun unpark_step :: "'f futex \<Rightarrow> nat \<Rightarrow> unpark_pc \<Rightarrow> atomic_host \<times> 'f \<Rightarrow> (unpark_pc \<times> atomic_host \<times> 'f) res" where
  "unpark_step F w SwapSignal (h, k) =
     rbind (slot_load w h) (\<lambda>v. Inr (if v = ASLEEP then WakeOne else UnparkReturn, slot_store w SIGNAL h, k))"
| "unpark_step F w WakeOne (h, k) = Inr (UnparkReturn, h, fx_wake_one F w k)"
| "unpark_step F w UnparkReturn (h, k) = Inr (UnparkReturn, h, k)"

section \<open>Threads\<close>

text \<open>
  \<open>parkers\<close> are the calls of \<^verbatim>\<open>park\<close> in progress, one thread per worker as \<^verbatim>\<open>Pool::run\<close> has
  it; \<open>unparkers\<close> are the calls of \<^verbatim>\<open>unpark\<close>, by thread.
\<close>

record 'f hosted =
  host :: atomic_host
  kernel :: 'f
  parkers :: "nat \<rightharpoonup> park_pc"
  unparkers :: "nat \<rightharpoonup> nat \<times> unpark_pc"

definition hosted_new :: "'f futex \<Rightarrow> nat \<Rightarrow> (unit \<Rightarrow> ulong) \<Rightarrow> 'f hosted" where
  "hosted_new F workers clk =
     \<lparr>host = atomic_host_new workers clk, kernel = fx_init F, parkers = Map.empty, unparkers = Map.empty\<rparr>"

datatype host_event =
    ParkCall nat | ParkStep nat | ParkExit nat | Spurious nat
  | UnparkCall nat nat | UnparkStep nat | UnparkExit nat

inductive host_step :: "'f futex \<Rightarrow> 'f hosted \<Rightarrow> host_event \<Rightarrow> 'f hosted \<Rightarrow> bool" for F where
  park_call: "parkers s w = None \<Longrightarrow> host_step F s (ParkCall w) (s\<lparr>parkers := (parkers s)(w \<mapsto> Swap)\<rparr>)"
| park_move: "parkers s w = Some pc \<Longrightarrow> pc \<noteq> ParkReturn \<Longrightarrow>
    park_step F w pc (host s, kernel s) = Inr (pc', h, k) \<Longrightarrow>
    host_step F s (ParkStep w) (s\<lparr>host := h, kernel := k, parkers := (parkers s)(w \<mapsto> pc')\<rparr>)"
| park_exit: "parkers s w = Some ParkReturn \<Longrightarrow>
    host_step F s (ParkExit w) (s\<lparr>parkers := (parkers s)(w := None)\<rparr>)"
| spurious_return: "parkers s w = Some Waiting \<Longrightarrow>
    host_step F s (Spurious w) (s\<lparr>kernel := fx_leave F w (kernel s)\<rparr>)"
| unpark_call: "unparkers s t = None \<Longrightarrow>
    host_step F s (UnparkCall t w) (s\<lparr>unparkers := (unparkers s)(t \<mapsto> (w, SwapSignal))\<rparr>)"
| unpark_move: "unparkers s t = Some (w, pc) \<Longrightarrow> pc \<noteq> UnparkReturn \<Longrightarrow>
    unpark_step F w pc (host s, kernel s) = Inr (pc', h, k) \<Longrightarrow>
    host_step F s (UnparkStep t) (s\<lparr>host := h, kernel := k, unparkers := (unparkers s)(t \<mapsto> (w, pc'))\<rparr>)"
| unpark_exit: "unparkers s t = Some (w, UnparkReturn) \<Longrightarrow>
    host_step F s (UnparkExit t) (s\<lparr>unparkers := (unparkers s)(t := None)\<rparr>)"

inductive_cases host_stepE: "host_step F s e s'"

inductive host_reach :: "'f futex \<Rightarrow> nat \<Rightarrow> (unit \<Rightarrow> ulong) \<Rightarrow> 'f hosted \<Rightarrow> bool" for F n clk where
  init: "host_reach F n clk (hosted_new F n clk)"
| step: "host_reach F n clk s \<Longrightarrow> host_step F s e s' \<Longrightarrow> host_reach F n clk s'"

section \<open>Invariant\<close>

text \<open>Which values the park word may have, by where the worker's thread is.\<close>

fun word_fits :: "park_pc option \<Rightarrow> 32 word \<Rightarrow> bool" where
  "word_fits None v \<longleftrightarrow> v = LOCKED \<or> v = SIGNAL"
| "word_fits (Some Swap) v \<longleftrightarrow> v = LOCKED \<or> v = SIGNAL"
| "word_fits (Some ParkReturn) v \<longleftrightarrow> v = LOCKED \<or> v = SIGNAL"
| "word_fits (Some Consume) v \<longleftrightarrow> v = SIGNAL"
| "word_fits (Some _) v \<longleftrightarrow> v = ASLEEP \<or> v = SIGNAL"

text \<open>
  A blocked worker is inside its wait, and either nobody has signalled it or the thread that
  did is about to wake it.
\<close>

definition wake_due :: "'f hosted \<Rightarrow> nat \<Rightarrow> bool" where
  "wake_due s w \<longleftrightarrow> (\<exists>t. unparkers s t = Some (w, WakeOne))"

definition host_inv :: "'f futex \<Rightarrow> nat \<Rightarrow> 'f hosted \<Rightarrow> bool" where
  "host_inv F n s \<longleftrightarrow>
     length (slots (host s)) = n \<and>
     (\<forall>w < n. word_fits (parkers s w) (slots (host s) ! w)) \<and>
     (\<forall>w. n \<le> w \<longrightarrow> parkers s w \<in> {None, Some Swap}) \<and>
     (\<forall>w. fx_blocked F (kernel s) w \<longrightarrow>
        parkers s w = Some Waiting \<and> (slots (host s) ! w = ASLEEP \<or> wake_due s w))"

lemma word_fits_signal: "word_fits p SIGNAL"
  by (cases "(p, SIGNAL)" rule: word_fits.cases) auto

lemma host_inv_new: "futex_ok F \<Longrightarrow> host_inv F n (hosted_new F n clk)"
  by (auto simp: host_inv_def hosted_new_def atomic_host_new_def futex_ok_def park_words)

lemma slot_load_Inr: "slot_load w h = Inr v \<longleftrightarrow> w < length (slots h) \<and> v = slots h ! w"
  by (auto simp: slot_load_def)

lemma host_invD:
  assumes "host_inv F n s"
  shows "length (slots (host s)) = n"
    and "w < n \<Longrightarrow> word_fits (parkers s w) (slots (host s) ! w)"
    and "n \<le> w \<Longrightarrow> parkers s w \<in> {None, Some Swap}"
    and "fx_blocked F (kernel s) w \<Longrightarrow> parkers s w = Some Waiting"
    and "fx_blocked F (kernel s) w \<Longrightarrow> slots (host s) ! w = ASLEEP \<or> wake_due s w"
  using assms unfolding host_inv_def by blast+

lemma futexD:
  assumes "futex_ok F"
  shows "v \<noteq> e \<Longrightarrow> \<not> fx_blocked F (fx_wait F a v e k) a"
    and "b \<noteq> a \<Longrightarrow> fx_blocked F (fx_wait F a v e k) b \<Longrightarrow> fx_blocked F k b"
    and "\<not> fx_blocked F (fx_wake_one F a k) a"
    and "fx_blocked F (fx_wake_one F a k) b \<Longrightarrow> fx_blocked F k b"
    and "\<not> fx_blocked F (fx_leave F a k) a"
    and "fx_blocked F (fx_leave F a k) b \<Longrightarrow> fx_blocked F k b"
  using assms unfolding futex_ok_def by blast+

text \<open>What one access of a parking thread does to the word and the futex.\<close>

lemma park_step_effect:
  assumes "park_step F w pc (h, k) = Inr (pc', h', k')" "pc \<noteq> ParkReturn" "futex_ok F"
    and fits: "w < length (slots h) \<Longrightarrow> word_fits (Some pc) (slots h ! w)"
    and b: "fx_blocked F k w \<Longrightarrow> pc = Waiting"
    and big: "length (slots h) \<le> w \<Longrightarrow> pc = Swap"
  shows "w < length (slots h)" "length (slots h') = length (slots h)" "word_fits (Some pc') (slots h' ! w)"
    and "i \<noteq> w \<Longrightarrow> slots h' ! i = slots h ! i"
    and "i \<noteq> w \<Longrightarrow> fx_blocked F k' i \<Longrightarrow> fx_blocked F k i"
    and "fx_blocked F k' w \<Longrightarrow> pc' = Waiting \<and> (slots h' ! w = ASLEEP \<or> fx_blocked F k w \<and> slots h' ! w = slots h ! w)"
proof -
  have "w < length (slots h) \<and> length (slots h') = length (slots h) \<and> word_fits (Some pc') (slots h' ! w) \<and>
    (i \<noteq> w \<longrightarrow> slots h' ! i = slots h ! i) \<and> (i \<noteq> w \<longrightarrow> fx_blocked F k' i \<longrightarrow> fx_blocked F k i) \<and>
    (fx_blocked F k' w \<longrightarrow> pc' = Waiting \<and> (slots h' ! w = ASLEEP \<or> fx_blocked F k w \<and> slots h' ! w = slots h ! w))"
  proof (cases pc)
    case Wait
    then have "w < length (slots h)" "pc' = Waiting" "h' = h" "k' = fx_wait F w (slots h ! w) ASLEEP k"
      using assms(1) by (auto simp: monad_simps slot_load_Inr)
    then show ?thesis
      using fits futexD(1) [OF assms(3), of "slots h ! w" ASLEEP w k] futexD(2) [OF assms(3), of i w "slots h ! w" ASLEEP k]
      by (auto simp: Wait)
  next
    case Waiting
    then show ?thesis using assms(1) fits big by (auto split: if_splits) force+
  next
    case CountSpurious
    then show ?thesis using assms(1) fits big b by (auto split: if_splits) force+
  qed (use assms(1,2) fits b in \<open>auto simp: monad_simps slot_load_Inr slot_store_def split: if_splits\<close>)
  then show "w < length (slots h)" "length (slots h') = length (slots h)" "word_fits (Some pc') (slots h' ! w)"
    "i \<noteq> w \<Longrightarrow> slots h' ! i = slots h ! i"
    "i \<noteq> w \<Longrightarrow> fx_blocked F k' i \<Longrightarrow> fx_blocked F k i"
    "fx_blocked F k' w \<Longrightarrow> pc' = Waiting \<and> (slots h' ! w = ASLEEP \<or> fx_blocked F k w \<and> slots h' ! w = slots h ! w)"
    by blast+
qed

lemma unpark_step_effect:
  assumes "unpark_step F w pc (h, k) = Inr (pc', h', k')" "futex_ok F"
  shows "length (slots h') = length (slots h)"
    and "i \<noteq> w \<Longrightarrow> slots h' ! i = slots h ! i"
    and "slots h' ! w = slots h ! w \<or> (slots h' ! w = SIGNAL \<and> (slots h ! w = ASLEEP \<longrightarrow> pc' = WakeOne))"
    and "fx_blocked F k' i \<Longrightarrow> fx_blocked F k i"
    and "pc = WakeOne \<Longrightarrow> \<not> fx_blocked F k' w"
  using assms futexD(3,4) [OF assms(2)]
  by (cases pc; auto simp: monad_simps slot_load_Inr slot_store_def split: if_splits)+

lemma wake_due_unfold: "unparkers s t = Some (w, WakeOne) \<Longrightarrow> wake_due s w"
  by (auto simp: wake_due_def)

lemma host_inv_park:
  assumes inv: "host_inv F n s" and ok: "futex_ok F"
    and p: "parkers s w = Some pc" "pc \<noteq> ParkReturn" "park_step F w pc (host s, kernel s) = Inr (pc', h, k)"
  shows "host_inv F n (s\<lparr>host := h, kernel := k, parkers := (parkers s)(w \<mapsto> pc')\<rparr>)"
proof -
  note I = host_invD [OF inv]
  have 1: "w < length (slots (host s)) \<Longrightarrow> word_fits (Some pc) (slots (host s) ! w)"
    using I(2) [of w] I(1) p(1) by simp
  have 2: "fx_blocked F (kernel s) w \<Longrightarrow> pc = Waiting" using I(4) [of w] p(1) by simp
  have 3: "length (slots (host s)) \<le> w \<Longrightarrow> pc = Swap" using I(3) [of w] I(1) p(1) by simp
  note E = park_step_effect [OF p(3,2) ok 1 2 3]
  let ?s = "s\<lparr>host := h, kernel := k, parkers := (parkers s)(w \<mapsto> pc')\<rparr>"
  have wd: "wake_due ?s i = wake_due s i" for i by (simp add: wake_due_def)
  show ?thesis
    unfolding host_inv_def wd
  proof (intro conjI allI impI, goal_cases)
    case 1 show ?case using E(2) I(1) by simp
  next
    case (2 i) then show ?case using E(3,4) I(2) [of i] by (cases "i = w") auto
  next
    case (3 i) then show ?case using E(1) I(1) I(3) [of i] by (cases "i = w") auto
  next
    case (4 i) then show ?case using E(5,6) I(4) [of i] by (cases "i = w") auto
  next
    case (5 i) then show ?case using E(4,5,6) I(5) [of i] by (cases "i = w") auto
  qed
qed

lemma host_inv_unpark:
  assumes inv: "host_inv F n s" and ok: "futex_ok F"
    and u: "unparkers s t = Some (w, pc)" "pc \<noteq> UnparkReturn" "unpark_step F w pc (host s, kernel s) = Inr (pc', h, k)"
  shows "host_inv F n (s\<lparr>host := h, kernel := k, unparkers := (unparkers s)(t \<mapsto> (w, pc'))\<rparr>)"
proof -
  note I = host_invD [OF inv]
  note E = unpark_step_effect [OF u(3) ok]
  let ?s = "s\<lparr>host := h, kernel := k, unparkers := (unparkers s)(t \<mapsto> (w, pc'))\<rparr>"
  have wd: "wake_due ?s i" if d: "wake_due s i" and b: "fx_blocked F k i" for i
  proof -
    obtain t' where t': "unparkers s t' = Some (i, WakeOne)" using d by (auto simp: wake_due_def)
    show ?thesis
    proof (cases "t' = t")
      case True
      then have "i = w" "pc = WakeOne" using t' u(1) by auto
      with E(5) b show ?thesis by simp
    next
      case False
      then show ?thesis using t' by (auto simp: wake_due_def)
    qed
  qed
  show ?thesis
    unfolding host_inv_def
  proof (intro conjI allI impI, goal_cases)
    case 1 show ?case using E(1) I(1) by simp
  next
    case (2 i) then show ?case using E(2) [of i] E(3) I(2) [of i] word_fits_signal by (cases "i = w") auto
  next
    case (3 i) then show ?case using I(3) [of i] by simp
  next
    case (4 i) then show ?case using E(4) I(4) [of i] by auto
  next
    case (5 i)
    then have b: "fx_blocked F k i" by simp
    have "slots (host s) ! i = ASLEEP \<or> wake_due s i" using I(5) E(4) b by blast
    then show ?case
    proof
      assume a: "slots (host s) ! i = ASLEEP"
      show ?thesis
        using a E(2) [of i] E(3) by (cases "i = w") (auto simp: wake_due_def)
    qed (use wd b in simp)
  qed
qed

lemma host_inv_step:
  assumes "host_step F s e s'" "host_inv F n s" "futex_ok F"
  shows "host_inv F n s'"
  using assms(1)
proof cases
  case (park_call w)
  then show ?thesis using assms(2) by (fastforce simp: host_inv_def wake_due_def)
next
  case (park_move w pc pc' h k)
  then show ?thesis using host_inv_park [OF assms(2,3)] by simp
next
  case (park_exit w)
  then show ?thesis using assms(2) by (fastforce simp: host_inv_def wake_due_def)
next
  case (spurious_return w)
  then show ?thesis using assms(2) futexD(6) [OF assms(3)] by (auto simp: host_inv_def wake_due_def)
next
  case (unpark_call t w)
  have "wake_due s' i" if "wake_due s i" for i
    using that unpark_call by (auto simp: wake_due_def) (metis option.distinct(1))
  then show ?thesis using assms(2) unpark_call by (auto simp: host_inv_def)
next
  case (unpark_move t w pc pc' h k)
  then show ?thesis using host_inv_unpark [OF assms(2,3)] by simp
next
  case (unpark_exit t w)
  have "wake_due s' i" if "wake_due s i" for i
    using that unpark_exit by (auto simp: wake_due_def) (metis option.inject prod.inject unpark_pc.distinct(5))
  then show ?thesis using assms(2) unpark_exit by (auto simp: host_inv_def)
qed

lemma host_inv_reach: "host_reach F n clk s \<Longrightarrow> futex_ok F \<Longrightarrow> host_inv F n s"
  by (induction rule: host_reach.induct) (auto intro: host_inv_new host_inv_step)

section \<open>The contract of a host\<close>

text \<open>
  What \<^verbatim>\<open>trait Host\<close> asks for: one permit per worker, which an unpark leaves and a park
  takes before it may return.
\<close>

datatype phase = Out | Asking | Granted

record permits =
  permit :: "nat \<Rightarrow> bool"
  phase_of :: "nat \<Rightarrow> phase"

datatype permit_event = Ask nat | Take nat | Leave nat | Give nat | Quiet

inductive permit_step :: "permits \<Rightarrow> permit_event \<Rightarrow> permits \<Rightarrow> bool" where
  ask: "phase_of p w = Out \<Longrightarrow> permit_step p (Ask w) (p\<lparr>phase_of := (phase_of p)(w := Asking)\<rparr>)"
| take: "phase_of p w = Asking \<Longrightarrow> permit p w \<Longrightarrow>
    permit_step p (Take w) (p\<lparr>permit := (permit p)(w := False), phase_of := (phase_of p)(w := Granted)\<rparr>)"
| leave: "phase_of p w = Granted \<Longrightarrow> permit_step p (Leave w) (p\<lparr>phase_of := (phase_of p)(w := Out)\<rparr>)"
| give: "permit_step p (Give w) (p\<lparr>permit := (permit p)(w := True)\<rparr>)"
| quiet: "permit_step p Quiet p"

fun park_phase :: "park_pc option \<Rightarrow> phase" where
  "park_phase None = Out"
| "park_phase (Some TakeSignal) = Granted"
| "park_phase (Some ParkReturn) = Granted"
| "park_phase (Some _) = Asking"

definition host_permits :: "'f hosted \<Rightarrow> permits" where
  "host_permits s =
     \<lparr>permit = (\<lambda>w. w < length (slots (host s)) \<and> slots (host s) ! w = SIGNAL),
      phase_of = (\<lambda>w. park_phase (parkers s w))\<rparr>"

text \<open>Which events of the contract an event of the host may be.\<close>

fun host_label :: "'f hosted \<Rightarrow> host_event \<Rightarrow> permit_event \<Rightarrow> bool" where
  "host_label s (ParkCall w) l \<longleftrightarrow> l = Ask w"
| "host_label s (ParkStep w) l \<longleftrightarrow> l = Take w \<or> l = Quiet"
| "host_label s (ParkExit w) l \<longleftrightarrow> l = Leave w"
| "host_label s (Spurious w) l \<longleftrightarrow> l = Quiet"
| "host_label s (UnparkCall t w) l \<longleftrightarrow> l = Quiet"
| "host_label s (UnparkStep t) l \<longleftrightarrow>
     (case unparkers s t of
        Some (w, SwapSignal) \<Rightarrow> l = Give w
      | _ \<Rightarrow> l = Quiet)"
| "host_label s (UnparkExit t) l \<longleftrightarrow> l = Quiet"

lemma permits_eqI: "permit p = permit q \<Longrightarrow> phase_of p = phase_of q \<Longrightarrow> p = (q :: permits)"
  by simp

lemma park_move_permits:
  assumes inv: "host_inv F n s"
    and p: "parkers s w = Some pc" "pc \<noteq> ParkReturn" "park_step F w pc (host s, kernel s) = Inr (pc', h, k)"
  shows "\<exists>l \<in> {Take w, Quiet}.
    permit_step (host_permits s) l (host_permits (s\<lparr>host := h, kernel := k, parkers := (parkers s)(w \<mapsto> pc')\<rparr>))"
proof -
  let ?s = "s\<lparr>host := h, kernel := k, parkers := (parkers s)(w \<mapsto> pc')\<rparr>"
  have fits: "w < length (slots (host s)) \<Longrightarrow> word_fits (Some pc) (slots (host s) ! w)"
    using host_invD(1) [OF inv] host_invD(2) [OF inv, of w] p(1) by simp
  have quiet: "permit_step (host_permits s) Quiet (host_permits ?s)" if "host_permits ?s = host_permits s"
    unfolding that by (rule permit_step.quiet)
  have grant: "permit_step (host_permits s) (Take w) (host_permits ?s)"
    if "park_phase (Some pc) = Asking" "w < length (slots (host s))" "slots (host s) ! w = SIGNAL"
      "h = slot_store w v (host s)" "v \<noteq> SIGNAL" "park_phase (Some pc') = Granted" for v
  proof -
    have "host_permits ?s = (host_permits s)\<lparr>permit := (permit (host_permits s))(w := False),
        phase_of := (phase_of (host_permits s))(w := Granted)\<rparr>"
      using that by (auto intro!: permits_eqI ext simp: host_permits_def slot_store_def nth_list_update split: if_splits)
    then show ?thesis using that p(1) permit_step.take [of "host_permits s" w] by (simp add: host_permits_def)
  qed
  show ?thesis
  proof (cases "(pc = Swap \<and> slots (host s) ! w = SIGNAL) \<or> pc = Consume")
    case True
    then show ?thesis
      using p(3) fits grant [where v = ASLEEP] grant [where v = LOCKED] by (auto simp: monad_simps slot_load_Inr split: if_splits)
  next
    case False
    have "host_permits ?s = host_permits s"
      using p False fits
      by (cases pc) (auto intro!: permits_eqI ext simp: host_permits_def slot_store_def monad_simps slot_load_Inr nth_list_update split: if_splits)
    with quiet show ?thesis by blast
  qed
qed

lemma host_step_permits:
  assumes "host_step F s e s'" "host_inv F n s"
  shows "\<exists>l. host_label s e l \<and> permit_step (host_permits s) l (host_permits s')"
  using assms(1)
proof cases
  case (park_call w)
  have "host_permits s' = (host_permits s)\<lparr>phase_of := (phase_of (host_permits s))(w := Asking)\<rparr>"
    using park_call by (auto intro!: permits_eqI ext simp: host_permits_def)
  then show ?thesis using permit_step.ask [of "host_permits s" w] park_call by (simp add: host_permits_def)
next
  case (park_move w pc pc' h k)
  then show ?thesis using park_move_permits [OF assms(2), of w pc pc' h k] by auto
next
  case (park_exit w)
  have "host_permits s' = (host_permits s)\<lparr>phase_of := (phase_of (host_permits s))(w := Out)\<rparr>"
    using park_exit by (auto intro!: permits_eqI ext simp: host_permits_def)
  then show ?thesis using permit_step.leave [of "host_permits s" w] park_exit by (simp add: host_permits_def)
next
  case (unpark_move t w pc pc' h k)
  show ?thesis
  proof (cases pc)
    case SwapSignal
    have "host_permits s' = (host_permits s)\<lparr>permit := (permit (host_permits s))(w := True)\<rparr>"
      using unpark_move SwapSignal
      by (auto intro!: permits_eqI ext simp: host_permits_def monad_simps slot_load_Inr slot_store_def nth_list_update split: if_splits)
    then show ?thesis using permit_step.give [of "host_permits s" w] unpark_move SwapSignal by auto
  qed (use unpark_move in \<open>auto simp: host_permits_def intro: permit_step.quiet\<close>)
qed (auto simp: host_permits_def intro: permit_step.quiet)

section \<open>Running a schedule\<close>

text \<open>The event decides the step, so a schedule can be run.\<close>

fun host_do :: "'f futex \<Rightarrow> host_event \<Rightarrow> 'f hosted \<Rightarrow> 'f hosted option" where
  "host_do F (ParkCall w) s = (if parkers s w = None then Some (s\<lparr>parkers := (parkers s)(w \<mapsto> Swap)\<rparr>) else None)"
| "host_do F (ParkStep w) s =
     (case parkers s w of
        None \<Rightarrow> None
      | Some pc \<Rightarrow>
          if pc = ParkReturn then None
          else case park_step F w pc (host s, kernel s) of
              Inl _ \<Rightarrow> None
            | Inr (pc', h, k) \<Rightarrow> Some (s\<lparr>host := h, kernel := k, parkers := (parkers s)(w \<mapsto> pc')\<rparr>))"
| "host_do F (ParkExit w) s =
     (if parkers s w = Some ParkReturn then Some (s\<lparr>parkers := (parkers s)(w := None)\<rparr>) else None)"
| "host_do F (Spurious w) s =
     (if parkers s w = Some Waiting then Some (s\<lparr>kernel := fx_leave F w (kernel s)\<rparr>) else None)"
| "host_do F (UnparkCall t w) s =
     (if unparkers s t = None then Some (s\<lparr>unparkers := (unparkers s)(t \<mapsto> (w, SwapSignal))\<rparr>) else None)"
| "host_do F (UnparkStep t) s =
     (case unparkers s t of
        None \<Rightarrow> None
      | Some (w, pc) \<Rightarrow>
          if pc = UnparkReturn then None
          else case unpark_step F w pc (host s, kernel s) of
              Inl _ \<Rightarrow> None
            | Inr (pc', h, k) \<Rightarrow> Some (s\<lparr>host := h, kernel := k, unparkers := (unparkers s)(t \<mapsto> (w, pc'))\<rparr>))"
| "host_do F (UnparkExit t) s =
     (case unparkers s t of
        Some (w, UnparkReturn) \<Rightarrow> Some (s\<lparr>unparkers := (unparkers s)(t := None)\<rparr>)
      | _ \<Rightarrow> None)"

fun host_schedule :: "'f futex \<Rightarrow> host_event list \<Rightarrow> 'f hosted \<Rightarrow> 'f hosted option" where
  "host_schedule F [] s = Some s"
| "host_schedule F (e # es) s = Option.bind (host_do F e s) (host_schedule F es)"

lemma host_do_step: "host_do F e s = Some s' \<Longrightarrow> host_step F s e s'"
  by (cases e) (auto intro: host_step.intros split: option.splits if_splits sum.splits unpark_pc.splits prod.splits)

lemma host_schedule_reach: "host_reach F n clk s \<Longrightarrow> host_schedule F es s = Some s' \<Longrightarrow> host_reach F n clk s'"
proof (induction es arbitrary: s)
  case (Cons e es)
  then obtain s1 where "host_do F e s = Some s1" "host_schedule F es s1 = Some s'"
    by (auto simp: bind_eq_Some_conv)
  with Cons show ?case by (auto intro: host_reach.step host_do_step)
qed simp

text \<open>A futex as the documentation describes it: the set of addresses with a waiting thread.\<close>

definition wait_set :: "(nat \<Rightarrow> bool) futex" where
  "wait_set =
     \<lparr>fx_init = (\<lambda>_. False),
      fx_wait = (\<lambda>a v e k. if v = e then k(a := True) else k(a := False)),
      fx_wake_one = (\<lambda>a k. k(a := False)),
      fx_leave = (\<lambda>a k. k(a := False)),
      fx_blocked = (\<lambda>k a. k a)\<rparr>"

lemma wait_set_ok: "futex_ok wait_set"
  by (simp add: futex_ok_def wait_set_def)

section \<open>Properties\<close>

text \<open>
  C14. The contract of \<^verbatim>\<open>trait Host\<close>. In every interleaving of one parking thread per worker
  and any number of unparking threads, each access is a step of the permit protocol or
  invisible to it: starting a park asks for a permit, a park returns only after it has taken
  the permit, the swap of an unpark leaves one (also for a worker that is not parked), and
  no other access, in particular no second exchange of a park, loses or invents one.
\<close>

theorem atomic_host_refines_permits:
  assumes "futex_ok F" "host_reach F n clk s" "host_step F s e s'"
  shows "\<exists>l. host_label s e l \<and> permit_step (host_permits s) l (host_permits s')"
  by (rule host_step_permits [OF assms(3) host_inv_reach [OF assms(2,1)]])

theorem atomic_host_refines_permits_witness:
  "\<exists>s s' l. host_schedule wait_set [UnparkCall 7 0, UnparkStep 7, ParkCall 0] (hosted_new wait_set 1 (\<lambda>_. 0)) = Some s \<and>
     host_step wait_set s (ParkStep 0) s' \<and> host_label s (ParkStep 0) l \<and>
     permit_step (host_permits s) l (host_permits s') \<and> permit (host_permits s) 0 \<and> \<not> permit (host_permits s') 0"
proof -
  let ?es = "[UnparkCall 7 0, UnparkStep 7, ParkCall 0]"
  define s where "s = the (host_schedule wait_set ?es (hosted_new wait_set 1 (\<lambda>_. 0)))"
  have s: "host_schedule wait_set ?es (hosted_new wait_set 1 (\<lambda>_. 0)) = Some s"
    by (simp add: s_def hosted_new_def atomic_host_new_def slot_load_def park_words)
  define s' where "s' = the (host_do wait_set (ParkStep 0) s)"
  have s': "host_do wait_set (ParkStep 0) s = Some s'"
    by (simp add: s'_def s_def hosted_new_def atomic_host_new_def slot_load_def slot_store_def park_words)
  have p: "permit (host_permits s) 0" "\<not> permit (host_permits s') 0"
    by (simp_all add: s'_def s_def hosted_new_def atomic_host_new_def slot_load_def slot_store_def park_words host_permits_def)
  have r: "host_reach wait_set 1 (\<lambda>_. 0) s" by (rule host_schedule_reach [OF host_reach.init s])
  obtain l where "host_label s (ParkStep 0) l" "permit_step (host_permits s) l (host_permits s')"
    using atomic_host_refines_permits [OF wait_set_ok r host_do_step [OF s']] by blast
  with s host_do_step [OF s'] p show ?thesis by blast
qed

text \<open>
  C15. No lost wakeup. In every reachable state, a worker whose thread is blocked in the
  futex while a permit is there has a waker on its way: some thread is inside \<^verbatim>\<open>unpark\<close> of
  that worker, between its swap and its system call.
\<close>

theorem atomic_host_no_lost_wakeup:
  assumes "futex_ok F" "host_reach F n clk s" "fx_blocked F (kernel s) w" "permit (host_permits s) w"
  shows "\<exists>t. unparkers s t = Some (w, WakeOne)"
  using host_invD(5) [OF host_inv_reach [OF assms(2,1)] assms(3)] assms(4)
  by (auto simp: host_permits_def wake_due_def)

theorem atomic_host_no_lost_wakeup_witness:
  "\<exists>s t. host_schedule wait_set [ParkCall 0, ParkStep 0, ParkStep 0, ParkStep 0, UnparkCall 7 0, UnparkStep 7]
       (hosted_new wait_set 1 (\<lambda>_. 0)) = Some s \<and> fx_blocked wait_set (kernel s) 0 \<and> permit (host_permits s) 0 \<and>
     unparkers s t = Some (0, WakeOne)"
proof -
  let ?es = "[ParkCall 0, ParkStep 0, ParkStep 0, ParkStep 0, UnparkCall 7 0, UnparkStep 7]"
  define s where "s = the (host_schedule wait_set ?es (hosted_new wait_set 1 (\<lambda>_. 0)))"
  have s: "host_schedule wait_set ?es (hosted_new wait_set 1 (\<lambda>_. 0)) = Some s"
    by (simp add: s_def hosted_new_def atomic_host_new_def slot_load_def slot_store_def park_words)
  have p: "fx_blocked wait_set (kernel s) 0" "permit (host_permits s) 0"
    by (simp_all add: s_def hosted_new_def atomic_host_new_def slot_load_def slot_store_def park_words host_permits_def wait_set_def)
  have r: "host_reach wait_set 1 (\<lambda>_. 0) s" by (rule host_schedule_reach [OF host_reach.init s])
  from atomic_host_no_lost_wakeup [OF wait_set_ok r p] s p show ?thesis by blast
qed

lemma numeral_steps: "(5 :: nat) = Suc (Suc (Suc (Suc (Suc 0))))"
  by simp



end
