(* ===== verification/Std_Host.thy ===== *)
theory Std_Host
  imports Atomic_Host
begin

text \<open>
  The host with the standard library's clock, \<^verbatim>\<open>src/src/fanout/host.rs\<close>: an \<open>atomic_host\<close>
  whose own clock is not used, and the moment it was made. An \<^verbatim>\<open>Instant\<close> is a number of
  nanoseconds of the monotonic clock; what the clock shows is an argument.
\<close>

record std_host =
  parking :: atomic_host
  origin :: nat

definition std_host_new :: "nat \<Rightarrow> nat \<Rightarrow> std_host" where
  "std_host_new now workers = \<lparr>parking = atomic_host_new workers (\<lambda>_. 0), origin = now\<rparr>"

definition std_host_spurious :: "std_host \<Rightarrow> ulong" where
  "std_host_spurious h = atomic_host_spurious (parking h)"

definition std_host_timeouts :: "std_host \<Rightarrow> ulong" where
  "std_host_timeouts h = 0"

text \<open>Parking and unparking are those of the inner host.\<close>

definition std_park_step :: "'f futex \<Rightarrow> nat \<Rightarrow> park_pc \<Rightarrow> std_host \<times> 'f \<Rightarrow> (park_pc \<times> std_host \<times> 'f) res" where
  "std_park_step F w pc = (\<lambda>(h, k).
     rbind (park_step F w pc (parking h, k)) (\<lambda>(pc', p, k'). Inr (pc', h\<lparr>parking := p\<rparr>, k')))"

definition std_unpark_step :: "'f futex \<Rightarrow> nat \<Rightarrow> unpark_pc \<Rightarrow> std_host \<times> 'f \<Rightarrow> (unpark_pc \<times> std_host \<times> 'f) res" where
  "std_unpark_step F w pc = (\<lambda>(h, k).
     rbind (unpark_step F w pc (parking h, k)) (\<lambda>(pc', p, k'). Inr (pc', h\<lparr>parking := p\<rparr>, k')))"

text \<open>\<^verbatim>\<open>elapsed\<close> is zero for a clock that went backwards; a time of 64 bits or more is the largest one.\<close>

definition std_host_now_ns :: "nat \<Rightarrow> std_host \<Rightarrow> ulong" where
  "std_host_now_ns now h = (let ns = now - origin h in if ns < 2 ^ 64 then word_of_nat ns else - 1)"

lemma unat_std_host_now_ns: "unat (std_host_now_ns now h) = min (now - origin h) (2 ^ 64 - 1)"
proof (cases "now - origin h < 2 ^ 64")
  case False
  then have "unat (std_host_now_ns now h) = 2 ^ 64 - 1" by (simp add: std_host_now_ns_def unsigned_minus_1_eq_mask mask_eq_exp_minus_1)
  with False show ?thesis by simp
qed (simp add: std_host_now_ns_def unat_of_nat)

lemma std_host_now_mono: "now \<le> now' \<Longrightarrow> std_host_now_ns now h \<le> std_host_now_ns now' h"
  unfolding word_le_nat_alt unat_std_host_now_ns by (simp add: min.coboundedI1 diff_le_mono min.mono)

text \<open>The contract of a host carries over: what a step does to the park words is what the inner host does.\<close>

lemma std_park_step_parking:
  "map_sum id (\<lambda>(pc', h', k'). (pc', parking h', k')) (std_park_step F w pc (h, k)) = park_step F w pc (parking h, k)"
  "map_sum id (\<lambda>(pc', h', k'). (pc', parking h', k')) (std_unpark_step F w upc (h, k)) = unpark_step F w upc (parking h, k)"
  by (cases "park_step F w pc (parking h, k)"; cases "unpark_step F w upc (parking h, k)";
      auto simp: std_park_step_def std_unpark_step_def)+

lemma std_host_calls_origin: "std_park_step F w pc (h, k) = Inr (pc', h', k') \<Longrightarrow> origin h' = origin h"
  by (auto simp: std_park_step_def rbind_Inr_iff)

end
