(* ===== verification/Tuning.thy ===== *)
theory Tuning
  imports Prelude
begin

text \<open>
  The idle and locality policy of the pool: \<^verbatim>\<open>struct Tuning\<close>, its presets and its builder
  methods, and the constants behind the default (\<^verbatim>\<open>src/src/fanout/mod.rs\<close>).
\<close>

section \<open>Model\<close>

record tuning =
  rounds_before_park :: "32 word"
  backoff_spins :: "32 word"
  injector_batch :: usize
  lifo_run_limit :: "32 word"
  share_displaced :: bool
  stealable_inbox :: bool
  local_wakes :: bool
  promote_every :: ulong

definition LIFO_RUN_LIMIT :: "32 word" where "LIFO_RUN_LIMIT = 32"
definition ROUNDS_BEFORE_PARK :: "32 word" where "ROUNDS_BEFORE_PARK = 4"
definition BACKOFF_SPINS :: "32 word" where "BACKOFF_SPINS = 128"
definition PROMOTE_EVERY :: ulong where "PROMOTE_EVERY = 64"
definition INJECTOR_BATCH :: usize where "INJECTOR_BATCH = 1"
definition PULL_BATCH :: usize where "PULL_BATCH = 32"

lemmas tuning_consts =
  LIFO_RUN_LIMIT_def ROUNDS_BEFORE_PARK_def BACKOFF_SPINS_def PROMOTE_EVERY_def INJECTOR_BATCH_def

definition with_lifo_run_limit :: "32 word \<Rightarrow> tuning \<Rightarrow> tuning" where
  "with_lifo_run_limit limit t = t\<lparr>lifo_run_limit := limit\<rparr>"

definition with_share_displaced :: "bool \<Rightarrow> tuning \<Rightarrow> tuning" where
  "with_share_displaced b t = t\<lparr>share_displaced := b\<rparr>"

definition with_stealable_inbox :: "bool \<Rightarrow> tuning \<Rightarrow> tuning" where
  "with_stealable_inbox b t = t\<lparr>stealable_inbox := b\<rparr>"

definition with_rounds_before_park :: "32 word \<Rightarrow> tuning \<Rightarrow> tuning" where
  "with_rounds_before_park rounds t = t\<lparr>rounds_before_park := rounds\<rparr>"

definition with_backoff_spins :: "32 word \<Rightarrow> tuning \<Rightarrow> tuning" where
  "with_backoff_spins spins t = t\<lparr>backoff_spins := spins\<rparr>"

definition with_injector_batch :: "usize \<Rightarrow> tuning \<Rightarrow> tuning" where
  "with_injector_batch batch t = t\<lparr>injector_batch := batch\<rparr>"

definition with_local_wakes :: "bool \<Rightarrow> tuning \<Rightarrow> tuning" where
  "with_local_wakes b t = t\<lparr>local_wakes := b\<rparr>"

definition with_promote_every :: "ulong \<Rightarrow> tuning \<Rightarrow> tuning" where
  "with_promote_every jobs t = t\<lparr>promote_every := jobs\<rparr>"

lemmas tuning_withs =
  with_lifo_run_limit_def with_share_displaced_def with_stealable_inbox_def with_rounds_before_park_def
  with_backoff_spins_def with_injector_batch_def with_local_wakes_def with_promote_every_def

definition locality :: tuning where
  "locality =
     \<lparr>rounds_before_park = ROUNDS_BEFORE_PARK, backoff_spins = BACKOFF_SPINS, injector_batch = INJECTOR_BATCH,
      lifo_run_limit = LIFO_RUN_LIMIT, share_displaced = False, stealable_inbox = False, local_wakes = True,
      promote_every = PROMOTE_EVERY\<rparr>"

definition tuning_default :: tuning where
  "tuning_default = locality"

definition almost_tokio :: tuning where
  "almost_tokio = with_rounds_before_park 0 (with_lifo_run_limit 3 (with_stealable_inbox True locality))"

definition spread :: tuning where
  "spread = locality\<lparr>local_wakes := False\<rparr>"

definition throughput :: tuning where
  "throughput = locality\<lparr>local_wakes := False, injector_batch := 8\<rparr>"

lemmas tuning_presets = locality_def tuning_default_def almost_tokio_def spread_def throughput_def

text \<open>What pool construction asserts of a tuning.\<close>

definition tuning_ok :: "tuning \<Rightarrow> bool" where
  "tuning_ok t \<longleftrightarrow> lifo_run_limit t \<noteq> 0 \<and> promote_every t \<noteq> 0 \<and> injector_batch t \<noteq> 0"

lemma presets_ok:
  "tuning_ok locality" "tuning_ok tuning_default" "tuning_ok almost_tokio" "tuning_ok spread" "tuning_ok throughput"
  by (simp_all add: tuning_ok_def tuning_presets tuning_consts tuning_withs)

end
