(* ===== verification/Pool.thy ===== *)
theory Pool
  imports Lifo Injector Job Tuning
begin

text \<open>
  The pool of workers, \<^verbatim>\<open>src/src/fanout/mod.rs\<close>: its state, every method, and the run loop of
  a worker, one iteration at a time. The methods are written over the interfaces of the two
  queue types the pool uses, \<open>wq_ops\<close> for the sharing deques and \<open>mpmc_ops\<close> for the injector
  and the inboxes, and are shown to be correct for every implementation of these; the
  properties are about the deques of \<open>Lifo\<close> and the queues of \<open>Injector\<close>.

  Effects outside the pool are kept as logs: the workers that were unparked, the parks, the
  jobs that were run. What a job does to the pool when it runs is a parameter.
\<close>

section \<open>State\<close>

text \<open>
  A worker's \<^verbatim>\<open>Local\<close>. Its deque is a handle, the address of the deque in the pool's store;
  \<open>None\<close> is the null pointer while a thread runs the worker.
\<close>

record ('i, 'j) worker_local =
  loc_queue :: "nat option"
  loc_completed :: ulong
  loc_inbox :: 'i
  loc_lifo :: "'j option"

record ('q, 'i, 'j) pool =
  pool_id :: usize
  locals :: "('i, 'j) worker_local list"
  stealers :: "nat list"
  deques :: "nat \<Rightarrow> 'q"
  pool_injector :: 'i
  running :: bool
  pool_tuning :: tuning
  sleeping :: usize
  searching :: usize
  unparks :: "nat list"
  parks :: "nat list"
  jobs_run :: "'j list"

record runner =
  runner_pool :: usize
  runner_id :: nat

definition workers :: "('q, 'i, 'j) pool \<Rightarrow> nat" where
  "workers P = length (locals P)"

definition get_local :: "nat \<Rightarrow> ('q, 'i, 'j) pool \<Rightarrow> ('i, 'j) worker_local res" where
  "get_local w P = (if w < length (locals P) then Inr (locals P ! w) else Inl IndexOutOfBounds)"

definition set_local :: "nat \<Rightarrow> ('i, 'j) worker_local \<Rightarrow> ('q, 'i, 'j) pool \<Rightarrow> ('q, 'i, 'j) pool" where
  "set_local w l P = P\<lparr>locals := (locals P)[w := l]\<rparr>"

definition unpark :: "nat \<Rightarrow> ('q, 'i, 'j) pool \<Rightarrow> ('q, 'i, 'j) pool" where
  "unpark w P = P\<lparr>unparks := unparks P @ [w]\<rparr>"

text \<open>\<^verbatim>\<open>1usize << worker\<close>, which overflows for a worker the bitmap cannot name.\<close>

definition worker_bit :: "nat \<Rightarrow> usize res" where
  "worker_bit w = (if w < 64 then Inr (push_bit w 1) else Inl ArithOverflow)"

section \<open>The local slots\<close>

definition take_queue :: "('i, 'j) worker_local \<Rightarrow> nat option \<times> ('i, 'j) worker_local" where
  "take_queue l = (loc_queue l, l\<lparr>loc_queue := None\<rparr>)"

definition put_queue :: "nat \<Rightarrow> ('i, 'j) worker_local \<Rightarrow> ('i, 'j) worker_local res" where
  "put_queue a l = (if loc_queue l = None then Inr (l\<lparr>loc_queue := Some a\<rparr>) else Inl AssertFailed)"

definition slot_replace :: "'j \<Rightarrow> ('i, 'j) worker_local \<Rightarrow> 'j option \<times> ('i, 'j) worker_local" where
  "slot_replace job l = (loc_lifo l, l\<lparr>loc_lifo := Some job\<rparr>)"

definition slot_take :: "('i, 'j) worker_local \<Rightarrow> 'j option \<times> ('i, 'j) worker_local" where
  "slot_take l = (loc_lifo l, l\<lparr>loc_lifo := None\<rparr>)"

definition slot_is_some :: "('i, 'j) worker_local \<Rightarrow> bool" where
  "slot_is_some l = (loc_lifo l \<noteq> None)"

section \<open>Construction\<close>

text \<open>
  \<open>next_pool\<close> is the static counter \<^verbatim>\<open>NEXT_POOL\<close>. The deques are all made alike, one per worker;
  addresses beyond the workers are never used.
\<close>

definition with_tuning ::
  "('q, 'd, 'j) wq_ops \<Rightarrow> ('i, 'j) mpmc_ops \<Rightarrow> usize \<Rightarrow> nat \<Rightarrow> nat \<Rightarrow> tuning \<Rightarrow> (('q, 'i, 'j) pool \<times> usize) res" where
  "with_tuning W J next_pool n capacity t =
     rbind (assert_that (n > 0)) (\<lambda>_.
     rbind (assert_that (lifo_run_limit t > 0)) (\<lambda>_.
     rbind (assert_that (promote_every t > 0)) (\<lambda>_.
     rbind (assert_that (injector_batch t > 0)) (\<lambda>_.
     rbind (assert_that (n \<le> 64)) (\<lambda>_.
     rbind (wq_new W capacity) (\<lambda>queue.
       Inr (\<lparr>pool_id = next_pool,
             locals = map (\<lambda>a. \<lparr>loc_queue = Some a, loc_completed = 0, loc_inbox = mq_new J, loc_lifo = None\<rparr>) [0..<n],
             stealers = [0..<n], deques = (\<lambda>_. queue), pool_injector = mq_new J, running = True, pool_tuning = t,
             sleeping = 0, searching = 0, unparks = [], parks = [], jobs_run = []\<rparr>,
            next_pool + 1)))))))"

definition pool_new ::
  "('q, 'd, 'j) wq_ops \<Rightarrow> ('i, 'j) mpmc_ops \<Rightarrow> usize \<Rightarrow> nat \<Rightarrow> nat \<Rightarrow> (('q, 'i, 'j) pool \<times> usize) res" where
  "pool_new W J next_pool n capacity = with_tuning W J next_pool n capacity tuning_default"

definition pool_runner :: "nat \<Rightarrow> ('q, 'i, 'j) pool \<Rightarrow> runner res" where
  "pool_runner i P =
     rbind (assert_that (i < workers P)) (\<lambda>_. Inr \<lparr>runner_pool = pool_id P, runner_id = i\<rparr>)"

definition completed :: "nat \<Rightarrow> ('q, 'i, 'j) pool \<Rightarrow> ulong res" where
  "completed i P = rbind (get_local i P) (\<lambda>l. Inr (loc_completed l))"

definition has_idle_workers :: "('q, 'i, 'j) pool \<Rightarrow> bool" where
  "has_idle_workers P = (sleeping P \<noteq> 0)"

definition is_running :: "('q, 'i, 'j) pool \<Rightarrow> bool" where
  "is_running P = running P"

section \<open>Waking\<close>

definition trailing_zeros :: "usize \<Rightarrow> nat" where
  "trailing_zeros s = length (takeWhile (\<lambda>i. \<not> bit s i) [0..<64])"

text \<open>
  The loop of \<open>claim_sleeper\<close> goes round only when another thread clears the bit between the
  load and the exchange.
\<close>

definition claim_sleeper :: "usize \<Rightarrow> ('q, 'i, 'j) pool \<Rightarrow> (nat option \<times> ('q, 'i, 'j) pool) res" where
  "claim_sleeper blocked P =
     (let s = sleeping P AND NOT blocked in
      if s = 0 then Inr (None, P)
      else
        let candidate = trailing_zeros s in
        rbind (worker_bit candidate) (\<lambda>b.
          if sleeping P AND b \<noteq> 0
          then Inr (Some candidate, P\<lparr>sleeping := sleeping P AND NOT b\<rparr>)
          else Inl Livelock))"

definition wake :: "nat option \<Rightarrow> ('q, 'i, 'j) pool \<Rightarrow> ('q, 'i, 'j) pool res" where
  "wake hint P =
     rbind (claim_sleeper 0 P) (\<lambda>(c, P).
       case c of
         Some candidate \<Rightarrow> Inr (unpark candidate P)
       | None \<Rightarrow> (case hint of Some w \<Rightarrow> Inr (unpark w P) | None \<Rightarrow> Inr P))"

definition wake_specific :: "nat \<Rightarrow> ('q, 'i, 'j) pool \<Rightarrow> ('q, 'i, 'j) pool res" where
  "wake_specific w P =
     rbind (worker_bit w) (\<lambda>b.
       if sleeping P AND b = 0 then Inr P
       else
         let P' = P\<lparr>sleeping := sleeping P AND NOT b\<rparr> in
         if sleeping P AND b \<noteq> 0 then Inr (unpark w P') else Inr P')"

fun nudge_loop :: "usize \<Rightarrow> nat \<Rightarrow> ('q, 'i, 'j) pool \<Rightarrow> ('q, 'i, 'j) pool res" where
  "nudge_loop spare 0 P = Inr P"
| "nudge_loop spare (Suc wanted) P =
     rbind (claim_sleeper spare P) (\<lambda>(c, P).
       case c of None \<Rightarrow> Inr P | Some candidate \<Rightarrow> nudge_loop spare wanted (unpark candidate P))"

definition nudge_many :: "nat option \<Rightarrow> nat \<Rightarrow> ('q, 'i, 'j) pool \<Rightarrow> ('q, 'i, 'j) pool res" where
  "nudge_many except wanted P =
     rbind (case except of Some i \<Rightarrow> worker_bit i | None \<Rightarrow> Inr 0) (\<lambda>spare. nudge_loop spare wanted P)"

definition nudge :: "nat option \<Rightarrow> ('q, 'i, 'j) pool \<Rightarrow> ('q, 'i, 'j) pool res" where
  "nudge except P = nudge_many except 1 P"

fun unpark_all :: "nat list \<Rightarrow> ('q, 'i, 'j) pool \<Rightarrow> ('q, 'i, 'j) pool" where
  "unpark_all [] P = P"
| "unpark_all (w # ws) P = unpark_all ws (unpark w P)"

definition shut_down :: "('q, 'i, 'j) pool \<Rightarrow> ('q, 'i, 'j) pool" where
  "shut_down P = (let P' = P\<lparr>running := False\<rparr> in unpark_all [0..<workers P'] P')"

section \<open>Submitting\<close>

text \<open>
  The number \<open>k\<close> is how often each weak exchange of the queues fails spuriously during the
  call.
\<close>

definition inject :: "('i, 'j) mpmc_ops \<Rightarrow> nat \<Rightarrow> 'j \<Rightarrow> ('q, 'i, 'j) pool \<Rightarrow> ('q, 'i, 'j) pool res" where
  "inject J k job P = rbind (mq_push J k (pool_injector P) job) (\<lambda>q. Inr (P\<lparr>pool_injector := q\<rparr>))"

definition push_inbox :: "('i, 'j) mpmc_ops \<Rightarrow> nat \<Rightarrow> nat \<Rightarrow> 'j \<Rightarrow> ('q, 'i, 'j) pool \<Rightarrow> ('q, 'i, 'j) pool res" where
  "push_inbox J k w job P =
     rbind (get_local w P) (\<lambda>l.
     rbind (mq_push J k (loc_inbox l) job) (\<lambda>q. Inr (set_local w (l\<lparr>loc_inbox := q\<rparr>) P)))"

definition pop_inbox :: "('i, 'j) mpmc_ops \<Rightarrow> nat \<Rightarrow> nat \<Rightarrow> ('q, 'i, 'j) pool \<Rightarrow> ('j option \<times> ('q, 'i, 'j) pool) res" where
  "pop_inbox J k w P =
     rbind (get_local w P) (\<lambda>l.
     rbind (mq_pop J k (loc_inbox l)) (\<lambda>(r, q). Inr (r, set_local w (l\<lparr>loc_inbox := q\<rparr>) P)))"

definition pool_push :: "('i, 'j) mpmc_ops \<Rightarrow> nat \<Rightarrow> nat option \<Rightarrow> 'j \<Rightarrow> ('q, 'i, 'j) pool \<Rightarrow> ('q, 'i, 'j) pool res" where
  "pool_push J k hint job P = rbind (inject J k job P) (wake hint)"

definition submit_job :: "('i, 'j) mpmc_ops \<Rightarrow> nat \<Rightarrow> 'j \<Rightarrow> ('q, 'i, 'j) pool \<Rightarrow> ('q, 'i, 'j) pool res" where
  "submit_job J k job P = pool_push J k None job P"

text \<open>\<^verbatim>\<open>submit\<close> and \<^verbatim>\<open>submit_fn\<close> box the work first.\<close>

definition submit ::
  "('i, 'w job) mpmc_ops \<Rightarrow> nat \<Rightarrow> nat \<Rightarrow> 'w \<Rightarrow> ('q, 'i, 'w job) pool \<times> 'w job_heap \<Rightarrow> (('q, 'i, 'w job) pool \<times> 'w job_heap) res" where
  "submit J k worker task = (\<lambda>(P, m).
     let (job, m') = from_boxed task m in rbind (pool_push J k (Some worker) job P) (\<lambda>P'. Inr (P', m')))"

definition submit_fn ::
  "('i, 'w job) mpmc_ops \<Rightarrow> nat \<Rightarrow> 'w \<Rightarrow> ('q, 'i, 'w job) pool \<times> 'w job_heap \<Rightarrow> (('q, 'i, 'w job) pool \<times> 'w job_heap) res" where
  "submit_fn J k work = (\<lambda>(P, m).
     let (job, m') = from_boxed work m in rbind (pool_push J k None job P) (\<lambda>P'. Inr (P', m')))"

definition submit_local :: "('i, 'j) mpmc_ops \<Rightarrow> nat \<Rightarrow> nat \<Rightarrow> 'j \<Rightarrow> ('q, 'i, 'j) pool \<Rightarrow> ('q, 'i, 'j) pool res" where
  "submit_local J k worker job P =
     (if \<not> local_wakes (pool_tuning P) then pool_push J k None job P
      else
        rbind (get_local worker P) (\<lambda>l.
        let (displaced, l') = slot_replace job l;
            P = set_local worker l' P;
            published_inbox = (stealable_inbox (pool_tuning P) \<and> displaced \<noteq> None)
        in
        rbind (case displaced of
                 None \<Rightarrow> Inr P
               | Some displaced \<Rightarrow>
                   if \<not> stealable_inbox (pool_tuning P) \<and> share_displaced (pool_tuning P) \<and>
                      \<not> mq_is_empty J (loc_inbox l')
                   then inject J k displaced P
                   else push_inbox J k worker displaced P) (\<lambda>P.
        rbind (wake_specific worker P) (\<lambda>P.
          if published_inbox then nudge (Some worker) P else Inr P))))"

section \<open>Moving work\<close>

text \<open>
  \<open>mine\<close>, a \<^verbatim>\<open>VecDeque\<close> in the source, is a list from front to back. The loop of
  \<open>take_from_injector\<close> is bounded by the batch, the one that empties the inbox by
  \<^verbatim>\<open>promote_every\<close>; the bound left is their first argument.
\<close>

definition pop_injector :: "('i, 'j) mpmc_ops \<Rightarrow> nat \<Rightarrow> ('q, 'i, 'j) pool \<Rightarrow> ('j option \<times> ('q, 'i, 'j) pool) res" where
  "pop_injector J k P = rbind (mq_pop J k (pool_injector P)) (\<lambda>(r, q). Inr (r, P\<lparr>pool_injector := q\<rparr>))"

fun take_loop ::
  "nat \<Rightarrow> ('i, 'j) mpmc_ops \<Rightarrow> nat \<Rightarrow> 'j list \<Rightarrow> ('q, 'i, 'j) pool \<Rightarrow> (nat \<times> 'j list \<times> ('q, 'i, 'j) pool) res" where
  "take_loop 0 J k mine P = Inr (0, mine, P)"
| "take_loop (Suc left) J k mine P =
     rbind (pop_injector J k P) (\<lambda>(r, P).
       case r of
         None \<Rightarrow> Inr (0, mine, P)
       | Some job \<Rightarrow>
           rbind (take_loop left J k (mine @ [job]) P) (\<lambda>(taken, mine, P). Inr (Suc taken, mine, P)))"

definition take_from_injector ::
  "('i, 'j) mpmc_ops \<Rightarrow> nat \<Rightarrow> 'j list \<Rightarrow> ('q, 'i, 'j) pool \<Rightarrow> (nat \<times> 'j list \<times> ('q, 'i, 'j) pool) res" where
  "take_from_injector J k mine P =
     rbind (take_loop (unat (injector_batch (pool_tuning P))) J k mine P) (\<lambda>(taken, mine, P).
     rbind (mq_len J (pool_injector P)) (\<lambda>remaining.
     rbind (if remaining > 0 then nudge_many None (min (unat remaining) (workers P)) P else Inr P) (\<lambda>P.
       Inr (taken, mine, P))))"

definition publish_capped_slot ::
  "('i, 'j) mpmc_ops \<Rightarrow> nat \<Rightarrow> nat \<Rightarrow> bool \<Rightarrow> ('q, 'i, 'j) pool \<Rightarrow> ('q, 'i, 'j) pool res" where
  "publish_capped_slot J k w has_other_ready_work P =
     rbind (get_local w P) (\<lambda>l.
     let (job, l') = slot_take l; P = set_local w l' P in
     case job of
       None \<Rightarrow> Inr P
     | Some job \<Rightarrow>
         rbind (push_inbox J k w job P) (\<lambda>P.
         rbind (get_local w P) (\<lambda>l.
         rbind (if has_other_ready_work then Inr True else rbind (mq_len J (loc_inbox l)) (\<lambda>n. Inr (n > 1))) (\<lambda>b.
           if b then nudge (Some w) P else Inr P))))"

fun share_loop ::
  "nat \<Rightarrow> ('q, 'd, 'j) wq_ops \<Rightarrow> nat \<Rightarrow> 'j list \<Rightarrow> ('q, 'i, 'j) pool \<Rightarrow> (nat \<times> 'j list \<times> ('q, 'i, 'j) pool) res" where
  "share_loop 0 W queue mine P = Inr (0, mine, P)"
| "share_loop (Suc left) W queue mine P =
     (case mine of
        [] \<Rightarrow> Inr (0, mine, P)
      | job # mine \<Rightarrow>
          rbind (wq_push W (deques P queue) job) (\<lambda>(r, q).
          let P = P\<lparr>deques := (deques P)(queue := q)\<rparr> in
          case r of
            Inr _ \<Rightarrow> rbind (share_loop left W queue mine P) (\<lambda>(shared, mine, P). Inr (Suc shared, mine, P))
          | Inl back \<Rightarrow> Inr (0, back # mine, P)))"

definition share ::
  "('q, 'd, 'j) wq_ops \<Rightarrow> nat \<Rightarrow> nat \<Rightarrow> 'j list \<Rightarrow> ('q, 'i, 'j) pool \<Rightarrow> ('j list \<times> ('q, 'i, 'j) pool) res" where
  "share W queue w mine P =
     (if length mine < 2 then Inr (mine, P)
      else
        rbind (share_loop (length mine div 2) W queue mine P) (\<lambda>(shared, mine, P).
        rbind (if shared > 0 then nudge_many (Some w) shared P else Inr P) (\<lambda>P. Inr (mine, P))))"

definition promote ::
  "('q, 'd, 'j) wq_ops \<Rightarrow> nat \<Rightarrow> nat \<Rightarrow> 'j list \<Rightarrow> ('q, 'i, 'j) pool \<Rightarrow> ('j list \<times> ('q, 'i, 'j) pool) res" where
  "promote W queue w mine P = (if sleeping P = 0 then Inr (mine, P) else share W queue w mine P)"

section \<open>Stealing\<close>

definition next_rng :: "ulong \<Rightarrow> ulong" where
  "next_rng r =
     (let r = r XOR push_bit 13 r; r = r XOR drop_bit 7 r; r = r XOR push_bit 17 r in r)"

definition pull :: count_fn where
  "pull = (\<lambda>_ n. Some ((min n PULL_BATCH + 1) div 2))"

text \<open>The sweep over the victims, by their offsets from the start.\<close>

fun steal_loop ::
  "nat list \<Rightarrow> ('q, 'd, 'j) wq_ops \<Rightarrow> ('i, 'j) mpmc_ops \<Rightarrow> nat \<Rightarrow> nat \<Rightarrow> nat \<Rightarrow> nat \<Rightarrow> ('q, 'i, 'j) pool \<Rightarrow>
     (nat \<times> ('q, 'i, 'j) pool) res" where
  "steal_loop [] W J k queue w start P = Inr (0, P)"
| "steal_loop (offset # offsets) W J k queue w start P =
     (let victim = (start + offset) mod workers P in
      if victim = w then steal_loop offsets W J k queue w start P
      else
        rbind (if stealable_inbox (pool_tuning P) then pop_inbox J k victim P else Inr (None, P)) (\<lambda>(stolen, P).
        case stolen of
          Some job \<Rightarrow>
            rbind (wq_push W (deques P queue) job) (\<lambda>(r, q).
            let P = P\<lparr>deques := (deques P)(queue := q)\<rparr> in
            rbind (case r of Inr _ \<Rightarrow> Inr P | Inl job \<Rightarrow> pool_push J k (Some w) job P) (\<lambda>P. Inr (1, P)))
        | None \<Rightarrow>
            if victim < length (stealers P)
            then
              rbind (wq_steal W k k pull (stealers P ! victim) queue (deques P)) (\<lambda>(r, Q).
              let P = P\<lparr>deques := Q\<rparr>; got = (case r of Inl _ \<Rightarrow> 0 | Inr n \<Rightarrow> unat n) in
              if got > 0
              then rbind (if got > 1 then nudge (Some w) P else Inr P) (\<lambda>P. Inr (got, P))
              else steal_loop offsets W J k queue w start P)
            else Inl IndexOutOfBounds))"

definition steal_once ::
  "('q, 'd, 'j) wq_ops \<Rightarrow> ('i, 'j) mpmc_ops \<Rightarrow> nat \<Rightarrow> nat \<Rightarrow> nat \<Rightarrow> ulong \<Rightarrow> ('q, 'i, 'j) pool \<Rightarrow>
     (nat \<times> ulong \<times> ('q, 'i, 'j) pool) res" where
  "steal_once W J k queue w rng P =
     (if workers P < 2 then Inr (0, rng, P)
      else
        let rng = next_rng rng; start = unat (rng mod word_of_nat (workers P)) in
        rbind (steal_loop [0..<workers P] W J k queue w start P) (\<lambda>(got, P). Inr (got, rng, P)))"

definition prepare_to_park ::
  "('q, 'd, 'j) wq_ops \<Rightarrow> ('i, 'j) mpmc_ops \<Rightarrow> nat \<Rightarrow> nat \<Rightarrow> nat \<Rightarrow> ulong \<Rightarrow> ('q, 'i, 'j) pool \<Rightarrow>
     (bool \<times> ulong \<times> ('q, 'i, 'j) pool) res" where
  "prepare_to_park W J k queue w rng P =
     rbind (worker_bit w) (\<lambda>b.
     let P = P\<lparr>sleeping := sleeping P OR b\<rparr> in
     rbind (get_local w P) (\<lambda>l.
     rbind (if \<not> mq_is_empty J (pool_injector P) \<or> \<not> mq_is_empty J (loc_inbox l) \<or> slot_is_some l
            then Inr (True, rng, P)
            else rbind (steal_once W J k queue w rng P) (\<lambda>(got, rng, P). Inr (got > 0, rng, P))) (\<lambda>(found, rng, P).
       if found then Inr (False, rng, P\<lparr>sleeping := sleeping P AND NOT b\<rparr>) else Inr (True, rng, P))))"

section \<open>The run loop\<close>

text \<open>
  The local variables of \<^verbatim>\<open>run\<close>. What a job does to the pool while it runs is the list of
  calls \<open>body\<close> gives for it.
\<close>

record 'j run_state =
  queue :: nat
  mine :: "'j list"
  until_promote :: ulong
  spins :: "32 word"
  rng :: ulong
  lifo_run :: "32 word"

datatype 'j pool_call = SubmitJob "nat option" 'j | SubmitLocal nat 'j | ShutDown

fun exec_call :: "('i, 'j) mpmc_ops \<Rightarrow> nat \<Rightarrow> 'j pool_call \<Rightarrow> ('q, 'i, 'j) pool \<Rightarrow> ('q, 'i, 'j) pool res" where
  "exec_call J k (SubmitJob hint job) P = pool_push J k hint job P"
| "exec_call J k (SubmitLocal w job) P = submit_local J k w job P"
| "exec_call J k ShutDown P = Inr (shut_down P)"

fun exec_calls :: "('i, 'j) mpmc_ops \<Rightarrow> nat \<Rightarrow> 'j pool_call list \<Rightarrow> ('q, 'i, 'j) pool \<Rightarrow> ('q, 'i, 'j) pool res" where
  "exec_calls J k [] P = Inr P"
| "exec_calls J k (c # cs) P = rbind (exec_call J k c P) (exec_calls J k cs)"

text \<open>\<^verbatim>\<open>job.run()\<close> and the counter that follows it.\<close>

definition execute ::
  "('i, 'j) mpmc_ops \<Rightarrow> nat \<Rightarrow> ('j \<Rightarrow> 'j pool_call list) \<Rightarrow> nat \<Rightarrow> 'j \<Rightarrow> ('q, 'i, 'j) pool \<Rightarrow> ('q, 'i, 'j) pool res" where
  "execute J k body w job P =
     rbind (exec_calls J k (body job) (P\<lparr>jobs_run := jobs_run P @ [job]\<rparr>)) (\<lambda>P.
     rbind (get_local w P) (\<lambda>l. Inr (set_local w (l\<lparr>loc_completed := loc_completed l + 1\<rparr>) P)))"

definition run_start :: "runner \<Rightarrow> ('q, 'i, 'j) pool \<Rightarrow> ('j run_state option \<times> ('q, 'i, 'j) pool) res" where
  "run_start r P =
     rbind (assert_that (runner_pool r = pool_id P)) (\<lambda>_.
     rbind (get_local (runner_id r) P) (\<lambda>l.
       case take_queue l of
         (None, l') \<Rightarrow> Inr (None, set_local (runner_id r) l' P)
       | (Some q, l') \<Rightarrow>
           Inr (Some \<lparr>queue = q, mine = [], until_promote = promote_every (pool_tuning P), spins = 0,
                      rng = 0x2545F4914F6CDD1D XOR (word_of_nat (runner_id r) * 0x9E3779B97F4A7C15), lifo_run = 0\<rparr>,
                set_local (runner_id r) l' P)))"

fun move_inbox ::
  "nat \<Rightarrow> ('i, 'j) mpmc_ops \<Rightarrow> nat \<Rightarrow> nat \<Rightarrow> 'j list \<Rightarrow> ('q, 'i, 'j) pool \<Rightarrow> (nat \<times> 'j list \<times> ('q, 'i, 'j) pool) res" where
  "move_inbox left J k w m P =
     rbind (pop_inbox J k w P) (\<lambda>(r, P).
       case r of
         None \<Rightarrow> Inr (0, m, P)
       | Some job \<Rightarrow>
           (case left of
              0 \<Rightarrow> Inr (1, m @ [job], P)
            | Suc left' \<Rightarrow> rbind (move_inbox left' J k w (m @ [job]) P) (\<lambda>(moved, m, P). Inr (Suc moved, m, P))))"

declare move_inbox.simps [simp del]

text \<open>How a step of the loop body ends: with \<^verbatim>\<open>continue\<close>, with \<^verbatim>\<open>break\<close>, or by going on.\<close>

datatype outcome = Continue | Break | Fall

type_synonym ('q, 'i, 'j) phase_res = "(outcome \<times> 'j run_state \<times> ('q, 'i, 'j) pool) res"

definition and_then ::
  "('q, 'i, 'j) phase_res \<Rightarrow> ('j run_state \<Rightarrow> ('q, 'i, 'j) pool \<Rightarrow> ('q, 'i, 'j) phase_res) \<Rightarrow> ('q, 'i, 'j) phase_res" where
  "and_then m f = rbind m (\<lambda>(out, L, P). if out = Fall then f L P else Inr (out, L, P))"

text \<open>0. The job that just woke itself.\<close>

definition slot_phase ::
  "('i, 'j) mpmc_ops \<Rightarrow> nat \<Rightarrow> ('j \<Rightarrow> 'j pool_call list) \<Rightarrow> nat \<Rightarrow> 'j run_state \<Rightarrow> ('q, 'i, 'j) pool \<Rightarrow> ('q, 'i, 'j) phase_res" where
  "slot_phase J k body w L P =
     (if lifo_run L < lifo_run_limit (pool_tuning P)
      then
        rbind (get_local w P) (\<lambda>l.
        let (from_slot, l') = slot_take l; P = set_local w l' P in
        case from_slot of
          None \<Rightarrow> Inr (Fall, L, P)
        | Some job \<Rightarrow>
            rbind (checked_plus (lifo_run L) 1) (\<lambda>n.
            rbind (execute J k body w job P) (\<lambda>P.
              Inr (Continue, L\<lparr>lifo_run := n, spins := 0\<rparr>, P))))
      else Inr (Fall, L, P))"

text \<open>The fairness boundary, when the slot has had its run of jobs.\<close>

definition boundary ::
  "('q, 'd, 'j) wq_ops \<Rightarrow> ('i, 'j) mpmc_ops \<Rightarrow> nat \<Rightarrow> nat \<Rightarrow> bool \<Rightarrow> 'j run_state \<Rightarrow> ('q, 'i, 'j) pool \<Rightarrow>
     ('j run_state \<times> ('q, 'i, 'j) pool) res" where
  "boundary W J k w exhausted L P =
     rbind (if exhausted \<and> stealable_inbox (pool_tuning P)
            then publish_capped_slot J k w (mine L \<noteq> [] \<or> \<not> wq_is_empty W (deques P (queue L))) P
            else Inr P) (\<lambda>P.
     rbind (if exhausted \<and> share_displaced (pool_tuning P)
            then rbind (take_from_injector J k (mine L) P) (\<lambda>(taken, m, P). Inr (m, P))
            else Inr (mine L, P)) (\<lambda>(m, P).
       Inr (L\<lparr>mine := m, lifo_run := 0\<rparr>, P)))"

text \<open>1. The worker's own queue, with the heartbeat.\<close>

definition mine_phase ::
  "('q, 'd, 'j) wq_ops \<Rightarrow> ('i, 'j) mpmc_ops \<Rightarrow> nat \<Rightarrow> ('j \<Rightarrow> 'j pool_call list) \<Rightarrow> nat \<Rightarrow> 'j run_state \<Rightarrow>
     ('q, 'i, 'j) pool \<Rightarrow> ('q, 'i, 'j) phase_res" where
  "mine_phase W J k body w L P =
     (if mine L = [] then Inr (Fall, L, P)
      else
        let job = last (mine L); m = butlast (mine L) in
        rbind (checked_minus (until_promote L) 1) (\<lambda>u.
        rbind (if u = 0
               then rbind (promote W (queue L) w m P) (\<lambda>(m, P). Inr (promote_every (pool_tuning P), m, P))
               else Inr (u, m, P)) (\<lambda>(u, m, P).
        rbind (execute J k body w job P) (\<lambda>P.
          Inr (Continue, L\<lparr>mine := m, until_promote := u, spins := 0\<rparr>, P)))))"

text \<open>With a stealable inbox, one job of it is run; otherwise it is moved to \<open>mine\<close>.\<close>

definition inbox_run_phase ::
  "('i, 'j) mpmc_ops \<Rightarrow> nat \<Rightarrow> ('j \<Rightarrow> 'j pool_call list) \<Rightarrow> nat \<Rightarrow> 'j run_state \<Rightarrow> ('q, 'i, 'j) pool \<Rightarrow> ('q, 'i, 'j) phase_res" where
  "inbox_run_phase J k body w L P =
     (if stealable_inbox (pool_tuning P)
      then
        rbind (pop_inbox J k w P) (\<lambda>(r, P).
        case r of
          None \<Rightarrow> Inr (Fall, L, P)
        | Some job \<Rightarrow> rbind (execute J k body w job P) (\<lambda>P. Inr (Continue, L\<lparr>spins := 0\<rparr>, P)))
      else Inr (Fall, L, P))"

definition inbox_move_phase ::
  "('i, 'j) mpmc_ops \<Rightarrow> nat \<Rightarrow> nat \<Rightarrow> 'j run_state \<Rightarrow> ('q, 'i, 'j) pool \<Rightarrow> ('q, 'i, 'j) phase_res" where
  "inbox_move_phase J k w L P =
     (if stealable_inbox (pool_tuning P) then Inr (Fall, L, P)
      else
        rbind (move_inbox (unat (promote_every (pool_tuning P)) - 1) J k w (mine L) P) (\<lambda>(moved, m, P).
          if moved > 0 then Inr (Continue, L\<lparr>mine := m, spins := 0\<rparr>, P) else Inr (Fall, L\<lparr>mine := m\<rparr>, P)))"

text \<open>2. What the worker shared and nobody took.\<close>

definition queue_phase ::
  "('q, 'd, 'j) wq_ops \<Rightarrow> ('i, 'j) mpmc_ops \<Rightarrow> nat \<Rightarrow> ('j \<Rightarrow> 'j pool_call list) \<Rightarrow> nat \<Rightarrow> 'j run_state \<Rightarrow>
     ('q, 'i, 'j) pool \<Rightarrow> ('q, 'i, 'j) phase_res" where
  "queue_phase W J k body w L P =
     rbind (wq_pop W k (deques P (queue L))) (\<lambda>(r, q).
     let P = P\<lparr>deques := (deques P)(queue L := q)\<rparr> in
     case r of
       None \<Rightarrow> Inr (Fall, L, P)
     | Some job \<Rightarrow> rbind (execute J k body w job P) (\<lambda>P. Inr (Continue, L\<lparr>spins := 0\<rparr>, P)))"

text \<open>3. Somebody else's, when few enough workers are searching.\<close>

definition may_search :: "('q, 'i, 'j) pool \<Rightarrow> (bool \<times> ('q, 'i, 'j) pool) res" where
  "may_search P =
     (if workers P < 2 then Inr (True, P)
      else
        let searchers = searching P; P = P\<lparr>searching := searching P + 1\<rparr> in
        rbind (if unat searchers * 2 < 2 ^ 64 then Inr (searchers * 2) else Inl ArithOverflow) (\<lambda>twice.
          if twice \<ge> word_of_nat (workers P) then Inr (False, P\<lparr>searching := searching P - 1\<rparr>) else Inr (True, P)))"

definition search_phase ::
  "('q, 'd, 'j) wq_ops \<Rightarrow> ('i, 'j) mpmc_ops \<Rightarrow> nat \<Rightarrow> nat \<Rightarrow> 'j run_state \<Rightarrow> ('q, 'i, 'j) pool \<Rightarrow> ('q, 'i, 'j) phase_res" where
  "search_phase W J k w L P =
     rbind (may_search P) (\<lambda>(may, P).
       if may
       then
         rbind (steal_once W J k (queue L) w (rng L) P) (\<lambda>(stolen, r, P).
         let P = (if workers P \<ge> 2 then P\<lparr>searching := searching P - 1\<rparr> else P); L = L\<lparr>rng := r\<rparr> in
         if stolen > 0 then Inr (Continue, L\<lparr>spins := 0\<rparr>, P) else Inr (Fall, L, P))
       else Inr (Fall, L, P))"

text \<open>4. What arrived from outside; half of it is shared at once.\<close>

definition injector_phase ::
  "('q, 'd, 'j) wq_ops \<Rightarrow> ('i, 'j) mpmc_ops \<Rightarrow> nat \<Rightarrow> nat \<Rightarrow> 'j run_state \<Rightarrow> ('q, 'i, 'j) pool \<Rightarrow> ('q, 'i, 'j) phase_res" where
  "injector_phase W J k w L P =
     rbind (take_from_injector J k (mine L) P) (\<lambda>(taken, m, P).
       if taken > 0
       then rbind (share W (queue L) w m P) (\<lambda>(m, P).
         Inr (Continue, L\<lparr>mine := m, spins := 0, until_promote := promote_every (pool_tuning P)\<rparr>, P))
       else Inr (Fall, L\<lparr>mine := m\<rparr>, P))"

text \<open>The slot that was skipped at the fairness boundary.\<close>

definition ready_phase ::
  "('i, 'j) mpmc_ops \<Rightarrow> nat \<Rightarrow> ('j \<Rightarrow> 'j pool_call list) \<Rightarrow> nat \<Rightarrow> bool \<Rightarrow> 'j run_state \<Rightarrow> ('q, 'i, 'j) pool \<Rightarrow> ('q, 'i, 'j) phase_res" where
  "ready_phase J k body w exhausted L P =
     (if exhausted
      then
        rbind (get_local w P) (\<lambda>l.
        let (ready_slot, l') = slot_take l; P = set_local w l' P in
        case ready_slot of
          None \<Rightarrow> Inr (Fall, L, P)
        | Some job \<Rightarrow>
            rbind (execute J k body w job P) (\<lambda>P. Inr (Continue, L\<lparr>lifo_run := 1, spins := 0\<rparr>, P)))
      else Inr (Fall, L, P))"

text \<open>Nothing was found: leave, look again, or announce sleep, look once more and park.\<close>

definition idle_phase ::
  "('q, 'd, 'j) wq_ops \<Rightarrow> ('i, 'j) mpmc_ops \<Rightarrow> nat \<Rightarrow> nat \<Rightarrow> 'j run_state \<Rightarrow> ('q, 'i, 'j) pool \<Rightarrow> ('q, 'i, 'j) phase_res" where
  "idle_phase W J k w L P =
     (if \<not> is_running P then Inr (Break, L, P)
      else if spins L < rounds_before_park (pool_tuning P)
      then rbind (checked_plus (spins L) 1) (\<lambda>n. Inr (Continue, L\<lparr>spins := n\<rparr>, P))
      else
        rbind (worker_bit w) (\<lambda>b.
        rbind (prepare_to_park W J k (queue L) w (rng L) P) (\<lambda>(ready, r, P).
        let L = L\<lparr>rng := r\<rparr> in
        if \<not> ready then Inr (Continue, L, P)
        else if \<not> is_running P then Inr (Break, L, P\<lparr>sleeping := sleeping P AND NOT b\<rparr>)
        else
          let P = P\<lparr>parks := parks P @ [w]\<rparr> in
          Inr (Continue, L\<lparr>spins := 0\<rparr>, P\<lparr>sleeping := sleeping P AND NOT b\<rparr>))))"

definition shared_phases ::
  "('q, 'd, 'j) wq_ops \<Rightarrow> ('i, 'j) mpmc_ops \<Rightarrow> nat \<Rightarrow> ('j \<Rightarrow> 'j pool_call list) \<Rightarrow> nat \<Rightarrow> bool \<Rightarrow> 'j run_state \<Rightarrow>
     ('q, 'i, 'j) pool \<Rightarrow> ('q, 'i, 'j) phase_res" where
  "shared_phases W J k body w exhausted L P =
     and_then (queue_phase W J k body w L P) (\<lambda>L P.
     and_then (search_phase W J k w L P) (\<lambda>L P.
     and_then (injector_phase W J k w L P) (\<lambda>L P.
     and_then (ready_phase J k body w exhausted L P) (\<lambda>L P.
       idle_phase W J k w L P))))"

definition private_phases ::
  "('q, 'd, 'j) wq_ops \<Rightarrow> ('i, 'j) mpmc_ops \<Rightarrow> nat \<Rightarrow> ('j \<Rightarrow> 'j pool_call list) \<Rightarrow> nat \<Rightarrow> bool \<Rightarrow> 'j run_state \<Rightarrow>
     ('q, 'i, 'j) pool \<Rightarrow> ('q, 'i, 'j) phase_res" where
  "private_phases W J k body w exhausted L P =
     and_then (mine_phase W J k body w L P) (\<lambda>L P.
     and_then (inbox_run_phase J k body w L P) (\<lambda>L P.
     and_then (inbox_move_phase J k w L P) (\<lambda>L P.
       shared_phases W J k body w exhausted L P)))"

definition run_once ::
  "('q, 'd, 'j) wq_ops \<Rightarrow> ('i, 'j) mpmc_ops \<Rightarrow> nat \<Rightarrow> ('j \<Rightarrow> 'j pool_call list) \<Rightarrow> nat \<Rightarrow> 'j run_state \<Rightarrow>
     ('q, 'i, 'j) pool \<Rightarrow> ('q, 'i, 'j) phase_res" where
  "run_once W J k body w L P =
     and_then (slot_phase J k body w L P) (\<lambda>L P.
     let exhausted = (lifo_run L = lifo_run_limit (pool_tuning P)) in
     rbind (boundary W J k w exhausted L P) (\<lambda>(L, P). private_phases W J k body w exhausted L P))"

fun inject_all :: "('i, 'j) mpmc_ops \<Rightarrow> nat \<Rightarrow> 'j list \<Rightarrow> ('q, 'i, 'j) pool \<Rightarrow> ('q, 'i, 'j) pool res" where
  "inject_all J k [] P = Inr P"
| "inject_all J k (job # js) P = rbind (inject J k job P) (inject_all J k js)"

definition run_exit ::
  "('i, 'j) mpmc_ops \<Rightarrow> nat \<Rightarrow> nat \<Rightarrow> 'j run_state \<Rightarrow> ('q, 'i, 'j) pool \<Rightarrow> ('q, 'i, 'j) pool res" where
  "run_exit J k w L P =
     rbind (inject_all J k (mine L) P) (\<lambda>P.
     rbind (get_local w P) (\<lambda>l.
     rbind (put_queue (queue L) l) (\<lambda>l'. Inr (set_local w l' P))))"

section \<open>The pool at work\<close>

text \<open>
  The threads that run workers, and the events of a schedule: a call from outside, a thread
  entering \<^verbatim>\<open>run\<close>, one iteration of a worker. An iteration that breaks out of the loop leaves
  \<^verbatim>\<open>run\<close>. The events of a schedule are atomic here.
\<close>

record ('q, 'i, 'j) machine =
  the_pool :: "('q, 'i, 'j) pool"
  loops :: "nat \<Rightarrow> 'j run_state option"

datatype 'j pool_event = Outside "'j pool_call" | Enter runner | Iterate nat

fun pool_do ::
  "('q, 'd, 'j) wq_ops \<Rightarrow> ('i, 'j) mpmc_ops \<Rightarrow> ('j \<Rightarrow> 'j pool_call list) \<Rightarrow> nat \<times> 'j pool_event \<Rightarrow>
     ('q, 'i, 'j) machine \<Rightarrow> ('q, 'i, 'j) machine res" where
  "pool_do W J body (k, Outside c) M =
     rbind (exec_call J k c (the_pool M)) (\<lambda>P. Inr (M\<lparr>the_pool := P\<rparr>))"
| "pool_do W J body (k, Enter r) M =
     rbind (run_start r (the_pool M)) (\<lambda>(L, P).
       Inr (case L of
          None \<Rightarrow> M\<lparr>the_pool := P\<rparr>
        | Some L \<Rightarrow> M\<lparr>the_pool := P, loops := (loops M)(runner_id r := Some L)\<rparr>))"
| "pool_do W J body (k, Iterate w) M =
     (case loops M w of
        None \<Rightarrow> Inr M
      | Some L \<Rightarrow>
          rbind (run_once W J k body w L (the_pool M)) (\<lambda>(out, L, P).
            if out = Break
            then rbind (run_exit J k w L P) (\<lambda>P. Inr (M\<lparr>the_pool := P, loops := (loops M)(w := None)\<rparr>))
            else Inr (M\<lparr>the_pool := P, loops := (loops M)(w := Some L)\<rparr>)))"

fun pool_schedule ::
  "('q, 'd, 'j) wq_ops \<Rightarrow> ('i, 'j) mpmc_ops \<Rightarrow> ('j \<Rightarrow> 'j pool_call list) \<Rightarrow> (nat \<times> 'j pool_event) list \<Rightarrow>
     ('q, 'i, 'j) machine \<Rightarrow> ('q, 'i, 'j) machine res" where
  "pool_schedule W J body [] M = Inr M"
| "pool_schedule W J body (e # es) M = rbind (pool_do W J body e M) (pool_schedule W J body es)"

section \<open>Dropping a pool\<close>

text \<open>
  The jobs dropped with a pool, in the order its fields go: for every worker its inbox and
  its slot, then the deques, which go with the last of their handles, then the injector.
\<close>

fun drop_locals :: "('i, 'j) mpmc_ops \<Rightarrow> ('i, 'j) worker_local list \<Rightarrow> 'j list res" where
  "drop_locals J [] = Inr []"
| "drop_locals J (l # ls) =
     rbind (mq_drop J (loc_inbox l)) (\<lambda>(xs, _).
     rbind (drop_locals J ls) (\<lambda>ys.
       Inr (xs @ (case loc_lifo l of None \<Rightarrow> [] | Some job \<Rightarrow> [job]) @ ys)))"

fun drop_deques :: "('q, 'd, 'j) wq_ops \<Rightarrow> 'q list \<Rightarrow> 'j list res" where
  "drop_deques W [] = Inr []"
| "drop_deques W (q # qs) =
     rbind (wq_drop W q) (\<lambda>(xs, _). rbind (drop_deques W qs) (\<lambda>ys. Inr (xs @ ys)))"

definition pool_drop :: "('q, 'd, 'j) wq_ops \<Rightarrow> ('i, 'j) mpmc_ops \<Rightarrow> ('q, 'i, 'j) pool \<Rightarrow> 'j list res" where
  "pool_drop W J P =
     rbind (drop_locals J (locals P)) (\<lambda>xs.
     rbind (drop_deques W (map (deques P) (stealers P))) (\<lambda>ys.
     rbind (mq_drop J (pool_injector P)) (\<lambda>(zs, _). Inr (xs @ ys @ zs))))"

end
