(* ===== verification/Pool_Jobs.thy ===== *)
theory Pool_Jobs
  imports Pool
begin

text \<open>
  The pool neither loses nor duplicates a job, and none of its methods faults. The proofs are
  over the interfaces of the two queue types: the locale \<open>pool_queues\<close> joins the contracts of
  \<open>Work_Queue\<close> and \<open>Injector\<close>.
\<close>

section \<open>What a pool holds\<close>

text \<open>The contents of the queues and slots of a pool.\<close>

record 'j pool_view =
  v_deq :: "nat \<Rightarrow> 'j aqueue"
  v_inb :: "nat \<Rightarrow> 'j list"
  v_slot :: "nat \<Rightarrow> 'j option"
  v_inj :: "'j list"

definition omset :: "'j option \<Rightarrow> 'j multiset" where
  "omset x = (case x of None \<Rightarrow> {#} | Some j \<Rightarrow> {#j#})"

lemma omset_simps [simp]: "omset None = {#}" "omset (Some j) = {#j#}"
  by (simp_all add: omset_def)

definition held :: "nat \<Rightarrow> 'j pool_view \<Rightarrow> 'j multiset" where
  "held n V = mset (v_inj V) + (\<Sum>w<n. mset (v_inb V w)) + (\<Sum>w<n. omset (v_slot V w)) +
     (\<Sum>a<n. mset (aq_items (v_deq V a)))"

lemma sum_upd:
  fixes F :: "'a \<Rightarrow> 'j multiset"
  assumes "w < (n :: nat)"
  shows "(\<Sum>i<n. F ((g(w := x)) i)) + F (g w) = (\<Sum>i<n. F (g i)) + F x"
proof -
  have fin: "finite {..<n}" "w \<in> {..<n}" using assms by auto
  have "(\<Sum>i\<in>{..<n} - {w}. F ((g(w := x)) i)) = (\<Sum>i\<in>{..<n} - {w}. F (g i))" by (rule sum.cong) auto
  then show ?thesis
    using sum.remove [OF fin, of "\<lambda>i. F ((g(w := x)) i)"] sum.remove [OF fin, of "\<lambda>i. F (g i)"] by simp
qed

lemma add_both:
  fixes a :: "'j multiset"
  assumes "a + b = c + d" "e + f = g + h"
  shows "(a + b) + (e + f) = (c + d) + (g + h)"
  by (simp only: assms)

text \<open>What never changes while workers run, and what construction makes sure of.\<close>

type_synonym pool_static = "nat option list \<times> nat list \<times> tuning \<times> usize \<times> usize"

definition static :: "('q, 'i, 'j) pool \<Rightarrow> pool_static" where
  "static P = (map loc_queue (locals P), stealers P, pool_tuning P, pool_id P, searching P)"

definition static_ok :: "pool_static \<Rightarrow> bool" where
  "static_ok c = (case c of (qs, st, t, _) \<Rightarrow>
     0 < length qs \<and> length qs \<le> 64 \<and> st = [0..<length qs] \<and> tuning_ok t)"

abbreviation size_of :: "pool_static \<Rightarrow> nat" where
  "size_of c \<equiv> length (fst c)"

lemma static_workers: "workers P = size_of (static P)"
  by (simp add: static_def workers_def)

text \<open>The jobs a call hands to the pool, and the jobs the work that was run has handed to it.\<close>

fun call_jobs :: "'j pool_call \<Rightarrow> 'j multiset" where
  "call_jobs (SubmitJob hint job) = {#job#}"
| "call_jobs (SubmitLocal w job) = {#job#}"
| "call_jobs ShutDown = {#}"

definition calls_jobs :: "'j pool_call list \<Rightarrow> 'j multiset" where
  "calls_jobs cs = sum_list (map call_jobs cs)"

definition spawned :: "('j \<Rightarrow> 'j pool_call list) \<Rightarrow> 'j list \<Rightarrow> 'j multiset" where
  "spawned body js = sum_list (map (\<lambda>j. calls_jobs (body j)) js)"

fun call_valid :: "nat \<Rightarrow> 'j pool_call \<Rightarrow> bool" where
  "call_valid n (SubmitLocal w job) \<longleftrightarrow> w < n"
| "call_valid n _ \<longleftrightarrow> True"

text \<open>Jobs that make at most \<open>B\<close> calls, all of them for workers there are.\<close>

definition body_ok :: "nat \<Rightarrow> nat \<Rightarrow> ('j \<Rightarrow> 'j pool_call list) \<Rightarrow> bool" where
  "body_ok B n body \<longleftrightarrow> (\<forall>j. length (body j) \<le> B \<and> (\<forall>x \<in> set (body j). call_valid n x))"

text \<open>What a schedule may do, how many pushes its events can make, and what it submits.\<close>

fun event_valid :: "nat \<Rightarrow> usize \<Rightarrow> 'j pool_event \<Rightarrow> bool" where
  "event_valid n i (Outside x) \<longleftrightarrow> call_valid n x"
| "event_valid n i (Enter r) \<longleftrightarrow> runner_pool r = i \<and> runner_id r < n"
| "event_valid n i (Iterate w) \<longleftrightarrow> True"

fun event_cost :: "nat \<Rightarrow> 'j pool_event \<Rightarrow> nat" where
  "event_cost B (Outside x) = 1"
| "event_cost B (Enter r) = 0"
| "event_cost B (Iterate w) = B + 3"

fun event_jobs :: "'j pool_event \<Rightarrow> 'j multiset" where
  "event_jobs (Outside x) = call_jobs x"
| "event_jobs _ = {#}"

definition schedule_cost :: "nat \<Rightarrow> (nat \<times> 'j pool_event) list \<Rightarrow> nat" where
  "schedule_cost B es = sum_list (map (\<lambda>(k, e). event_cost B e) es)"

definition schedule_jobs :: "(nat \<times> 'j pool_event) list \<Rightarrow> 'j multiset" where
  "schedule_jobs es = sum_list (map (\<lambda>(k, e). event_jobs e) es)"

text \<open>The jobs in the private queues of the workers that run.\<close>

definition mine_of :: "'j run_state option \<Rightarrow> 'j multiset" where
  "mine_of x = (case x of None \<Rightarrow> {#} | Some L \<Rightarrow> mset (mine L))"

definition in_hand :: "nat \<Rightarrow> ('q, 'i, 'j) machine \<Rightarrow> 'j multiset" where
  "in_hand n M = (\<Sum>w < n. mine_of (loops M w))"

section \<open>Waking\<close>

text \<open>Waking workers only touches the bitmap and the host.\<close>

lemma trailing_zeros_props:
  assumes "s \<noteq> 0"
  shows "trailing_zeros s < 64" "bit s (trailing_zeros s)" "i < trailing_zeros s \<Longrightarrow> \<not> bit s i"
proof -
  let ?t = "takeWhile (\<lambda>i. \<not> bit s i) [0..<64]"
  obtain m where "bit s m" using assms by (metis bit_0_eq bit_eqI bot_fun_def bot_bool_def)
  moreover from this have "m < 64" using bit_imp_le_length [of s m] by simp
  ultimately have ne: "?t \<noteq> [0..<64]" by (metis atLeastLessThan_iff set_takeWhileD set_upt zero_le)
  then have lt: "length ?t < length [0..<64]"
    by (metis length_takeWhile_le nat_less_le takeWhile_eq_take take_all_iff)
  then show "trailing_zeros s < 64" unfolding trailing_zeros_def by simp
  show "bit s (trailing_zeros s)"
    using nth_length_takeWhile [OF lt] lt by (simp add: trailing_zeros_def)
  show "\<not> bit s i" if "i < trailing_zeros s"
  proof -
    have "?t ! i \<in> set ?t" using that by (simp add: trailing_zeros_def)
    moreover have "?t ! i = i" using that lt takeWhile_nth [of i "\<lambda>i. \<not> bit s i" "[0..<64]"] by (simp add: trailing_zeros_def)
    ultimately show ?thesis by (auto dest: set_takeWhileD)
  qed
qed

definition awoken :: "('q, 'i, 'j) pool \<Rightarrow> ('q, 'i, 'j) pool \<Rightarrow> bool" where
  "awoken P P' \<longleftrightarrow> P'\<lparr>sleeping := 0, unparks := []\<rparr> = P\<lparr>sleeping := 0, unparks := []\<rparr>"

lemma awoken_refl [simp]: "awoken P P"
  by (simp add: awoken_def)

lemma awoken_trans: "awoken P P' \<Longrightarrow> awoken P' P'' \<Longrightarrow> awoken P P''"
  by (simp add: awoken_def)

lemma awoken_updates [simp]:
  "awoken P (P'\<lparr>sleeping := s\<rparr>) = awoken P P'" "awoken P (unpark w P') = awoken P P'"
  "awoken (P'\<lparr>sleeping := s\<rparr>) P = awoken P' P" "awoken (unpark w P') P = awoken P' P"
  by (simp_all add: awoken_def unpark_def)

lemma claim_sleeper_returns:
  "returns (claim_sleeper x P) (\<lambda>(c, P'). awoken P P' \<and>
     (case c of None \<Rightarrow> sleeping P AND NOT x = 0 \<and> P' = P | Some w \<Rightarrow> w < 64 \<and> bit (sleeping P AND NOT x) w))"
proof (cases "sleeping P AND NOT x = 0")
  case False
  note t = trailing_zeros_props [OF False]
  then have "bit (sleeping P) (trailing_zeros (sleeping P AND NOT x))" by (simp add: bit_and_iff)
  then have "sleeping P AND push_bit (trailing_zeros (sleeping P AND NOT x)) 1 \<noteq> 0"
    unfolding bit_iff_and_push_bit_not_eq_0 .
  then show ?thesis using False t by (simp add: claim_sleeper_def worker_bit_def Let_def)
qed (simp add: claim_sleeper_def)

lemma wake_returns: "returns (wake hint P) (awoken P)"
  unfolding wake_def
  by (simp, rule returns_mono [OF claim_sleeper_returns]) (auto split: option.splits intro: awoken_trans)

lemma wake_specific_returns: "w < 64 \<Longrightarrow> returns (wake_specific w P) (awoken P)"
  by (auto simp: wake_specific_def worker_bit_def Let_def intro: awoken_trans)

lemma nudge_loop_returns: "returns (nudge_loop spare n P) (awoken P)"
proof (induction n arbitrary: P)
  case (Suc n)
  show ?case
    by (simp, rule returns_mono [OF claim_sleeper_returns])
       (auto split: option.splits intro!: returns_mono [OF Suc.IH] simp: awoken_def unpark_def)
qed simp

lemma nudge_many_returns: "pred_option (\<lambda>w. w < 64) except \<Longrightarrow> returns (nudge_many except n P) (awoken P)"
  by (cases except) (auto simp: nudge_many_def worker_bit_def nudge_loop_returns)

lemma nudge_returns: "pred_option (\<lambda>w. w < 64) except \<Longrightarrow> returns (nudge except P) (awoken P)"
  unfolding nudge_def by (rule nudge_many_returns)

lemma awokenD:
  assumes "awoken P P'"
  shows "locals P' = locals P" "stealers P' = stealers P" "deques P' = deques P" "pool_injector P' = pool_injector P"
    "running P' = running P" "pool_tuning P' = pool_tuning P" "searching P' = searching P" "jobs_run P' = jobs_run P"
    "pool_id P' = pool_id P" "static P' = static P" "workers P' = workers P" "parks P' = parks P"
  using assms by (cases P; cases P'; simp add: awoken_def static_def workers_def)+

section \<open>Accounting\<close>

locale pool_queues =
  work_queue W TakeNewest rep + mpmc_queue J mrep limit
  for W :: "('q, 'd, 'j) wq_ops" and rep :: "'q \<Rightarrow> 'd option \<Rightarrow> 'j aqueue \<Rightarrow> bool"
    and J :: "('i, 'j) mpmc_ops" and mrep :: "'i \<Rightarrow> nat \<Rightarrow> 'j list \<Rightarrow> bool" and limit :: nat
begin

text \<open>\<open>b\<close> bounds the pushes any injector or inbox has had.\<close>

definition view_ok :: "nat \<Rightarrow> ('q, 'i, 'j) pool \<Rightarrow> 'j pool_view \<Rightarrow> bool" where
  "view_ok b P V \<longleftrightarrow>
     (\<forall>a. rep (deques P a) None (v_deq V a)) \<and>
     (\<exists>p \<le> b. mrep (pool_injector P) p (v_inj V)) \<and>
     (\<forall>w < workers P. v_slot V w = loc_lifo (locals P ! w) \<and> (\<exists>p \<le> b. mrep (loc_inbox (locals P ! w)) p (v_inb V w)))"

lemma view_ok_mono: "view_ok b P V \<Longrightarrow> b \<le> b' \<Longrightarrow> view_ok b' P V"
  by (auto simp: view_ok_def) (meson order_trans)+

text \<open>
  The books of a pool: what it holds, what was run and what somebody has in hand (\<open>m\<close>) is
  what was submitted from outside (\<open>S\<close>) and by the jobs that were run.
\<close>

definition account ::
  "('j \<Rightarrow> 'j pool_call list) \<Rightarrow> nat \<Rightarrow> 'j multiset \<Rightarrow> pool_static \<Rightarrow> 'j multiset \<Rightarrow> ('q, 'i, 'j) pool \<Rightarrow> bool" where
  "account body b S c m P \<longleftrightarrow>
     static P = c \<and> static_ok c \<and>
     (\<exists>V. view_ok b P V \<and> held (size_of c) V + mset (jobs_run P) + m = S + spawned body (jobs_run P))"

lemma accountE:
  assumes "account body b S c m P"
  obtains V where "static P = c" "static_ok c" "view_ok b P V"
    "held (size_of c) V + mset (jobs_run P) + m = S + spawned body (jobs_run P)" "workers P = size_of c"
  using assms by (auto simp: account_def static_workers)

lemma accountI:
  assumes "static P = c" "static_ok c" "view_ok b P V"
    "held (size_of c) V + mset (jobs_run P) + m = S + spawned body (jobs_run P)"
  shows "account body b S c m P"
  using assms by (auto simp: account_def)

lemma account_workers: "account body b S c m P \<Longrightarrow> workers P = size_of c"
  by (auto simp: account_def static_workers)

lemma account_static: "account body b S c m P \<Longrightarrow> static P = c"
  by (simp add: account_def)

lemma account_awoken: "account body b S c m P \<Longrightarrow> awoken P P' \<Longrightarrow> account body b S c m P'"
  by (auto simp: account_def view_ok_def awokenD)

lemma account_mono: "account body b S c m P \<Longrightarrow> b \<le> b' \<Longrightarrow> account body b' S c m P"
  unfolding account_def by (blast intro: view_ok_mono)

lemma account_get_local: "account body b S c m P \<Longrightarrow> w < size_of c \<Longrightarrow> get_local w P = Inr (locals P ! w)"
  using account_workers [of body b S c m P] by (simp add: get_local_def workers_def)

lemma static_set_local:
  "loc_queue l = loc_queue (locals P ! w) \<Longrightarrow> static (set_local w l P) = static P"
  by (simp add: static_def set_local_def map_update list_update_same_conv)
     (metis length_map list_update_beyond list_update_id map_update not_less nth_map)

lemma workers_set_local [simp]: "workers (set_local w l P) = workers P"
  by (simp add: workers_def set_local_def)

subsection \<open>Queues\<close>

lemma account_inject:
  assumes a: "account body b S c (add_mset j m) P" and lim: "b < limit"
  shows "returns (inject J k j P) (account body (Suc b) S c m)"
proof -
  obtain V where V: "static P = c" "static_ok c" "view_ok b P V" "workers P = size_of c"
    and h: "held (size_of c) V + mset (jobs_run P) + add_mset j m = S + spawned body (jobs_run P)"
    using a by (rule accountE)
  obtain p where p: "p \<le> b" "mrep (pool_injector P) p (v_inj V)" using V(3) by (auto simp: view_ok_def)
  obtain q where q: "mq_push J k (pool_injector P) j = Inr q" "mrep q (Suc p) (v_inj V @ [j])"
    using mq_push_law [OF p(2), of k j] p(1) lim by auto
  let ?V = "V\<lparr>v_inj := v_inj V @ [j]\<rparr>"
  have "account body (Suc b) S c m (P\<lparr>pool_injector := q\<rparr>)"
  proof (rule accountI [where V = ?V])
    show "static (P\<lparr>pool_injector := q\<rparr>) = c" using V(1) by (simp add: static_def)
    show "view_ok (Suc b) (P\<lparr>pool_injector := q\<rparr>) ?V"
      using view_ok_mono [OF V(3), of "Suc b"] q(2) p(1) by (auto simp: view_ok_def workers_def intro: exI [of _ "Suc p"])
    show "held (size_of c) ?V + mset (jobs_run (P\<lparr>pool_injector := q\<rparr>)) + m = S + spawned body (jobs_run (P\<lparr>pool_injector := q\<rparr>))"
      using h by (simp add: held_def)
  qed (rule V(2))
  then show ?thesis by (simp add: inject_def q(1))
qed

lemma account_pop_injector:
  assumes a: "account body b S c m P"
  shows "returns (pop_injector J k P) (\<lambda>(r, P'). account body b S c (m + omset r) P')"
proof -
  obtain V where V: "static P = c" "static_ok c" "view_ok b P V" "workers P = size_of c"
    and h: "held (size_of c) V + mset (jobs_run P) + m = S + spawned body (jobs_run P)"
    using a by (rule accountE)
  obtain p where p: "p \<le> b" "mrep (pool_injector P) p (v_inj V)" using V(3) by (auto simp: view_ok_def)
  obtain q where q: "mq_pop J k (pool_injector P) = Inr (head_option (v_inj V), q)" "mrep q p (tl (v_inj V))"
    using mq_pop_law [OF p(2), of k] by auto
  let ?V = "V\<lparr>v_inj := tl (v_inj V)\<rparr>"
  have "account body b S c (m + omset (head_option (v_inj V))) (P\<lparr>pool_injector := q\<rparr>)"
  proof (rule accountI [where V = ?V])
    show "static (P\<lparr>pool_injector := q\<rparr>) = c" using V(1) by (simp add: static_def)
    show "view_ok b (P\<lparr>pool_injector := q\<rparr>) ?V" using V(3) q(2) p(1) by (auto simp: view_ok_def workers_def)
    show "held (size_of c) ?V + mset (jobs_run (P\<lparr>pool_injector := q\<rparr>)) + (m + omset (head_option (v_inj V)))
        = S + spawned body (jobs_run (P\<lparr>pool_injector := q\<rparr>))"
      using h by (cases "v_inj V") (simp_all add: held_def)
  qed (rule V(2))
  then show ?thesis by (simp add: pop_injector_def q(1))
qed

text \<open>An update of one worker's local part.\<close>

lemma view_ok_set_local:
  assumes "view_ok b P V" "w < workers P" "b \<le> b'" "loc_lifo l = s" "mrep (loc_inbox l) p xs" "p \<le> b'"
  shows "view_ok b' (set_local w l P) (V\<lparr>v_inb := (v_inb V)(w := xs), v_slot := (v_slot V)(w := s)\<rparr>)"
proof -
  have "view_ok b' P V" by (rule view_ok_mono [OF assms(1,3)])
  then show ?thesis
    using assms by (auto simp: view_ok_def set_local_def workers_def nth_list_update)
qed

lemma held_set_local:
  assumes "w < n"
  shows "held n (V\<lparr>v_inb := (v_inb V)(w := xs), v_slot := (v_slot V)(w := s)\<rparr>) + mset (v_inb V w) + omset (v_slot V w)
    = held n V + mset xs + omset s"
  using add_both [OF sum_upd [OF assms, of mset "v_inb V" xs] sum_upd [OF assms, of omset "v_slot V" s]]
  by (simp add: held_def ac_simps)

lemma account_local:
  assumes a: "account body b S c m P" and w: "w < size_of c"
  obtains p ys where "p \<le> b" "mrep (loc_inbox (locals P ! w)) p ys"
    "\<And>b' (l :: ('i, 'j) worker_local) p' xs m'. b \<le> b' \<Longrightarrow> loc_queue l = loc_queue (locals P ! w) \<Longrightarrow> mrep (loc_inbox l) p' xs \<Longrightarrow> p' \<le> b' \<Longrightarrow>
       m' + mset xs + omset (loc_lifo l) = m + mset ys + omset (loc_lifo (locals P ! w)) \<Longrightarrow>
       account body b' S c m' (set_local w l P)"
proof -
  obtain V where V: "static P = c" "static_ok c" "view_ok b P V" "workers P = size_of c"
    and h: "held (size_of c) V + mset (jobs_run P) + m = S + spawned body (jobs_run P)"
    using a by (rule accountE)
  have w': "w < workers P" using w V(4) by simp
  obtain p where p: "p \<le> b" "mrep (loc_inbox (locals P ! w)) p (v_inb V w)" "v_slot V w = loc_lifo (locals P ! w)"
    using V(3) w' by (auto simp: view_ok_def)
  show thesis
  proof (rule that [OF p(1,2)])
    fix b' :: nat and l :: "('i, 'j) worker_local" and p' :: nat and xs :: "'j list" and m' :: "'j multiset"
    assume b: "b \<le> b'" and l: "loc_queue l = loc_queue (locals P ! w)" "mrep (loc_inbox l) p' xs" "p' \<le> b'"
      and m': "m' + mset xs + omset (loc_lifo l) = m + mset (v_inb V w) + omset (loc_lifo (locals P ! w))"
    let ?V = "V\<lparr>v_inb := (v_inb V)(w := xs), v_slot := (v_slot V)(w := loc_lifo l)\<rparr>"
    have jr: "jobs_run (set_local w l P) = jobs_run P" by (simp add: set_local_def)
    have "held (size_of c) ?V + mset (v_inb V w) + omset (v_slot V w) = held (size_of c) V + mset xs + omset (loc_lifo l)"
      by (rule held_set_local [OF w])
    then have "held (size_of c) ?V + mset (jobs_run P) + m' + (mset (v_inb V w) + omset (v_slot V w))
        = held (size_of c) V + mset (jobs_run P) + (m' + mset xs + omset (loc_lifo l))"
      by (simp add: algebra_simps)
    also have "\<dots> = S + spawned body (jobs_run P) + (mset (v_inb V w) + omset (v_slot V w))"
      unfolding m' p(3) h [symmetric] by (simp add: algebra_simps)
    finally have "held (size_of c) ?V + mset (jobs_run P) + m' = S + spawned body (jobs_run P)" by simp
    then show "account body b' S c m' (set_local w l P)"
      by (intro accountI [where V = ?V])
         (simp_all add: V static_set_local [OF l(1)] jr view_ok_set_local [OF V(3) w' b refl l(2,3)])
  qed
qed

lemma account_push_inbox:
  assumes a: "account body b S c (add_mset j m) P" and w: "w < size_of c" and lim: "b < limit"
  shows "returns (push_inbox J k w j P) (account body (Suc b) S c m)"
proof -
  obtain p ys where p: "p \<le> b" "mrep (loc_inbox (locals P ! w)) p ys"
    and upd: "\<And>b' l p' xs m'. b \<le> b' \<Longrightarrow> loc_queue l = loc_queue (locals P ! w) \<Longrightarrow> mrep (loc_inbox l) p' xs \<Longrightarrow> p' \<le> b' \<Longrightarrow>
       m' + mset xs + omset (loc_lifo l) = add_mset j m + mset ys + omset (loc_lifo (locals P ! w)) \<Longrightarrow>
       account body b' S c m' (set_local w l P)"
    using account_local [OF a w] by blast
  obtain q where q: "mq_push J k (loc_inbox (locals P ! w)) j = Inr q" "mrep q (Suc p) (ys @ [j])"
    using mq_push_law [OF p(2), of k j] p(1) lim by auto
  show ?thesis
    by (simp add: push_inbox_def account_get_local [OF a w] q(1)) (rule upd, use q(2) p(1) in auto)
qed

lemma account_pop_inbox:
  assumes a: "account body b S c m P" and w: "w < size_of c"
  shows "returns (pop_inbox J k w P) (\<lambda>(r, P'). account body b S c (m + omset r) P')"
proof -
  obtain p ys where p: "p \<le> b" "mrep (loc_inbox (locals P ! w)) p ys"
    and upd: "\<And>b' l p' xs m'. b \<le> b' \<Longrightarrow> loc_queue l = loc_queue (locals P ! w) \<Longrightarrow> mrep (loc_inbox l) p' xs \<Longrightarrow> p' \<le> b' \<Longrightarrow>
       m' + mset xs + omset (loc_lifo l) = m + mset ys + omset (loc_lifo (locals P ! w)) \<Longrightarrow>
       account body b' S c m' (set_local w l P)"
    using account_local [OF a w] by blast
  obtain q where q: "mq_pop J k (loc_inbox (locals P ! w)) = Inr (head_option ys, q)" "mrep q p (tl ys)"
    using mq_pop_law [OF p(2), of k] by auto
  show ?thesis
    by (simp add: pop_inbox_def account_get_local [OF a w] q(1)) (cases ys; rule upd; use q(2) p(1) in simp)
qed

text \<open>The slot.\<close>

lemma account_slot:
  assumes a: "account body b S c m P" and w: "w < size_of c"
    and m': "m' + omset s = m + omset (loc_lifo (locals P ! w))"
  shows "account body b S c m' (set_local w ((locals P ! w)\<lparr>loc_lifo := s\<rparr>) P)"
proof -
  obtain p ys where p: "p \<le> b" "mrep (loc_inbox (locals P ! w)) p ys"
    and upd: "\<And>b' l p' xs m'. b \<le> b' \<Longrightarrow> loc_queue l = loc_queue (locals P ! w) \<Longrightarrow> mrep (loc_inbox l) p' xs \<Longrightarrow> p' \<le> b' \<Longrightarrow>
       m' + mset xs + omset (loc_lifo l) = m + mset ys + omset (loc_lifo (locals P ! w)) \<Longrightarrow>
       account body b' S c m' (set_local w l P)"
    using account_local [OF a w] by blast
  show ?thesis by (rule upd [OF order_refl]) (use p m' in \<open>auto simp: algebra_simps\<close>)
qed

lemma account_counter:
  assumes a: "account body b S c m P" and w: "w < size_of c"
  shows "account body b S c m (set_local w ((locals P ! w)\<lparr>loc_completed := n\<rparr>) P)"
proof -
  obtain p ys where p: "p \<le> b" "mrep (loc_inbox (locals P ! w)) p ys"
    and upd: "\<And>b' l p' xs m'. b \<le> b' \<Longrightarrow> loc_queue l = loc_queue (locals P ! w) \<Longrightarrow> mrep (loc_inbox l) p' xs \<Longrightarrow> p' \<le> b' \<Longrightarrow>
       m' + mset xs + omset (loc_lifo l) = m + mset ys + omset (loc_lifo (locals P ! w)) \<Longrightarrow>
       account body b' S c m' (set_local w l P)"
    using account_local [OF a w] by blast
  show ?thesis by (rule upd [OF order_refl]) (use p in auto)
qed

text \<open>The sharing deques.\<close>

lemma account_deques:
  assumes a: "account body b S c m P"
  obtains A where "\<And>i. rep (deques P i) None (A i)"
    "\<And>Q A' m'. (\<And>i. rep (Q i) None (A' i)) \<Longrightarrow>
       m' + (\<Sum>i < size_of c. mset (aq_items (A' i))) = m + (\<Sum>i < size_of c. mset (aq_items (A i))) \<Longrightarrow>
       account body b S c m' (P\<lparr>deques := Q\<rparr>)"
proof -
  obtain V where V: "static P = c" "static_ok c" "view_ok b P V" "workers P = size_of c"
    and h: "held (size_of c) V + mset (jobs_run P) + m = S + spawned body (jobs_run P)"
    using a by (rule accountE)
  show thesis
  proof (rule that [of "v_deq V"])
    show "rep (deques P i) None (v_deq V i)" for i using V(3) by (simp add: view_ok_def)
    fix Q A' m'
    assume r: "\<And>i. rep (Q i) None (A' i)"
      and m': "m' + (\<Sum>i < size_of c. mset (aq_items (A' i))) = m + (\<Sum>i < size_of c. mset (aq_items (v_deq V i)))"
    let ?V = "V\<lparr>v_deq := A'\<rparr>"
    have "held (size_of c) ?V + m' = held (size_of c) V + m"
      using m' by (simp add: held_def ac_simps)
    then have "held (size_of c) ?V + m' + mset (jobs_run P) = held (size_of c) V + m + mset (jobs_run P)" by simp
    then have "held (size_of c) ?V + mset (jobs_run P) + m' = S + spawned body (jobs_run P)"
      unfolding h [symmetric] by (simp only: ac_simps)
    moreover have "view_ok b (P\<lparr>deques := Q\<rparr>) ?V" using V(3) r by (simp add: view_ok_def workers_def)
    moreover have "static (P\<lparr>deques := Q\<rparr>) = c" using V(1) by (simp add: static_def)
    ultimately show "account body b S c m' (P\<lparr>deques := Q\<rparr>)" using V(2) by (intro accountI [where V = ?V]) simp_all
  qed
qed

lemma account_deque_push:
  assumes a: "account body b S c (add_mset j m) P" and q: "q < size_of c"
  shows "returns (wq_push W (deques P q) j) (\<lambda>(r, Q).
    account body b S c (case r of Inl j' \<Rightarrow> add_mset j' m | Inr _ \<Rightarrow> m) (P\<lparr>deques := (deques P)(q := Q)\<rparr>))"
proof -
  obtain A where A: "\<And>i. rep (deques P i) None (A i)"
    and upd: "\<And>Q A' m'. (\<And>i. rep (Q i) None (A' i)) \<Longrightarrow>
       m' + (\<Sum>i < size_of c. mset (aq_items (A' i))) = add_mset j m + (\<Sum>i < size_of c. mset (aq_items (A i))) \<Longrightarrow>
       account body b S c m' (P\<lparr>deques := Q\<rparr>)"
    using account_deques [OF a] by blast
  have s: "(\<Sum>i < size_of c. mset (aq_items ((A(q := A')) i))) + mset (aq_items (A q)) = (\<Sum>i < size_of c. mset (aq_items (A i))) + mset (aq_items A')" for A'
    by (rule sum_upd [OF q, of "\<lambda>A. mset (aq_items A)"])
  show ?thesis
  proof (rule returns_mono [OF res_rel_returns [OF push_law [OF A [of q], of j]]], clarify)
    fix r Q r' A'
    assume "aq_push (A q) j = (r', A')" "rep Q None A'"
    then show "account body b S c (case r' of Inl j' \<Rightarrow> add_mset j' m | Inr _ \<Rightarrow> m) (P\<lparr>deques := (deques P)(q := Q)\<rparr>)"
      by (intro upd [where A' = "A(q := A')"]) (use A s [of A'] in \<open>auto simp: aq_push_def split: if_splits\<close>)
  qed
qed

lemma account_deque_pop:
  assumes a: "account body b S c m P" and q: "q < size_of c"
  shows "returns (wq_pop W k (deques P q)) (\<lambda>(r, Q). account body b S c (m + omset r) (P\<lparr>deques := (deques P)(q := Q)\<rparr>))"
proof -
  obtain A where A: "\<And>i. rep (deques P i) None (A i)"
    and upd: "\<And>Q A' m'. (\<And>i. rep (Q i) None (A' i)) \<Longrightarrow>
       m' + (\<Sum>i < size_of c. mset (aq_items (A' i))) = m + (\<Sum>i < size_of c. mset (aq_items (A i))) \<Longrightarrow>
       account body b S c m' (P\<lparr>deques := Q\<rparr>)"
    using account_deques [OF a] by blast
  have s: "(\<Sum>i < size_of c. mset (aq_items ((A(q := A')) i))) + mset (aq_items (A q)) = (\<Sum>i < size_of c. mset (aq_items (A i))) + mset (aq_items A')" for A'
    by (rule sum_upd [OF q, of "\<lambda>A. mset (aq_items A)"])
  show ?thesis
  proof (rule returns_mono [OF res_rel_returns [OF pop_law [OF A [of q], of k]]], clarify)
    fix r Q r' A'
    assume p: "aq_pop TakeNewest (A q) = (r', A')" and r: "rep Q None A'"
    have "mset (aq_items (A q)) = omset r' + mset (aq_items A')"
      using p by (cases "aq_items (A q)" rule: rev_cases) (auto simp: aq_pop_def)
    with s [of A'] show "account body b S c (m + omset r') (P\<lparr>deques := (deques P)(q := Q)\<rparr>)"
      by (intro upd [where A' = "A(q := A')"]) (use A r in \<open>auto simp: ac_simps\<close>)
  qed
qed

lemma move_items:
  assumes "v < n" "q < n" "v \<noteq> q" "l \<le> length (aq_items (A v))"
  shows "(\<Sum>i < n. mset (aq_items (aq_move l l v q A i))) = (\<Sum>i < n. mset (aq_items (A i)))"
proof -
  define A1 where "A1 = A(v := (A v)\<lparr>aq_items := drop l (aq_items (A v))\<rparr>)"
  define A2 where "A2 = A1(q := (A q)\<lparr>aq_items := aq_items (A q) @ take l (aq_items (A v))\<rparr>)"
  let ?f = "\<lambda>A. mset (aq_items A)"
  have mv: "aq_move l l v q A = A2" using assms(3) by (auto simp: aq_move_def A1_def A2_def Let_def)
  have 1: "(\<Sum>i < n. ?f (A1 i)) + mset (aq_items (A v)) = (\<Sum>i < n. ?f (A i)) + mset (drop l (aq_items (A v)))"
    unfolding A1_def using sum_upd [OF assms(1), of ?f A "(A v)\<lparr>aq_items := drop l (aq_items (A v))\<rparr>"] by simp
  have 2: "(\<Sum>i < n. ?f (A2 i)) + mset (aq_items (A1 q)) = (\<Sum>i < n. ?f (A1 i)) + (mset (aq_items (A q)) + mset (take l (aq_items (A v))))"
    unfolding A2_def
    using sum_upd [OF assms(2), of ?f A1 "(A q)\<lparr>aq_items := aq_items (A q) @ take l (aq_items (A v))\<rparr>"] by simp
  have 3: "A1 q = A q" using assms(3) by (simp add: A1_def)
  have 4: "mset (take l (aq_items (A v))) + mset (drop l (aq_items (A v))) = mset (aq_items (A v))"
    by (metis append_take_drop_id mset_append)
  have "(\<Sum>i < n. ?f (A2 i)) = (\<Sum>i < n. ?f (A1 i)) + mset (take l (aq_items (A v)))" using 2 3 by (simp add: ac_simps)
  then have "(\<Sum>i < n. ?f (A2 i)) + mset (drop l (aq_items (A v))) = (\<Sum>i < n. ?f (A1 i)) + mset (aq_items (A v))"
    unfolding 4 [symmetric] by (simp add: ac_simps)
  with 1 mv show ?thesis by simp
qed

text \<open>The closure of the pool's steals never panics, so neither does the booking.\<close>

lemma pull_books: "\<exists>r. aq_book k pull m A = Inr r"
  using book_choice_no_panic [of pull "word_of_nat (length (aq_items A))" k 0 m]
  by (auto simp: aq_book_def pull_def)

lemma account_steal:
  assumes a: "account body b S c m P" and v: "v < size_of c" "q < size_of c" "v \<noteq> q"
  shows "returns (wq_steal W k k' pull v q (deques P)) (\<lambda>(r, Q). account body b S c m (P\<lparr>deques := Q\<rparr>))"
proof -
  obtain A where A: "\<And>i. rep (deques P i) None (A i)"
    and upd: "\<And>Q A' m'. (\<And>i. rep (Q i) None (A' i)) \<Longrightarrow>
       m' + (\<Sum>i < size_of c. mset (aq_items (A' i))) = m + (\<Sum>i < size_of c. mset (aq_items (A i))) \<Longrightarrow>
       account body b S c m' (P\<lparr>deques := Q\<rparr>)"
    using account_deques [OF a] by blast
  obtain r where r: "aq_book k pull (word_of_nat (aq_room (A q))) (A v) = Inr r" using pull_books by blast
  define A' where "A' = (case r of Inl e \<Rightarrow> A | Inr l \<Rightarrow> aq_move l l v q A)"
  have st: "\<exists>x. aq_steal k pull v q A = Inr (x, A')"
    by (cases r) (auto simp: aq_steal_def r A'_def)
  have "(\<Sum>i < size_of c. mset (aq_items (A' i))) = (\<Sum>i < size_of c. mset (aq_items (A i)))"
  proof (cases r)
    case (Inr l)
    have "l \<le> length (aq_items (A v))" by (rule aq_book_bounds(4) [OF r [unfolded Inr] rep_wf [OF A]])
    then show ?thesis using move_items [OF v] by (simp add: A'_def Inr)
  qed (simp add: A'_def)
  with upd [where A' = A'] have u: "account body b S c m (P\<lparr>deques := Q\<rparr>)" if "\<And>i. rep (Q i) None (A' i)" for Q
    using that by simp
  obtain x where "aq_steal k pull v q A = Inr (x, A')" using st by blast
  with steal_law [of "deques P" "\<lambda>_. None" A k k' pull v q, OF A]
  obtain y where "wq_steal W k k' pull v q (deques P) = Inr y" "\<forall>i. rep (snd y i) None (A' i)"
    by (auto dest!: res_rel_InrD)
  then show ?thesis using u by (auto simp: split_beta)
qed

subsection \<open>Moving work\<close>

lemma static_okD:
  assumes "account body b S c m P"
  shows "size_of c \<le> 64" "0 < size_of c" "stealers P = [0..<size_of c]" "tuning_ok (pool_tuning P)"
  using assms by (auto simp: account_def static_ok_def static_def)

lemma account_promote_every: "account body b S c m P \<Longrightarrow> promote_every (pool_tuning P) \<noteq> 0"
  using static_okD(4) [of body b S c m P] by (simp add: tuning_ok_def)

lemma account_take_loop:
  assumes "account body b S c (m + mset js) P"
  shows "returns (take_loop n J k js P) (\<lambda>(t, js', P').
    account body b S c (m + mset js') P' \<and> (t = 0 \<longrightarrow> js' = js) \<and> pool_tuning P' = pool_tuning P)"
  using assms
proof (induction n arbitrary: js P)
  case (Suc n)
  show ?case
    unfolding take_loop.simps returns_simps
  proof (rule returns_mono [OF account_pop_injector [OF Suc.prems, of k]], clarify)
    fix r P'
    assume a: "account body b S c (m + mset js + omset r) P'"
    have t: "pool_tuning P' = pool_tuning P" using account_static [OF a] account_static [OF Suc.prems] by (auto simp: static_def)
    show "returns (case r of None \<Rightarrow> Inr (0, js, P') | Some job \<Rightarrow> rbind (take_loop n J k (js @ [job]) P') (\<lambda>(taken, js, P). Inr (Suc taken, js, P)))
      (\<lambda>(t, js', P'). account body b S c (m + mset js') P' \<and> (t = 0 \<longrightarrow> js' = js) \<and> pool_tuning P' = pool_tuning P)"
    proof (cases r)
      case None
      with a t show ?thesis by simp
    next
      case (Some j)
      then have "account body b S c (m + mset (js @ [j])) P'" using a by simp
      from returns_mono [OF Suc.IH [OF this]] show ?thesis by (simp add: Some split_beta t)
    qed
  qed
qed simp

lemma account_len: "account body b S c m P \<Longrightarrow> \<exists>n. mq_len J (pool_injector P) = Inr n"
  by (auto simp: account_def view_ok_def dest: mq_len_law)

lemma account_inbox_len: "account body b S c m P \<Longrightarrow> w < size_of c \<Longrightarrow> \<exists>n. mq_len J (loc_inbox (locals P ! w)) = Inr n"
  by (auto simp: account_def view_ok_def static_workers dest: mq_len_law)

lemma account_take_from_injector:
  assumes "account body b S c (m + mset js) P"
  shows "returns (take_from_injector J k js P) (\<lambda>(t, js', P').
    account body b S c (m + mset js') P' \<and> (t = 0 \<longrightarrow> js' = js))"
  unfolding take_from_injector_def returns_simps
proof (rule returns_mono [OF account_take_loop [OF assms]], clarify, simp only: prod.case returns_simps)
  fix t js' P'
  assume a: "account body b S c (m + mset js') P'" and t: "t = 0 \<longrightarrow> js' = js"
  obtain n where n: "mq_len J (pool_injector P') = Inr n" using account_len [OF a] by blast
  show "returns (mq_len J (pool_injector P')) (\<lambda>remaining. returns (if remaining > 0 then nudge_many None (min (unat remaining) (workers P')) P' else Inr P')
      (\<lambda>P. account body b S c (m + mset js') P \<and> (t = 0 \<longrightarrow> js' = js)))"
    using a t by (auto simp: n intro!: returns_mono [OF nudge_many_returns] intro: account_awoken)
qed

lemma account_publish:
  assumes a: "account body b S c m P" and w: "w < size_of c" and lim: "b < limit"
  shows "returns (publish_capped_slot J k w other P) (account body (Suc b) S c m)"
proof -
  have a1: "account body b S c (m + omset (loc_lifo (locals P ! w))) (set_local w ((locals P ! w)\<lparr>loc_lifo := None\<rparr>) P)"
    by (rule account_slot [OF a w]) simp
  have w64: "w < 64" using static_okD(1) [OF a] w by simp
  show ?thesis
  proof (cases "loc_lifo (locals P ! w)")
    case None
    then show ?thesis
      using account_mono [OF a1, of "Suc b"] by (simp add: publish_capped_slot_def account_get_local [OF a w] slot_take_def)
  next
    case (Some j)
    then have a2: "account body b S c (add_mset j m) (set_local w ((locals P ! w)\<lparr>loc_lifo := None\<rparr>) P)" using a1 by simp
    have "returns (if other then Inr True else rbind (mq_len J (loc_inbox (locals P' ! w))) (\<lambda>n. Inr (n > 1)))
        (\<lambda>x. returns (if x then nudge (Some w) P' else Inr P') (account body (Suc b) S c m))"
      if a': "account body (Suc b) S c m P'" for P'
      using account_inbox_len [OF a' w] a'
      by (auto intro!: returns_mono [OF nudge_returns] intro: account_awoken simp: w64)
    then show ?thesis
      using returns_mono [OF account_push_inbox [OF a2 w lim, of k]] account_get_local [OF _ w]
      by (simp add: publish_capped_slot_def account_get_local [OF a w] slot_take_def Some)
  qed
qed

lemma account_share_loop:
  assumes "account body b S c (m + mset js) P" "q < size_of c"
  shows "returns (share_loop n W q js P) (\<lambda>(t, js', P'). account body b S c (m + mset js') P')"
  using assms(1)
proof (induction n arbitrary: js P)
  case (Suc n)
  show ?case
  proof (cases js)
    case Nil
    then show ?thesis using Suc.prems by simp
  next
    case (Cons j rest)
    then have a: "account body b S c (add_mset j (m + mset rest)) P" using Suc.prems by simp
    show ?thesis
      unfolding Cons share_loop.simps list.case returns_simps
      by (rule returns_mono [OF account_deque_push [OF a assms(2)]])
         (auto simp: Let_def split: sum.splits intro!: returns_mono [OF Suc.IH])
  qed
qed simp

lemma account_share:
  assumes "account body b S c (m + mset js) P" "q < size_of c" "w < size_of c"
  shows "returns (share W q w js P) (\<lambda>(js', P'). account body b S c (m + mset js') P')"
proof -
  have "w < 64" using static_okD(1) [OF assms(1)] assms(3) by simp
  then show ?thesis
    using assms(1)
    by (auto simp: share_def intro!: returns_mono [OF account_share_loop [OF assms(1,2)]] returns_mono [OF nudge_many_returns]
        intro: account_awoken)
qed

lemma account_promote:
  assumes "account body b S c (m + mset js) P" "q < size_of c" "w < size_of c"
  shows "returns (promote W q w js P) (\<lambda>(js', P'). account body b S c (m + mset js') P')"
  using account_share [OF assms] assms(1) by (simp add: promote_def)

subsection \<open>Submitting\<close>

lemma account_push:
  assumes "account body b S c (add_mset j m) P" "b < limit"
  shows "returns (pool_push J k hint j P) (account body (Suc b) S c m)"
  unfolding pool_push_def returns_simps
  by (rule returns_mono [OF account_inject [OF assms]], rule returns_mono [OF wake_returns]) (rule account_awoken)

lemma account_submit_local:
  assumes a: "account body b S c (add_mset j m) P" and w: "w < size_of c" and lim: "b < limit"
  shows "returns (submit_local J k w j P) (account body (Suc b) S c m)"
proof (cases "local_wakes (pool_tuning P)")
  case False
  then show ?thesis using account_push [OF a lim] by (simp add: submit_local_def)
next
  case True
  let ?l = "(locals P ! w)\<lparr>loc_lifo := Some j\<rparr>"
  let ?P = "set_local w ?l P"
  have w64: "w < 64" using static_okD(1) [OF a] w by simp
  have a1: "account body b S c (m + omset (loc_lifo (locals P ! w))) ?P"
    by (rule account_slot [OF a w]) simp
  have tail: "returns (wake_specific w P') (\<lambda>P'. returns (if pub then nudge (Some w) P' else Inr P') (account body (Suc b) S c m))"
    if a': "account body (Suc b) S c m P'" for P' pub
    by (rule returns_mono [OF wake_specific_returns [OF w64]])
       (auto intro!: returns_mono [OF nudge_returns] intro: account_awoken a' simp: w64 dest: account_awoken [OF a'])
  show ?thesis
  proof (cases "loc_lifo (locals P ! w)")
    case None
    then have "account body (Suc b) S c m ?P" using account_mono [OF a1, of "Suc b"] by simp
    with True None tail [of ?P False] show ?thesis by (simp add: submit_local_def account_get_local [OF a w] slot_replace_def)
  next
    case (Some d)
    then have a2: "account body b S c (add_mset d m) ?P" using a1 by simp
    have i: "returns (inject J k d ?P) (\<lambda>P'. returns (wake_specific w P') (\<lambda>P'. returns (if pub then nudge (Some w) P' else Inr P') (account body (Suc b) S c m)))"
      "returns (push_inbox J k w d ?P) (\<lambda>P'. returns (wake_specific w P') (\<lambda>P'. returns (if pub then nudge (Some w) P' else Inr P') (account body (Suc b) S c m)))" for pub
      by (rule returns_mono [OF account_inject [OF a2 lim]] returns_mono [OF account_push_inbox [OF a2 w lim]], rule tail, assumption)+
    from True Some i [of "stealable_inbox (pool_tuning ?P)"] show ?thesis
      by (auto simp: submit_local_def account_get_local [OF a w] slot_replace_def Let_def)
  qed
qed

subsection \<open>Stealing\<close>

lemma account_nudge_if:
  "account body b S c m P \<Longrightarrow> w < size_of c \<Longrightarrow> returns (if x then nudge (Some w) P else Inr P) (account body b S c m)"
  using static_okD(1) [of body b S c m P]
  by (auto intro!: returns_mono [OF nudge_returns] dest: account_awoken)

text \<open>A job out of a victim's inbox goes to the thief's deque, or to the injector when that is full.\<close>

lemma account_keep_stolen:
  assumes a: "account body b S c (add_mset j m) P" and w: "q < size_of c" and lim: "b < limit"
  shows "returns (rbind (wq_push W (deques P q) j) (\<lambda>(r, Q).
      let P = P\<lparr>deques := (deques P)(q := Q)\<rparr> in
      rbind (case r of Inr _ \<Rightarrow> Inr P | Inl job \<Rightarrow> pool_push J k hint job P) (\<lambda>P. Inr (1 :: nat, P))))
    (\<lambda>(got, P'). account body (Suc b) S c m P')"
  unfolding returns_simps
proof (rule returns_mono [OF account_deque_push [OF a w]], clarify)
  fix r Q
  let ?P = "P\<lparr>deques := (deques P)(q := Q)\<rparr>"
  assume a': "account body b S c (case r of Inl j' \<Rightarrow> add_mset j' m | Inr _ \<Rightarrow> m) ?P"
  show "returns (let P = ?P in rbind (case r of Inr _ \<Rightarrow> Inr P | Inl job \<Rightarrow> pool_push J k hint job P) (\<lambda>P. Inr (1 :: nat, P)))
    (\<lambda>(got, P'). account body (Suc b) S c m P')"
  proof (cases r)
    case (Inl j')
    then show ?thesis using account_push [OF _ lim, of body S c j' m ?P k hint] a' by simp
  next
    case (Inr u)
    then show ?thesis using account_mono [of body b S c m ?P "Suc b"] a' by simp
  qed
qed

lemma account_steal_loop:
  assumes "account body b S c m P" "w < size_of c" "b < limit"
  shows "returns (steal_loop os W J k w w start P) (\<lambda>(got, P'). account body (Suc b) S c m P')"
  using assms(1)
proof (induction os arbitrary: P)
  case Nil
  then show ?case by (simp add: account_mono)
next
  case (Cons x os)
  define v where "v = (start + x) mod workers P"
  have v: "v < size_of c" using static_okD(2) [OF Cons.prems] account_workers [OF Cons.prems] by (simp add: v_def)
  let ?Q = "\<lambda>(got :: nat, P'). account body (Suc b) S c m P'"
  have steal: "returns (if v < length (stealers P')
      then rbind (wq_steal W k k pull (stealers P' ! v) w (deques P')) (\<lambda>(r, Q).
        let P = P'\<lparr>deques := Q\<rparr>; got = (case r of Inl _ \<Rightarrow> 0 | Inr n \<Rightarrow> unat n) in
        if got > 0 then rbind (if got > 1 then nudge (Some w) P else Inr P) (\<lambda>P. Inr (got, P))
        else steal_loop os W J k w w start P)
      else Inl IndexOutOfBounds) ?Q" (is "returns ?rhs _")
    if a: "account body b S c m P'" "v \<noteq> w" for P'
  proof -
    have "stealers P' ! v = v" "v < length (stealers P')" using static_okD(3) [OF a(1)] v by simp_all
    moreover have "returns (let P = P'\<lparr>deques := Q\<rparr>; got = (case r of Inl _ \<Rightarrow> 0 | Inr n \<Rightarrow> unat n) in
        if got > 0 then rbind (if got > 1 then nudge (Some w) P else Inr P) (\<lambda>P. Inr (got, P))
        else steal_loop os W J k w w start P) ?Q" if q: "account body b S c m (P'\<lparr>deques := Q\<rparr>)" for r :: "steal_error + usize" and Q
      using Cons.IH [OF q] account_mono [OF q, of "Suc b"] account_nudge_if [OF account_mono [OF q, of "Suc b"] assms(2), of True]
      by (auto simp: Let_def)
    ultimately show ?thesis
      by (auto intro!: returns_mono [OF account_steal [OF a(1) v assms(2) a(2)]])
  qed
  show ?case
  proof (cases "v = w")
    case True
    then show ?thesis using Cons.IH [OF Cons.prems] by (simp add: v_def)
  next
    case False
    have inbox: "returns (if stealable_inbox (pool_tuning P) then pop_inbox J k v P else Inr (None, P))
        (\<lambda>(r, P'). account body b S c (m + omset r) P')"
      using account_pop_inbox [OF Cons.prems v, of k] Cons.prems by simp
    show ?thesis
      unfolding steal_loop.simps v_def [symmetric] Let_def [of v] if_not_P [OF False]
        returns_simps(3) [of "if stealable_inbox (pool_tuning P) then pop_inbox J k v P else Inr (None, P)"]
    proof (rule returns_mono [OF inbox], clarify)
      fix r P'
      assume a: "account body b S c (m + omset r) P'"
      show "returns (case r of
          Some job \<Rightarrow> rbind (wq_push W (deques P' w) job) (\<lambda>(r, q).
            let P = P'\<lparr>deques := (deques P')(w := q)\<rparr> in
            rbind (case r of Inr _ \<Rightarrow> Inr P | Inl job \<Rightarrow> pool_push J k (Some w) job P) (\<lambda>P. Inr (1, P)))
        | None \<Rightarrow>
            if v < length (stealers P')
            then rbind (wq_steal W k k pull (stealers P' ! v) w (deques P')) (\<lambda>(r, Q).
              let P = P'\<lparr>deques := Q\<rparr>; got = (case r of Inl _ \<Rightarrow> 0 | Inr n \<Rightarrow> unat n) in
              if got > 0 then rbind (if got > 1 then nudge (Some w) P else Inr P) (\<lambda>P. Inr (got, P))
              else steal_loop os W J k w w start P)
            else Inl IndexOutOfBounds) ?Q"
      proof (cases r)
        case None
        then show ?thesis using steal [OF _ False, of P'] a by (simp only: option.case omset_simps add_0_right)
      next
        case (Some j)
        then show ?thesis using account_keep_stolen [OF _ assms(2,3), of body S j m P' k "Some w"] a
          by (simp only: option.case omset_simps add_mset_add_single [symmetric])
      qed
    qed
  qed
qed

lemma account_steal_once:
  assumes "account body b S c m P" "w < size_of c" "b < limit"
  shows "returns (steal_once W J k w w r P) (\<lambda>(got, r', P'). account body (Suc b) S c m P')"
  using account_mono [OF assms(1), of "Suc b"]
  by (auto simp: steal_once_def Let_def intro!: returns_mono [OF account_steal_loop [OF assms]])

lemma account_sleeping: "account body b S c m P \<Longrightarrow> account body b S c m (P\<lparr>sleeping := s\<rparr>)"
  by (erule account_awoken) simp

lemma account_prepare_to_park:
  assumes a: "account body b S c m P" and w: "w < size_of c" and lim: "b < limit"
  shows "returns (prepare_to_park W J k w w r P) (\<lambda>(ready, r', P'). account body (Suc b) S c m P')"
proof -
  let ?P = "P\<lparr>sleeping := sleeping P OR push_bit w 1\<rparr>"
  have a': "account body b S c m ?P" by (rule account_sleeping [OF a])
  have w64: "w < 64" using static_okD(1) [OF a] w by simp
  have steal: "returns (if x then Inr (True, r, ?P) else rbind (steal_once W J k w w r ?P) (\<lambda>(got, r, P). Inr (got > 0, r, P)))
      (\<lambda>(found, r, P'). account body (Suc b) S c m P')" for x
    using returns_mono [OF account_steal_once [OF a' w lim]] account_mono [OF a', of "Suc b"] by (simp add: split_beta)
  show ?thesis
    unfolding prepare_to_park_def worker_bit_def if_P [OF w64] returns_simps Let_def account_get_local [OF a' w]
    by (rule returns_mono [OF steal]) (auto intro: account_sleeping)
qed

subsection \<open>Running jobs\<close>

lemma account_running: "account body b S c m P \<Longrightarrow> account body b S c m (P\<lparr>running := x\<rparr>)"
  by (simp add: account_def view_ok_def static_def workers_def)

lemma awoken_unpark_all: "awoken P (unpark_all ws P') = awoken P P'"
  by (induction ws arbitrary: P') simp_all

lemma account_shut_down: "account body b S c m P \<Longrightarrow> account body b S c m (shut_down P)"
  unfolding shut_down_def Let_def
  by (erule account_awoken [OF account_running [where x = False]]) (simp add: awoken_unpark_all)

lemma account_call:
  assumes "account body b S c (m + call_jobs x) P" "call_valid (size_of c) x" "b < limit"
  shows "returns (exec_call J k x P) (account body (Suc b) S c m)"
proof (cases x)
  case (SubmitJob hint j)
  then show ?thesis using account_push [of body b S c j m P k hint] assms by simp
next
  case (SubmitLocal w j)
  then show ?thesis using account_submit_local [of body b S c j m P w k] assms by simp
next
  case ShutDown
  then show ?thesis using account_mono [OF account_shut_down, of body b S c m P "Suc b"] assms by simp
qed

lemma account_calls:
  assumes "account body b S c (m + calls_jobs xs) P" "\<forall>x \<in> set xs. call_valid (size_of c) x" "b + length xs \<le> limit"
  shows "returns (exec_calls J k xs P) (account body (b + length xs) S c m)"
  using assms
proof (induction xs arbitrary: b P)
  case Nil
  then show ?case by (simp add: calls_jobs_def)
next
  case (Cons x xs)
  then have "account body b S c (m + calls_jobs xs + call_jobs x) P" by (simp add: calls_jobs_def ac_simps)
  from account_call [OF this, of k] Cons.prems show ?case
    by (auto elim!: returns_mono dest!: Cons.IH)
qed

lemma account_execute:
  assumes a: "account body b S c (add_mset j m) P" and ok: "body_ok B (size_of c) body" and w: "w < size_of c"
    and lim: "b + B \<le> limit"
  shows "returns (execute J k body w j P) (account body (b + B) S c m)"
proof -
  let ?P = "P\<lparr>jobs_run := jobs_run P @ [j]\<rparr>"
  have "account body b S c (m + calls_jobs (body j)) ?P"
    using a by (auto simp: account_def view_ok_def static_def workers_def spawned_def ac_simps)
  then have 1: "returns (exec_calls J k (body j) ?P) (account body (b + length (body j)) S c m)"
    by (rule account_calls) (use ok lim in \<open>auto simp: body_ok_def elim: order_trans [rotated]\<close>)
  have "b + length (body j) \<le> b + B" using ok by (simp add: body_ok_def)
  then show ?thesis
    unfolding execute_def returns_simps
    by (intro returns_mono [OF 1]) (simp add: account_get_local [OF _ w] account_counter [OF account_mono w])
qed

subsection \<open>The run loop\<close>

text \<open>The local variables of a worker's loop, and what a step of it leaves.\<close>

definition loop_ok :: "pool_static \<Rightarrow> nat \<Rightarrow> 'j run_state \<Rightarrow> bool" where
  "loop_ok c w L \<longleftrightarrow> queue L = w \<and> until_promote L \<noteq> 0 \<and> lifo_run L \<le> lifo_run_limit (fst (snd (snd c)))"

lemma loop_ok_upd [simp]:
  "loop_ok c w (L\<lparr>mine := js\<rparr>) = loop_ok c w L"
  "loop_ok c w (L\<lparr>spins := n\<rparr>) = loop_ok c w L"
  "loop_ok c w (L\<lparr>rng := r\<rparr>) = loop_ok c w L"
  "loop_ok c w L \<Longrightarrow> u \<noteq> 0 \<Longrightarrow> loop_ok c w (L\<lparr>until_promote := u\<rparr>)"
  "loop_ok c w L \<Longrightarrow> v \<le> lifo_run_limit (fst (snd (snd c))) \<Longrightarrow> loop_ok c w (L\<lparr>lifo_run := v\<rparr>)"
  by (simp_all add: loop_ok_def)

definition stepped ::
  "('j \<Rightarrow> 'j pool_call list) \<Rightarrow> nat \<Rightarrow> 'j multiset \<Rightarrow> pool_static \<Rightarrow> 'j multiset \<Rightarrow> nat \<Rightarrow> 'j run_state \<times> ('q, 'i, 'j) pool \<Rightarrow> bool" where
  "stepped body b S c m w = (\<lambda>(L, P). account body b S c (m + mset (mine L)) P \<and> loop_ok c w L)"

lemma stepped_mono: "stepped body b S c m w LP \<Longrightarrow> b \<le> b' \<Longrightarrow> stepped body b' S c m w LP"
  by (auto simp: stepped_def intro: account_mono)

lemma stepped_tuning: "stepped body b S c m w (L, P) \<Longrightarrow> pool_tuning P = fst (snd (snd c))"
  by (auto simp: stepped_def account_def static_def)

text \<open>A phase that runs a job ends the iteration; one that falls through runs none.\<close>

lemma slot_phase_ok:
  assumes s: "stepped body b S c m w (L, P)" and ok: "body_ok B (size_of c) body" and w: "w < size_of c" and lim: "b + B \<le> limit"
  shows "returns (slot_phase J k body w L P) (\<lambda>(out, L', P').
    stepped body (if out = Fall then b else b + B) S c m w (L', P') \<and> out \<noteq> Break)"
proof (cases "lifo_run L < lifo_run_limit (pool_tuning P)")
  case True
  have a: "account body b S c (m + mset (mine L)) P" and lo: "loop_ok c w L" using s by (auto simp: stepped_def)
  have a1: "account body b S c (m + mset (mine L) + omset (loc_lifo (locals P ! w))) (set_local w ((locals P ! w)\<lparr>loc_lifo := None\<rparr>) P)"
    by (rule account_slot [OF a w]) simp
  have lim1: "unat (lifo_run L) + unat (1 :: 32 word) < 2 ^ LENGTH(32)"
  proof -
    have "unat (lifo_run_limit (pool_tuning P)) < 4294967296" by (rule unat_lt32)
    with True show ?thesis by (simp add: word_less_nat_alt del: unat_lt32)
  qed
  have up: "lifo_run L + 1 \<le> lifo_run_limit (fst (snd (snd c)))"
    using True stepped_tuning [OF s] by (simp add: inc_le)
  show ?thesis
  proof (cases "loc_lifo (locals P ! w)")
    case None
    then show ?thesis using True a1 lo by (simp add: slot_phase_def account_get_local [OF a w] slot_take_def stepped_def Let_def)
  next
    case (Some j)
    then have "account body b S c (add_mset j (m + mset (mine L))) (set_local w ((locals P ! w)\<lparr>loc_lifo := None\<rparr>) P)"
      using a1 by simp
    from returns_mono [OF account_execute [OF this ok w lim, of k]] True Some lo up lim1 show ?thesis
      by (simp add: slot_phase_def account_get_local [OF a w] slot_take_def stepped_def Let_def)
  qed
qed (use s in \<open>simp add: slot_phase_def\<close>)

lemma boundary_ok:
  assumes s: "stepped body b S c m w (L, P)" and w: "w < size_of c" and lim: "b < limit"
  shows "returns (boundary W J k w x L P) (stepped body (Suc b) S c m w)"
proof -
  have a: "account body b S c (m + mset (mine L)) P" and lo: "loop_ok c w L" using s by (auto simp: stepped_def)
  have 1: "returns (if x \<and> stealable_inbox (pool_tuning P)
      then publish_capped_slot J k w (mine L \<noteq> [] \<or> \<not> wq_is_empty W (deques P (queue L))) P else Inr P)
      (account body (Suc b) S c (m + mset (mine L)))"
    using account_publish [OF a w lim] account_mono [OF a, of "Suc b"] by simp
  have 2: "returns (if x \<and> share_displaced (pool_tuning P') then rbind (take_from_injector J k (mine L) P') (\<lambda>(taken, m, P). Inr (m, P))
      else Inr (mine L, P')) (\<lambda>(js, P'). account body (Suc b) S c (m + mset js) P')"
    if a': "account body (Suc b) S c (m + mset (mine L)) P'" for P'
    using returns_mono [OF account_take_from_injector [OF a', of k]] a' by (simp add: split_beta)
  show ?thesis
    unfolding boundary_def returns_simps
    by (rule returns_mono [OF 1], rule returns_mono [OF 2], assumption) (use lo in \<open>auto simp: stepped_def\<close>)
qed

lemma mine_phase_ok:
  assumes s: "stepped body b S c m w (L, P)" and ok: "body_ok B (size_of c) body" and w: "w < size_of c" and lim: "b + B \<le> limit"
  shows "returns (mine_phase W J k body w L P) (\<lambda>(out, L', P').
    stepped body (if out = Fall then b else b + B) S c m w (L', P') \<and> out \<noteq> Break \<and> (out = Fall \<longrightarrow> mine L' = []))"
proof (cases "mine L = []")
  case False
  have a: "account body b S c (m + mset (mine L)) P" and lo: "loop_ok c w L" using s by (auto simp: stepped_def)
  let ?j = "last (mine L)" and ?js = "butlast (mine L)"
  have "mset (mine L) = add_mset ?j (mset ?js)" using False by (metis append_butlast_last_id mset.simps(2) mset_append mset_single_iff_right union_mset_add_mset_right add.right_neutral mset.simps(1))
  then have a1: "account body b S c (add_mset ?j m + mset ?js) P" using a by simp
  have tp: "promote_every (pool_tuning P') \<noteq> 0" if "account body b S c m' P'" for m' P'
    using static_okD(4) [OF that] by (simp add: tuning_ok_def)
  have u1: "checked_minus (until_promote L) 1 = Inr (until_promote L - 1)"
    using lo by (simp add: loop_ok_def word_le_nat_alt unat_gt_0 Suc_leI)
  have 1: "returns (if until_promote L - 1 = 0
      then rbind (promote W (queue L) w ?js P) (\<lambda>(m, P). Inr (promote_every (pool_tuning P), m, P))
      else Inr (until_promote L - 1, ?js, P))
      (\<lambda>(u, js, P'). u \<noteq> 0 \<and> account body b S c (add_mset ?j m + mset js) P')"
    using returns_mono [OF account_promote [OF a1 w w]] tp a1 lo by (auto simp: loop_ok_def split_beta)
  have 2: "returns (execute J k body w ?j P') (account body (b + B) S c (m + mset js))"
    if "account body b S c (add_mset ?j m + mset js) P'" for js P'
    using account_execute [OF _ ok w lim, of S ?j "m + mset js" P' k] that by simp
  show ?thesis
    unfolding mine_phase_def if_not_P [OF False] Let_def u1 returns_simps
    by (rule returns_mono [OF 1]) (use lo in \<open>auto intro!: returns_mono [OF 2] simp: stepped_def\<close>)
qed (use s in \<open>simp add: mine_phase_def\<close>)

lemma inbox_run_phase_ok:
  assumes s: "stepped body b S c m w (L, P)" and ok: "body_ok B (size_of c) body" and w: "w < size_of c" and lim: "b + B \<le> limit"
  shows "returns (inbox_run_phase J k body w L P) (\<lambda>(out, L', P').
    stepped body (if out = Fall then b else b + B) S c m w (L', P') \<and> out \<noteq> Break \<and> mine L' = mine L)"
proof (cases "stealable_inbox (pool_tuning P)")
  case True
  have a: "account body b S c (m + mset (mine L)) P" and lo: "loop_ok c w L" using s by (auto simp: stepped_def)
  show ?thesis
    unfolding inbox_run_phase_def if_P [OF True] returns_simps
  proof (rule returns_mono [OF account_pop_inbox [OF a w]], clarify)
    fix r P'
    assume a': "account body b S c (m + mset (mine L) + omset r) P'"
    show "returns (case r of None \<Rightarrow> Inr (Fall, L, P')
        | Some job \<Rightarrow> rbind (execute J k body w job P') (\<lambda>P. Inr (Continue, L\<lparr>spins := 0\<rparr>, P)))
      (\<lambda>(out, L', P'). stepped body (if out = Fall then b else b + B) S c m w (L', P') \<and> out \<noteq> Break \<and> mine L' = mine L)"
      using a' lo returns_mono [OF account_execute [OF _ ok w lim, of S _ "m + mset (mine L)" P' k]]
      by (cases r) (simp_all add: stepped_def)
  qed
qed (use s in \<open>simp add: inbox_run_phase_def\<close>)

lemma account_move_inbox:
  assumes "account body b S c (m + mset js) P" "w < size_of c"
  shows "returns (move_inbox n J k w js P) (\<lambda>(t, js', P'). account body b S c (m + mset js') P' \<and> (t = 0 \<longrightarrow> js' = js))"
  using assms(1)
proof (induction n arbitrary: js P)
  case 0
  then show ?case
    by (subst move_inbox.simps) (auto split: option.splits intro!: returns_mono [OF account_pop_inbox [OF 0 assms(2)]])
next
  case (Suc n)
  show ?case
    by (subst move_inbox.simps)
       (auto split: option.splits intro!: returns_mono [OF account_pop_inbox [OF Suc.prems assms(2)]] returns_mono [OF Suc.IH])
qed

lemma inbox_move_phase_ok:
  assumes s: "stepped body b S c m w (L, P)" and w: "w < size_of c"
  shows "returns (inbox_move_phase J k w L P) (\<lambda>(out, L', P').
    stepped body b S c m w (L', P') \<and> out \<noteq> Break \<and> (out = Fall \<longrightarrow> mine L' = mine L))"
  using s
  by (auto simp: inbox_move_phase_def stepped_def intro!: returns_mono [OF account_move_inbox [OF _ w]])

lemma queue_phase_ok:
  assumes s: "stepped body b S c m w (L, P)" and ok: "body_ok B (size_of c) body" and w: "w < size_of c" and lim: "b + B \<le> limit"
  shows "returns (queue_phase W J k body w L P) (\<lambda>(out, L', P').
    stepped body (if out = Fall then b else b + B) S c m w (L', P') \<and> out \<noteq> Break \<and> mine L' = mine L)"
proof -
  have a: "account body b S c (m + mset (mine L)) P" and lo: "loop_ok c w L" using s by (auto simp: stepped_def)
  have q: "queue L < size_of c" using lo w by (simp add: loop_ok_def)
  show ?thesis
    unfolding queue_phase_def returns_simps
  proof (rule returns_mono [OF account_deque_pop [OF a q]], clarify)
    fix r Q
    let ?P = "P\<lparr>deques := (deques P)(queue L := Q)\<rparr>"
    assume a': "account body b S c (m + mset (mine L) + omset r) ?P"
    show "returns (let P = ?P in case r of None \<Rightarrow> Inr (Fall, L, P)
        | Some job \<Rightarrow> rbind (execute J k body w job P) (\<lambda>P. Inr (Continue, L\<lparr>spins := 0\<rparr>, P)))
      (\<lambda>(out, L', P'). stepped body (if out = Fall then b else b + B) S c m w (L', P') \<and> out \<noteq> Break \<and> mine L' = mine L)"
      using a' lo returns_mono [OF account_execute [OF _ ok w lim, of S _ "m + mset (mine L)" ?P k]]
      by (cases r) (simp_all add: stepped_def)
  qed
qed

definition with_searching :: "usize \<Rightarrow> pool_static \<Rightarrow> pool_static" where
  "with_searching x c = (case c of (qs, st, t, i, _) \<Rightarrow> (qs, st, t, i, x))"

lemma with_searching_simps [simp]:
  "size_of (with_searching x c) = size_of c" "fst (snd (snd (with_searching x c))) = fst (snd (snd c))"
  "with_searching x (with_searching y c) = with_searching x c"
  by (simp_all add: with_searching_def split_beta)

lemma account_searching: "account body b S c m P \<Longrightarrow> account body b S (with_searching x c) m (P\<lparr>searching := x\<rparr>)"
  by (auto simp: account_def view_ok_def static_def static_ok_def workers_def with_searching_def)

lemma search_phase_ok:
  assumes s: "stepped body b S c m w (L, P)" and c: "c = with_searching 0 c" and w: "w < size_of c" and lim: "b < limit"
  shows "returns (search_phase W J k w L P) (\<lambda>(out, L', P').
    stepped body (Suc b) S c m w (L', P') \<and> out \<noteq> Break \<and> mine L' = mine L)"
proof -
  have a: "account body b S c (m + mset (mine L)) P" and lo: "loop_ok c w L" using s by (auto simp: stepped_def)
  have q: "queue L = w" using lo by (simp add: loop_ok_def)
  have s0: "searching P = 0"
    using account_static [OF a] arg_cong [OF c, of "\<lambda>c. snd (snd (snd (snd c)))"] by (auto simp: static_def with_searching_def split_beta)
  have n64: "workers P \<le> 64" using static_okD(1) [OF a] account_workers [OF a] by simp
  show ?thesis
  proof (cases "workers P < 2")
    case True
    then have n2: "\<not> 2 \<le> workers P'" if "account body b' S c m' P'" for b' m' P'
      using account_workers [OF that] account_workers [OF a] by simp
    show ?thesis
      using lo True n2 by (auto simp: search_phase_def may_search_def q Let_def stepped_def
          intro!: returns_mono [OF account_steal_once [OF a w lim]])
  next
    case False
    let ?c = "with_searching 1 c"
    have nz: "\<not> (word_of_nat (workers P) :: usize) \<le> 0"
      using False n64 by (simp add: word_le_nat_alt unat_of_nat)
    have a1: "account body b S ?c (m + mset (mine L)) (P\<lparr>searching := 1\<rparr>)" by (rule account_searching [OF a])
    have ms: "may_search P = Inr (True, P\<lparr>searching := 1\<rparr>)"
      using False s0 nz by (simp add: may_search_def workers_def Let_def)
    have "returns (steal_once W J k w w (rng L) (P\<lparr>searching := 1\<rparr>))
        (\<lambda>(got, r, P'). account body (Suc b) S ?c (m + mset (mine L)) P')"
      by (rule account_steal_once [OF a1]) (use w lim in simp_all)
    then show ?thesis
      unfolding search_phase_def ms returns_simps prod.case if_True q
    proof (rule returns_mono, clarify)
      fix got r P'
      assume a': "account body (Suc b) S ?c (m + mset (mine L)) P'"
      have w': "workers P' = workers P" using account_workers [OF a'] account_workers [OF a] by simp
      have s1: "searching P' = 1" using account_static [OF a'] by (auto simp: static_def with_searching_def split_beta)
      have "account body (Suc b) S c (m + mset (mine L)) (P'\<lparr>searching := 0\<rparr>)"
        using account_searching [OF a', of 0] c by simp
      then show "returns (let P = (if workers P' \<ge> 2 then P'\<lparr>searching := searching P' - 1\<rparr> else P'); L = L\<lparr>rng := r\<rparr> in
          if got > 0 then Inr (Continue, L\<lparr>spins := 0\<rparr>, P) else Inr (Fall, L, P))
        (\<lambda>(out, L', P'). stepped body (Suc b) S c m w (L', P') \<and> out \<noteq> Break \<and> mine L' = mine L)"
        using False lo by (simp add: w' s1 Let_def stepped_def)
    qed
  qed
qed

lemma injector_phase_ok:
  assumes s: "stepped body b S c m w (L, P)" and w: "w < size_of c"
  shows "returns (injector_phase W J k w L P) (\<lambda>(out, L', P').
    stepped body b S c m w (L', P') \<and> out \<noteq> Break \<and> (out = Fall \<longrightarrow> mine L' = mine L))"
proof -
  have a: "account body b S c (m + mset (mine L)) P" and lo: "loop_ok c w L" using s by (auto simp: stepped_def)
  have q: "queue L = w" using lo by (simp add: loop_ok_def)
  have share: "returns (share W w w js P') (\<lambda>(js', P'). account body b S c (m + mset js') P' \<and> promote_every (pool_tuning P') \<noteq> 0)"
    if "account body b S c (m + mset js) P'" for js P'
    by (rule returns_mono [OF account_share [OF that w w]]) (auto dest: account_promote_every)
  show ?thesis
    unfolding injector_phase_def returns_simps q
    by (rule returns_mono [OF account_take_from_injector [OF a]])
       (use lo in \<open>auto simp: stepped_def intro!: returns_mono [OF share]\<close>)
qed

lemma ready_phase_ok:
  assumes s: "stepped body b S c m w (L, P)" and ok: "body_ok B (size_of c) body" and w: "w < size_of c" and lim: "b + B \<le> limit"
  shows "returns (ready_phase J k body w x L P) (\<lambda>(out, L', P').
    stepped body (if out = Fall then b else b + B) S c m w (L', P') \<and> out \<noteq> Break \<and> mine L' = mine L)"
proof (cases x)
  case True
  have a: "account body b S c (m + mset (mine L)) P" and lo: "loop_ok c w L" using s by (auto simp: stepped_def)
  have a1: "account body b S c (m + mset (mine L) + omset (loc_lifo (locals P ! w))) (set_local w ((locals P ! w)\<lparr>loc_lifo := None\<rparr>) P)"
    by (rule account_slot [OF a w]) simp
  have one: "(1 :: 32 word) \<le> lifo_run_limit (fst (snd (snd c)))"
    using static_okD(4) [OF a] stepped_tuning [OF s] by (simp add: tuning_ok_def word_le_nat_alt unat_gt_0 Suc_leI)
  show ?thesis
  proof (cases "loc_lifo (locals P ! w)")
    case None
    then show ?thesis using True a1 lo by (simp add: ready_phase_def account_get_local [OF a w] slot_take_def stepped_def Let_def)
  next
    case (Some j)
    then have "account body b S c (add_mset j (m + mset (mine L))) (set_local w ((locals P ! w)\<lparr>loc_lifo := None\<rparr>) P)"
      using a1 by simp
    from returns_mono [OF account_execute [OF this ok w lim, of k]] True Some lo one show ?thesis
      by (simp add: ready_phase_def account_get_local [OF a w] slot_take_def stepped_def Let_def)
  qed
qed (use s in \<open>simp add: ready_phase_def\<close>)

lemma idle_phase_ok:
  assumes s: "stepped body b S c m w (L, P)" and w: "w < size_of c" and lim: "b < limit"
  shows "returns (idle_phase W J k w L P) (\<lambda>(out, L', P'). stepped body (Suc b) S c m w (L', P') \<and> mine L' = mine L)"
proof -
  have a: "account body b S c (m + mset (mine L)) P" and lo: "loop_ok c w L" using s by (auto simp: stepped_def)
  have w64: "w < 64" using static_okD(1) [OF a] w by simp
  have q: "queue L = w" using lo by (simp add: loop_ok_def)
  have sp: "checked_plus (spins L) 1 = Inr (spins L + 1)" if "spins L < n" for n
  proof -
    have "unat n < 4294967296" by (rule unat_lt32)
    with that show ?thesis by (intro checked_plus_ok) (simp add: word_less_nat_alt del: unat_lt32)
  qed
  have parks: "account body b S c m P' \<Longrightarrow> account body b S c m (P'\<lparr>parks := x\<rparr>)" for b m P' x
    by (simp add: account_def view_ok_def static_def workers_def)
  show ?thesis
    using account_mono [OF a, of "Suc b"] lo sp
    by (auto simp: idle_phase_def worker_bit_def w64 q Let_def stepped_def
        intro!: returns_mono [OF account_prepare_to_park [OF a w lim]] account_sleeping parks)
qed

lemma and_then_returns:
  assumes "returns m R" "\<And>L P. R (Fall, L, P) \<Longrightarrow> returns (f L P) Q" "\<And>out L P. out \<noteq> Fall \<Longrightarrow> R (out, L, P) \<Longrightarrow> Q (out, L, P)"
  shows "returns (and_then m f) Q"
  unfolding and_then_def returns_simps by (rule returns_mono [OF assms(1)]) (use assms(2,3) in \<open>auto split: if_splits\<close>)

definition iterated ::
  "('j \<Rightarrow> 'j pool_call list) \<Rightarrow> nat \<Rightarrow> 'j multiset \<Rightarrow> pool_static \<Rightarrow> 'j multiset \<Rightarrow> nat \<Rightarrow>
     outcome \<times> 'j run_state \<times> ('q, 'i, 'j) pool \<Rightarrow> bool" where
  "iterated body b S c m w = (\<lambda>(out, L, P). stepped body b S c m w (L, P) \<and> (out = Break \<longrightarrow> mine L = []))"

lemma iteratedI: "stepped body b S c m w (L, P) \<Longrightarrow> b \<le> b' \<Longrightarrow> out \<noteq> Break \<or> mine L = [] \<Longrightarrow> iterated body b' S c m w (out, L, P)"
  by (auto simp: iterated_def elim: stepped_mono)

lemma shared_phases_ok:
  assumes s: "stepped body b S c m w (L, P)" and ok: "body_ok B (size_of c) body" and c: "c = with_searching 0 c"
    and w: "w < size_of c" and lim: "b + B + 2 \<le> limit" and mine: "mine L = []"
  shows "returns (shared_phases W J k body w x L P) (iterated body (b + B + 2) S c m w)"
  unfolding shared_phases_def
proof (rule and_then_returns [OF queue_phase_ok [OF s ok w]], goal_cases)
  case (2 L P)
  then have s1: "stepped body b S c m w (L, P)" and m1: "mine L = []" using mine by simp_all
  show ?case
  proof (rule and_then_returns [OF search_phase_ok [OF s1 c w]], goal_cases)
    case (2 L P)
    then have s2: "stepped body (Suc b) S c m w (L, P)" and m2: "mine L = []" using m1 by simp_all
    show ?case
    proof (rule and_then_returns [OF injector_phase_ok [OF s2 w]], goal_cases)
      case (1 L P)
      then have s3: "stepped body (Suc b) S c m w (L, P)" and m3: "mine L = []" using m2 by simp_all
      show ?case
      proof (rule and_then_returns [OF ready_phase_ok [OF s3 ok w]], goal_cases)
        case (2 L P)
        then have s4: "stepped body (Suc b) S c m w (L, P)" and m4: "mine L = []" using m3 by simp_all
        show ?case
          by (rule returns_mono [OF idle_phase_ok [OF s4 w]]) (use lim m4 in \<open>auto intro!: iteratedI\<close>)
      qed (use lim in \<open>auto intro!: iteratedI\<close>)
    qed (auto intro!: iteratedI)
  qed (use lim in \<open>auto intro!: iteratedI\<close>)
qed (use lim in \<open>auto intro!: iteratedI\<close>)

lemma private_phases_ok:
  assumes s: "stepped body b S c m w (L, P)" and ok: "body_ok B (size_of c) body" and c: "c = with_searching 0 c"
    and w: "w < size_of c" and lim: "b + B + 2 \<le> limit"
  shows "returns (private_phases W J k body w x L P) (iterated body (b + B + 2) S c m w)"
  unfolding private_phases_def
proof (rule and_then_returns [OF mine_phase_ok [OF s ok w]], goal_cases)
  case (2 L P)
  then have s1: "stepped body b S c m w (L, P)" and m1: "mine L = []" by simp_all
  show ?case
  proof (rule and_then_returns [OF inbox_run_phase_ok [OF s1 ok w]], goal_cases)
    case (2 L P)
    then have s2: "stepped body b S c m w (L, P)" and m2: "mine L = []" using m1 by simp_all
    show ?case
    proof (rule and_then_returns [OF inbox_move_phase_ok [OF s2 w]], goal_cases)
      case (1 L P)
      then show ?case using shared_phases_ok [OF _ ok c w lim] m2 by simp
    qed (auto intro!: iteratedI)
  qed (use lim in \<open>auto intro!: iteratedI\<close>)
qed (use lim in \<open>auto intro!: iteratedI\<close>)

lemma run_once_ok:
  assumes s: "stepped body b S c m w (L, P)" and ok: "body_ok B (size_of c) body" and c: "c = with_searching 0 c"
    and w: "w < size_of c" and lim: "b + B + 3 \<le> limit"
  shows "returns (run_once W J k body w L P) (iterated body (b + B + 3) S c m w)"
  unfolding run_once_def
proof (rule and_then_returns [OF slot_phase_ok [OF s ok w]], goal_cases)
  case (2 L P)
  then have s1: "stepped body b S c m w (L, P)" by simp
  have "returns (private_phases W J k body w x L' P') (iterated body (b + B + 3) S c m w)"
    if "stepped body (Suc b) S c m w (L', P')" for x L' P'
    using private_phases_ok [OF that ok c w, of k x] lim by (simp add: numeral_3_eq_3)
  then show ?case
    unfolding Let_def returns_simps
    by (intro returns_mono [OF boundary_ok [OF s1 w]]) (use lim in auto)
qed (use lim in \<open>auto intro!: iteratedI\<close>)

subsection \<open>The machine\<close>

text \<open>The deque of a worker is in its slot exactly while nobody runs the worker.\<close>

definition queues_of :: "nat \<Rightarrow> ('q, 'i, 'j) machine \<Rightarrow> nat option list" where
  "queues_of n M = map (\<lambda>w. if loops M w = None then Some w else None) [0..<n]"

definition machine_ok ::
  "('j \<Rightarrow> 'j pool_call list) \<Rightarrow> nat \<Rightarrow> usize \<Rightarrow> nat \<Rightarrow> 'j multiset \<Rightarrow> ('q, 'i, 'j) machine \<Rightarrow> bool" where
  "machine_ok body n i b S M \<longleftrightarrow>
     (\<exists>st t. account body b S (queues_of n M, st, t, i, 0) (in_hand n M) (the_pool M) \<and>
        (\<forall>w L. loops M w = Some L \<longrightarrow> w < n \<and> loop_ok (queues_of n M, st, t, i, 0) w L))"

lemma in_hand_upd:
  assumes "w < n" "in_hand n M = m + mine_of (loops M w)"
  shows "in_hand n (M\<lparr>the_pool := P, loops := (loops M)(w := x)\<rparr>) = m + mine_of x"
proof -
  have "in_hand n (M\<lparr>the_pool := P, loops := (loops M)(w := x)\<rparr>) + mine_of (loops M w) = in_hand n M + mine_of x"
    unfolding in_hand_def using sum_upd [OF assms(1), of mine_of "loops M" x] by simp
  then show ?thesis unfolding assms(2) by (simp add: ac_simps)
qed

lemma in_hand_split: "w < n \<Longrightarrow> \<exists>m. in_hand n M = m + mine_of (loops M w)"
  unfolding in_hand_def by (auto simp: sum.remove [of "{..<n}" w] ac_simps)

lemma account_set_queue:
  assumes a: "account body b S (qs, st, t, i, x) m P" and w: "w < length qs"
  shows "account body b S (qs[w := q], st, t, i, x) m (set_local w ((locals P ! w)\<lparr>loc_queue := q\<rparr>) P)"
proof -
  have "length (locals P) = length qs" using account_static [OF a] by (auto simp: static_def)
  then show ?thesis
    using a w
    by (auto simp: account_def view_ok_def static_def static_ok_def set_local_def workers_def map_update nth_list_update)
qed

lemma queues_upd:
  "w < n \<Longrightarrow> queues_of n (M\<lparr>the_pool := P, loops := (loops M)(w := x)\<rparr>)
    = (queues_of n M)[w := (if x = None then Some w else None)]"
  by (rule nth_equalityI) (auto simp: queues_of_def nth_list_update)

lemma queues_of_simps [simp]: "length (queues_of n M) = n" "queues_of n (M\<lparr>the_pool := P\<rparr>) = queues_of n M"
  by (simp_all add: queues_of_def)

lemma queues_keep:
  "w < n \<Longrightarrow> loops M w = Some L \<Longrightarrow> queues_of n (M\<lparr>the_pool := P, loops := (loops M)(w := Some L')\<rparr>) = queues_of n M"
  by (rule nth_equalityI) (auto simp: queues_of_def)

lemma loop_ok_queues: "loop_ok (qs, st, t, i, x) w L = loop_ok (qs', st, t, i, x) w L"
  by (simp add: loop_ok_def)

lemma outside_ok:
  assumes m: "machine_ok body n i b S M" and v: "call_valid n x" and lim: "b < limit"
  shows "returns (pool_do W J body (k, Outside x) M) (machine_ok body n i (Suc b) (S + call_jobs x))"
proof -
  obtain st t where a: "account body b S (queues_of n M, st, t, i, 0) (in_hand n M) (the_pool M)"
    and l: "\<forall>w L. loops M w = Some L \<longrightarrow> w < n \<and> loop_ok (queues_of n M, st, t, i, 0) w L"
    using m by (auto simp: machine_ok_def)
  have "account body b (S + call_jobs x) (queues_of n M, st, t, i, 0) (in_hand n M + call_jobs x) (the_pool M)"
    using a by (auto simp: account_def ac_simps)
  then have "returns (exec_call J k x (the_pool M)) (account body (Suc b) (S + call_jobs x) (queues_of n M, st, t, i, 0) (in_hand n M))"
    by (rule account_call) (use v lim in simp_all)
  then show ?thesis
    using l by (auto elim!: returns_mono simp: machine_ok_def in_hand_def)
qed

lemma enter_ok:
  assumes m: "machine_ok body n i b S M" and v: "runner_pool r = i" "runner_id r < n"
  shows "returns (pool_do W J body (k, Enter r) M) (machine_ok body n i b S)"
proof -
  obtain st t where a: "account body b S (queues_of n M, st, t, i, 0) (in_hand n M) (the_pool M)"
    and l: "\<forall>w L. loops M w = Some L \<longrightarrow> w < n \<and> loop_ok (queues_of n M, st, t, i, 0) w L"
    using m by (auto simp: machine_ok_def)
  let ?w = "runner_id r" and ?P = "the_pool M"
  have id: "pool_id ?P = i" and tu: "pool_tuning ?P = t" and qs: "map loc_queue (locals ?P) = queues_of n M"
    using account_static [OF a] by (auto simp: static_def)
  have len: "length (locals ?P) = n" using arg_cong [OF qs, of length] by simp
  then have lq: "loc_queue (locals ?P ! ?w) = (if loops M ?w = None then Some ?w else None)"
    using arg_cong [OF qs, of "\<lambda>xs. xs ! ?w"] v(2) by (simp add: queues_of_def)
  have gl: "get_local ?w ?P = Inr (locals ?P ! ?w)" using v(2) len by (simp add: get_local_def)
  have a1: "account body b S ((queues_of n M)[?w := None], st, t, i, 0) (in_hand n M)
      (set_local ?w ((locals ?P ! ?w)\<lparr>loc_queue := None\<rparr>) ?P)"
    by (rule account_set_queue [OF a]) (simp add: v)
  show ?thesis
  proof (cases "loops M ?w")
    case (Some L)
    then have "(queues_of n M)[?w := None] = queues_of n M"
      using v(2) by (simp add: queues_of_def list_update_same_conv)
    with a1 Some l show ?thesis
      by (auto simp: run_start_def gl id v(1) take_queue_def lq machine_ok_def in_hand_def)
  next
    case None
    define L :: "'j run_state" where "L = \<lparr>queue = ?w, mine = [], until_promote = promote_every (pool_tuning ?P), spins = 0,
      rng = 0x2545F4914F6CDD1D XOR (word_of_nat ?w * 0x9E3779B97F4A7C15), lifo_run = (0 :: 32 word)\<rparr>"
    let ?M = "M\<lparr>the_pool := set_local ?w ((locals ?P ! ?w)\<lparr>loc_queue := None\<rparr>) ?P, loops := (loops M)(?w := Some L)\<rparr>"
    obtain m where hm: "in_hand n M = m + mine_of (loops M ?w)" using in_hand_split [OF v(2)] by blast
    have ih: "in_hand n ?M = in_hand n M" using in_hand_upd [OF v(2) hm] hm None by (simp add: mine_of_def L_def)
    have qq: "queues_of n ?M = (queues_of n M)[?w := None]" using queues_upd [OF v(2), of M] by simp
    have lL: "loop_ok (qs', st, t, i, 0) ?w L" for qs'
      using account_promote_every [OF a] tu by (simp add: loop_ok_def L_def)
    have "machine_ok body n i b S ?M"
      unfolding machine_ok_def ih qq
      using a1 l lL v(2) loop_ok_queues by (auto intro!: exI [of _ st] exI [of _ t]) blast+
    then show ?thesis
      by (simp add: run_start_def gl id v(1) take_queue_def lq None L_def [symmetric] Let_def)
  qed
qed

lemma iterate_ok:
  assumes m: "machine_ok body n i b S M" and ok: "body_ok B n body" and lim: "b + B + 3 \<le> limit"
  shows "returns (pool_do W J body (k, Iterate w) M) (machine_ok body n i (b + B + 3) S)"
proof (cases "loops M w")
  case None
  have "machine_ok body n i (b + B + 3) S M" using m unfolding machine_ok_def by (meson account_mono add.assoc le_add1)
  with None show ?thesis by simp
next
  case (Some L)
  obtain st t where a: "account body b S (queues_of n M, st, t, i, 0) (in_hand n M) (the_pool M)"
    and l: "\<forall>w L. loops M w = Some L \<longrightarrow> w < n \<and> loop_ok (queues_of n M, st, t, i, 0) w L"
    using m by (auto simp: machine_ok_def)
  let ?c = "(queues_of n M, st, t, i, 0 :: usize)"
  have w: "w < n" and lo: "loop_ok ?c w L" using l Some by auto
  obtain h where h: "in_hand n M = h + mine_of (loops M w)" using in_hand_split [OF w] by blast
  have s: "stepped body b S ?c h w (L, the_pool M)" using a lo h Some by (simp add: stepped_def mine_of_def)
  have loops: "loops M v = Some L' \<Longrightarrow> v < n \<and> loop_ok (qs, st, t, i, 0) v L'" for v L' qs
    using l loop_ok_queues by blast
  show ?thesis
    unfolding pool_do.simps Some option.case returns_simps
  proof (rule returns_mono [OF run_once_ok [OF s _ _ _ lim]], goal_cases)
    case (4 x)
    obtain out L' P' where x: "x = (out, L', P')" by (cases x) auto
    with 4 have a': "account body (b + B + 3) S ?c (h + mset (mine L')) P'" and lo': "loop_ok ?c w L'"
      and br: "out = Break \<Longrightarrow> mine L' = []"
      by (auto simp: iterated_def stepped_def)
    show ?case
    proof (cases "out = Break")
      case False
      let ?M = "M\<lparr>the_pool := P', loops := (loops M)(w := Some L')\<rparr>"
      have "in_hand n ?M = h + mset (mine L')" using in_hand_upd [OF w h, where P = P' and x = "Some L'"] by (simp add: mine_of_def)
      then have "machine_ok body n i (b + B + 3) S ?M"
        unfolding machine_ok_def queues_keep [OF w Some]
        using a' lo' loops w by (auto intro!: exI [of _ st] exI [of _ t])
      with False show ?thesis by (simp add: x)
    next
      case True
      let ?P = "set_local w ((locals P' ! w)\<lparr>loc_queue := Some w\<rparr>) P'"
      let ?M = "M\<lparr>the_pool := ?P, loops := (loops M)(w := None)\<rparr>"
      have qs: "map loc_queue (locals P') = queues_of n M" using account_static [OF a'] by (auto simp: static_def)
      have len: "length (locals P') = n" using arg_cong [OF qs, of length] by simp
      then have lq: "loc_queue (locals P' ! w) = None"
        using arg_cong [OF qs, of "\<lambda>xs. xs ! w"] w Some by (simp add: queues_of_def)
      have "run_exit J k w L' P' = Inr ?P"
        using br [OF True] lo' len w lq by (simp add: run_exit_def get_local_def put_queue_def loop_ok_def)
      moreover have "machine_ok body n i (b + B + 3) S ?M"
      proof -
        have "in_hand n ?M = h" using in_hand_upd [OF w h, where P = ?P and x = None] by (simp add: mine_of_def)
        moreover have "queues_of n ?M = (queues_of n M)[w := Some w]" using queues_upd [OF w, where M = M and P = ?P and x = None] by simp
        moreover have "account body (b + B + 3) S ((queues_of n M)[w := Some w], st, t, i, 0) h ?P"
          using account_set_queue [OF a', of w "Some w"] br [OF True] w by simp
        ultimately show ?thesis
          unfolding machine_ok_def using loops by (auto intro!: exI [of _ st] exI [of _ t])
      qed
      ultimately show ?thesis by (simp add: x True)
    qed
  qed (use ok w in \<open>simp_all add: with_searching_def\<close>)
qed

lemma schedule_ok:
  assumes "machine_ok body n i b S M" "body_ok B n body" "\<forall>(k, e) \<in> set es. event_valid n i e"
    "b + schedule_cost B es \<le> limit"
  shows "returns (pool_schedule W J body es M) (machine_ok body n i (b + schedule_cost B es) (S + schedule_jobs es))"
  using assms
proof (induction es arbitrary: b S M)
  case Nil
  then show ?case by (simp add: schedule_cost_def schedule_jobs_def)
next
  case (Cons x es)
  obtain k e where x: "x = (k, e)" by (cases x) auto
  have "returns (pool_do W J body (k, e) M) (machine_ok body n i (b + event_cost B e) (S + event_jobs e))"
  proof (cases e)
    case (Outside y)
    then show ?thesis using outside_ok [OF Cons.prems(1), of y k] Cons.prems by (simp add: x schedule_cost_def)
  next
    case (Enter r)
    then show ?thesis using enter_ok [OF Cons.prems(1), of r k] Cons.prems by (simp add: x)
  next
    case (Iterate w)
    then show ?thesis using iterate_ok [OF Cons.prems(1,2), of k w] Cons.prems by (simp add: x schedule_cost_def ac_simps)
  qed
  then show ?case
    unfolding x pool_schedule.simps returns_simps
  proof (rule returns_mono)
    fix M'
    assume "machine_ok body n i (b + event_cost B e) (S + event_jobs e) M'"
    from Cons.IH [OF this] Cons.prems(2-) show "returns (pool_schedule W J body es M')
        (machine_ok body n i (b + schedule_cost B ((k, e) # es)) (S + schedule_jobs ((k, e) # es)))"
      by (simp add: x schedule_cost_def schedule_jobs_def ac_simps)
  qed
qed

lemma new_ok:
  assumes "with_tuning W J i n cap t = Inr (P, i')"
  shows "machine_ok body n i 0 {#} \<lparr>the_pool = P, loops = \<lambda>_. None\<rparr>"
proof -
  have t: "0 < n" "n \<le> 64" "tuning_ok t" and q: "\<exists>q. wq_new W cap = Inr q \<and> P = \<lparr>pool_id = i,
      locals = map (\<lambda>a. \<lparr>loc_queue = Some a, loc_completed = 0, loc_inbox = mq_new J, loc_lifo = None\<rparr>) [0..<n],
      stealers = [0..<n], deques = (\<lambda>_. q), pool_injector = mq_new J, running = True, pool_tuning = t,
      sleeping = 0, searching = 0, unparks = [], parks = [], jobs_run = []\<rparr>"
    using assms by (auto simp: with_tuning_def monad_simps assert_that_def tuning_ok_def word_gt_0 split: if_splits)
  obtain q where q: "wq_new W cap = Inr q" and P: "P = \<lparr>pool_id = i,
      locals = map (\<lambda>a. \<lparr>loc_queue = Some a, loc_completed = 0, loc_inbox = mq_new J, loc_lifo = None\<rparr>) [0..<n],
      stealers = [0..<n], deques = (\<lambda>_. q), pool_injector = mq_new J, running = True, pool_tuning = t,
      sleeping = 0, searching = 0, unparks = [], parks = [], jobs_run = []\<rparr>" using q by blast
  have r: "rep q None (aq_new (next_power_of_two cap))"
    using new_law [of cap] q by (auto split: if_splits)
  let ?V = "\<lparr>v_deq = (\<lambda>_. aq_new (next_power_of_two cap)), v_inb = (\<lambda>_. []), v_slot = (\<lambda>_. None), v_inj = []\<rparr>"
  have "view_ok 0 P ?V" using r mq_new_law by (simp add: view_ok_def P workers_def)
  moreover have "static P = (map Some [0..<n], [0..<n], t, i, 0)" by (simp add: static_def P)
  moreover have "held n ?V = {#}" by (simp add: held_def aq_new_def)
  ultimately have "account body 0 {#} (map Some [0..<n], [0..<n], t, i, 0) {#} P"
    using t by (intro accountI [where V = ?V]) (simp_all add: static_ok_def P spawned_def)
  then show ?thesis by (auto simp: machine_ok_def queues_of_def in_hand_def mine_of_def)
qed

subsection \<open>Dropping the pool\<close>

lemma drop_locals_ok:
  assumes "\<forall>w < length ls. v_slot V w = loc_lifo (ls ! w) \<and> (\<exists>p. mrep (loc_inbox (ls ! w)) p (v_inb V w))"
  shows "\<exists>xs. drop_locals J ls = Inr xs \<and>
    mset xs = (\<Sum>w < length ls. mset (v_inb V w)) + (\<Sum>w < length ls. omset (v_slot V w))"
  using assms
proof (induction ls arbitrary: V)
  case (Cons l ls)
  let ?V = "V\<lparr>v_inb := \<lambda>w. v_inb V (Suc w), v_slot := \<lambda>w. v_slot V (Suc w)\<rparr>"
  obtain ys where ys: "drop_locals J ls = Inr ys"
    "mset ys = (\<Sum>w < length ls. mset (v_inb V (Suc w))) + (\<Sum>w < length ls. omset (v_slot V (Suc w)))"
    using Cons.IH [of ?V] Cons.prems by fastforce
  obtain p where p: "mrep (loc_inbox l) p (v_inb V 0)" "v_slot V 0 = loc_lifo l" using Cons.prems by fastforce
  obtain q where "mq_drop J (loc_inbox l) = Inr (v_inb V 0, q)" using mq_drop_law [OF p(1)] by blast
  with ys p(2) show ?case
    by (cases "loc_lifo l") (simp_all add: sum.lessThan_Suc_shift ac_simps del: sum.lessThan_Suc)
qed simp

lemma drop_deques_ok:
  assumes "list_all2 (\<lambda>q A. rep q None A) qs As"
  shows "\<exists>xs. drop_deques W qs = Inr xs \<and> mset xs = (\<Sum>A \<leftarrow> As. mset (aq_items A))"
  using assms
proof (induction rule: list_all2_induct)
  case (Cons q qs A As)
  have "aq_booked A = 0" using rep_wf [OF Cons.hyps(1)] idle_law [OF Cons.hyps(1)] by (simp add: aq_wf_def)
  with drop_law [OF Cons.hyps(1)] Cons.IH show ?case by auto
qed simp

lemma pool_drop_ok:
  assumes a: "account body b S c m P"
  shows "\<exists>xs. pool_drop W J P = Inr xs \<and> mset xs + mset (jobs_run P) + m = S + spawned body (jobs_run P)"
proof -
  obtain V where V: "view_ok b P V" and n: "workers P = size_of c"
    and h: "held (size_of c) V + mset (jobs_run P) + m = S + spawned body (jobs_run P)"
    using a by (rule accountE)
  have "\<forall>w < length (locals P). v_slot V w = loc_lifo (locals P ! w) \<and> (\<exists>p. mrep (loc_inbox (locals P ! w)) p (v_inb V w))"
    using V unfolding view_ok_def workers_def by blast
  then obtain xs where xs: "drop_locals J (locals P) = Inr xs"
    "mset xs = (\<Sum>w < size_of c. mset (v_inb V w)) + (\<Sum>w < size_of c. omset (v_slot V w))"
    using drop_locals_ok [of "locals P" V] n unfolding workers_def by auto
  have "list_all2 (\<lambda>q A. rep q None A) (map (deques P) (stealers P)) (map (v_deq V) [0..<size_of c])"
    using V static_okD(3) [OF a] by (auto simp: view_ok_def list_all2_conv_all_nth)
  then obtain ys where ys: "drop_deques W (map (deques P) (stealers P)) = Inr ys"
    "mset ys = (\<Sum>A \<leftarrow> map (v_deq V) [0..<size_of c]. mset (aq_items A))"
    using drop_deques_ok by blast
  have ys': "mset ys = (\<Sum>i < size_of c. mset (aq_items (v_deq V i)))"
    using ys(2) by (simp add: interv_sum_list_conv_sum_set_nat lessThan_atLeast0 o_def)
  obtain q where q: "mq_drop J (pool_injector P) = Inr (v_inj V, q)"
    using V unfolding view_ok_def by (meson mq_drop_law)
  have "mset (xs @ ys @ v_inj V) = held (size_of c) V" using xs(2) ys' by (simp add: held_def ac_simps)
  with h xs(1) ys(1) q show ?thesis by (auto simp: pool_drop_def)
qed

text \<open>The whole life of a pool.\<close>

theorem jobs_conserved:
  assumes "with_tuning W J i n cap t = Inr (P, i')" "body_ok B n body"
    "\<forall>(k, e) \<in> set es. event_valid n i e" "schedule_cost B es \<le> limit"
  shows "\<exists>M dropped. pool_schedule W J body es \<lparr>the_pool = P, loops = \<lambda>_. None\<rparr> = Inr M \<and>
    pool_drop W J (the_pool M) = Inr dropped \<and>
    mset dropped + mset (jobs_run (the_pool M)) + in_hand n M = schedule_jobs es + spawned body (jobs_run (the_pool M))"
proof -
  obtain M where M: "pool_schedule W J body es \<lparr>the_pool = P, loops = \<lambda>_. None\<rparr> = Inr M"
    and ok: "machine_ok body n i (schedule_cost B es) (schedule_jobs es) M"
    using schedule_ok [OF new_ok [OF assms(1)] assms(2,3)] assms(4) by (auto elim: returnsE)
  from ok obtain c where "account body (schedule_cost B es) (schedule_jobs es) c (in_hand n M) (the_pool M)"
    by (auto simp: machine_ok_def)
  with pool_drop_ok M show ?thesis by blast
qed

end

interpretation st3_pool: pool_queues lifo_ops lifo_rel inj_ops inj_rel inj_limit
  by unfold_locales

section \<open>Properties\<close>


definition example_body :: "nat \<Rightarrow> nat pool_call list" where
  "example_body j = (if j = 1 then [SubmitLocal 0 7] else [])"

definition example_schedule :: "(nat \<times> nat pool_event) list" where
  "example_schedule =
     [(0, Outside (SubmitJob None 1)), (1, Outside (SubmitLocal 1 2)), (0, Enter \<lparr>runner_pool = 5, runner_id = 0\<rparr>),
      (0, Iterate 0), (2, Iterate 0), (0, Iterate 0), (0, Outside ShutDown)]"


end
