(* ===== verification/Pool_Sleepers.thy ===== *)
theory Pool_Sleepers
  imports Pool_Jobs
begin

text \<open>
  What the pool does with its idle workers and its work, to the last detail: whom the calls
  that wake workers wake, in which order and in whose stead; what a worker takes from the
  injector; what it shares with the others (\<^verbatim>\<open>claim_sleeper\<close>, \<^verbatim>\<open>wake\<close>, \<^verbatim>\<open>nudge_many\<close>,
  \<^verbatim>\<open>take_from_injector\<close> and \<^verbatim>\<open>share\<close> of \<^verbatim>\<open>src/src/fanout/mod.rs\<close>).
\<close>

section \<open>The bitmap as a list\<close>

definition sleepers :: "usize \<Rightarrow> nat list" where
  "sleepers s = filter (bit s) [0..<64]"

definition rouse :: "nat list \<Rightarrow> ('q, 'i, 'j) pool \<Rightarrow> ('q, 'i, 'j) pool" where
  "rouse ws P = P\<lparr>sleeping := fold unset_bit ws (sleeping P), unparks := unparks P @ ws\<rparr>"

lemma rouse_simps [simp]: "rouse [] P = P" "rouse ws (rouse vs P) = rouse (vs @ ws) P"
  by (simp_all add: rouse_def)

lemma set_sleepers [simp]: "w \<in> set (sleepers s) \<longleftrightarrow> bit s w"
  using bit_imp_le_length [of s w] by (auto simp: sleepers_def)

lemma distinct_sleepers [simp]: "distinct (sleepers s)"
  by (simp add: sleepers_def)

lemma sleepers_and_not: "sleepers (s AND NOT x) = filter (\<lambda>w. \<not> bit x w) (sleepers s)"
  by (auto simp: sleepers_def bit_and_iff bit_not_iff intro: filter_cong)

lemma sleepers_unset: "sleepers (unset_bit w s) = filter (\<lambda>v. v \<noteq> w) (sleepers s)"
  by (auto simp: sleepers_def bit_unset_bit_iff intro: filter_cong)

lemma bit_fold_unset: "bit (fold unset_bit ws s) v \<longleftrightarrow> bit s v \<and> v \<notin> set ws" for s :: "'a::len word"
  by (induction ws arbitrary: s) (auto simp: bit_unset_bit_iff)

lemma clear_worker_bit: "s AND NOT (2 ^ w) = unset_bit w s" for s :: usize
  by (rule bit_eqI) (auto simp: bit_and_iff bit_not_iff bit_unset_bit_iff bit_exp_iff)

lemma sleepers_0 [simp]: "sleepers 0 = []"
  by (simp add: sleepers_def)

lemma sleepers_hd:
  assumes "s \<noteq> 0"
  shows "\<exists>ws. sleepers s = trailing_zeros s # ws"
proof -
  note t = trailing_zeros_props [OF assms]
  have "[0..<64] = [0..<trailing_zeros s] @ trailing_zeros s # [Suc (trailing_zeros s)..<64]"
    using t(1) by (metis less_imp_le_nat upt_add_eq_append upt_conv_Cons le_add_diff_inverse le0)
  moreover have "filter (bit s) [0..<trailing_zeros s] = []" using t(3) by (simp add: filter_empty_conv)
  ultimately show ?thesis using t(2) by (simp add: sleepers_def)
qed

lemma sleepers_eq_Nil: "sleepers s = [] \<longleftrightarrow> s = 0"
  using sleepers_hd by force

section \<open>Whom a wake wakes\<close>

lemma claim_sleeper_eq:
  "claim_sleeper x P = Inr (case sleepers (sleeping P AND NOT x) of
     [] \<Rightarrow> (None, P) | w # _ \<Rightarrow> (Some w, P\<lparr>sleeping := unset_bit w (sleeping P)\<rparr>))"
proof (cases "sleeping P AND NOT x = 0")
  case False
  note t = trailing_zeros_props [OF False]
  then have "sleeping P AND push_bit (trailing_zeros (sleeping P AND NOT x)) 1 \<noteq> 0"
    unfolding bit_iff_and_push_bit_not_eq_0 [symmetric] by (simp add: bit_and_iff)
  then show ?thesis
    using False t(1) sleepers_hd [OF False] by (auto simp: claim_sleeper_def worker_bit_def Let_def clear_worker_bit)
qed (simp add: claim_sleeper_def)

lemma nudge_loop_eq: "nudge_loop x k P = Inr (rouse (take k (sleepers (sleeping P AND NOT x))) P)"
proof (induction k arbitrary: P)
  case (Suc k)
  show ?case
  proof (cases "sleepers (sleeping P AND NOT x)")
    case (Cons w ws)
    let ?P = "unpark w (P\<lparr>sleeping := unset_bit w (sleeping P)\<rparr>)"
    have "sleepers (unset_bit w (sleeping P) AND NOT x) = filter (\<lambda>v. v \<noteq> w) (sleepers (sleeping P AND NOT x))"
      by (simp add: sleepers_and_not sleepers_unset conj_commute)
    also have "\<dots> = ws" using Cons distinct_sleepers [of "sleeping P AND NOT x"] by (auto simp: filter_id_conv)
    finally have "sleepers (sleeping ?P AND NOT x) = ws" by (simp add: unpark_def)
    then show ?thesis using Suc.IH [of ?P] by (simp add: claim_sleeper_eq Cons) (simp add: rouse_def unpark_def)
  qed (simp add: claim_sleeper_eq)
qed simp

definition others :: "nat option \<Rightarrow> nat list \<Rightarrow> nat list" where
  "others except ws = filter (\<lambda>w. except \<noteq> Some w) ws"

lemma nudge_many_eq:
  assumes "pred_option (\<lambda>w. w < 64) except"
  shows "nudge_many except k P = Inr (rouse (take k (others except (sleepers (sleeping P)))) P)"
proof (cases except)
  case None
  then show ?thesis by (simp add: nudge_many_def nudge_loop_eq others_def)
next
  case (Some w)
  have "\<not> bit (push_bit w 1 :: usize) v \<longleftrightarrow> Some w \<noteq> Some v" if "v \<in> set (sleepers s)" for v s
    using that bit_imp_le_length [of s v] by (auto simp: bit_exp_iff)
  then have "sleepers (sleeping P AND NOT (push_bit w 1)) = others except (sleepers (sleeping P))"
    unfolding sleepers_and_not others_def Some by (auto intro: filter_cong)
  then show ?thesis using assms Some by (simp add: nudge_many_def nudge_loop_eq worker_bit_def)
qed

section \<open>What a worker takes and shares\<close>

lemma pop_injector_law:
  assumes "mpmc_queue J mrep limit" "mrep (pool_injector P) p xs"
  shows "\<exists>q. pop_injector J k P = Inr (head_option xs, P\<lparr>pool_injector := q\<rparr>) \<and> mrep q p (tl xs)"
proof -
  obtain q where "mq_pop J k (pool_injector P) = Inr (head_option xs, q)" "mrep q p (tl xs)"
    using mpmc_queue.mq_pop_law [OF assms] by blast
  then show ?thesis by (auto simp: pop_injector_def)
qed

context pool_queues
begin

lemma take_loop_eq:
  assumes "mrep (pool_injector P) p xs"
  shows "\<exists>q. take_loop b J k js P = Inr (min b (length xs), js @ take b xs, P\<lparr>pool_injector := q\<rparr>) \<and> mrep q p (drop b xs)"
  using assms
proof (induction b arbitrary: js xs P)
  case 0
  then show ?case by (auto intro: exI [of _ "pool_injector P"])
next
  case (Suc b)
  obtain q where q: "pop_injector J k P = Inr (head_option xs, P\<lparr>pool_injector := q\<rparr>)" "mrep q p (tl xs)"
    using pop_injector_law [OF mpmc_queue_axioms Suc.prems] by blast
  show ?case
  proof (cases xs)
    case Nil
    then show ?thesis using q by auto
  next
    case (Cons x ys)
    then have "mrep (pool_injector (P\<lparr>pool_injector := q\<rparr>)) p ys" using q by simp
    from Suc.IH [OF this, of "js @ [x]"] show ?thesis using q(1) Cons by auto
  qed
qed

lemma take_from_injector_eq:
  assumes "mrep (pool_injector P) p xs" "length xs < 2 ^ 64"
  shows "let b = unat (injector_batch (pool_tuning P)); ws = take (min (length xs - b) (workers P)) (sleepers (sleeping P)) in
    \<exists>q. take_from_injector J k js P = Inr (min b (length xs), js @ take b xs, rouse ws (P\<lparr>pool_injector := q\<rparr>)) \<and>
      mrep q p (drop b xs)"
proof -
  define b where "b = unat (injector_batch (pool_tuning P))"
  obtain q where q: "take_loop b J k js P = Inr (min b (length xs), js @ take b xs, P\<lparr>pool_injector := q\<rparr>)" "mrep q p (drop b xs)"
    using take_loop_eq [OF assms(1)] by blast
  let ?n = "word_of_nat (length xs - b) :: usize"
  have n: "unat ?n = length xs - b" using assms(2) by (simp add: unat_of_nat)
  have pos: "0 < ?n \<longleftrightarrow> 0 < length xs - b" using n by (metis unat_gt_0 word_neq_0_conv)
  have "workers (P\<lparr>pool_injector := q\<rparr>) = workers P" by (simp add: workers_def)
  then show ?thesis
    using q n pos mq_len_law [OF q(2)] b_def
    by (auto simp: Let_def take_from_injector_def nudge_many_eq others_def)
qed

lemma same_deques: "rep (deques P q) d A \<Longrightarrow> \<exists>q'. P = P\<lparr>deques := (deques P)(q := q')\<rparr> \<and> rep q' d A"
  by (rule exI [of _ "deques P q"]) simp

lemma share_loop_eq:
  assumes "rep (deques P q) d A" "n \<le> length js"
  shows "\<exists>q'. share_loop n W q js P =
      Inr (min n (aq_room A), drop (min n (aq_room A)) js, P\<lparr>deques := (deques P)(q := q')\<rparr>) \<and>
    rep q' d (A\<lparr>aq_items := aq_items A @ take (min n (aq_room A)) js\<rparr>)"
  using assms
proof (induction n arbitrary: js A P)
  case 0
  then show ?case using same_deques by (simp del: fun_upd_apply)
next
  case (Suc n)
  then obtain x rest where m: "js = x # rest" by (cases js) auto
  obtain r q1 where q1: "wq_push W (deques P q) x = Inr (r, q1)" "r = fst (aq_push A x)" "rep q1 d (snd (aq_push A x))"
    using push_law [OF Suc.prems(1), of x] by (auto dest: res_rel_InrD)
  show ?case
  proof (cases "aq_room A")
    case 0
    then show ?thesis using q1 m by (intro exI [of _ q1]) (auto simp: aq_push_def Let_def simp del: fun_upd_apply)
  next
    case (Suc t)
    let ?A = "A\<lparr>aq_items := aq_items A @ [x]\<rparr>" and ?P = "P\<lparr>deques := (deques P)(q := q1)\<rparr>"
    have "rep (deques ?P q) d ?A" "n \<le> length rest" using q1 Suc m Suc.prems(2) by (simp_all add: aq_push_def)
    from Suc.IH [OF this] obtain q' where q':
      "share_loop n W q rest ?P = Inr (min n (aq_room ?A), drop (min n (aq_room ?A)) rest, ?P\<lparr>deques := (deques ?P)(q := q')\<rparr>)"
      "rep q' d (?A\<lparr>aq_items := aq_items ?A @ take (min n (aq_room ?A)) rest\<rparr>)" by blast
    have "aq_room ?A = t" using Suc by (simp add: aq_room_def)
    then show ?thesis using q' q1 m Suc by (intro exI [of _ q']) (auto simp: aq_push_def Let_def simp del: fun_upd_apply)
  qed
qed

lemma share_eq:
  assumes "rep (deques P q) d A" "w < 64"
  shows "let t = min (length js div 2) (aq_room A); ws = take t (others (Some w) (sleepers (sleeping P))) in
    \<exists>q'. share W q w js P = Inr (drop t js, rouse ws (P\<lparr>deques := (deques P)(q := q')\<rparr>)) \<and>
      rep q' d (A\<lparr>aq_items := aq_items A @ take t js\<rparr>)"
proof (cases "length js < 2")
  case True
  then have "min (length js div 2) (aq_room A) = 0" by simp
  then show ?thesis using assms True same_deques by (simp add: share_def Let_def del: fun_upd_apply)
next
  case False
  obtain q' where "share_loop (length js div 2) W q js P =
      Inr (min (length js div 2) (aq_room A), drop (min (length js div 2) (aq_room A)) js, P\<lparr>deques := (deques P)(q := q')\<rparr>)"
    "rep q' d (A\<lparr>aq_items := aq_items A @ take (min (length js div 2) (aq_room A)) js\<rparr>)"
    using share_loop_eq [OF assms(1), of "length js div 2" js] by auto
  then show ?thesis using False assms(2) by (auto simp: share_def Let_def nudge_many_eq)
qed

end

section \<open>Properties\<close>

definition idle_pool :: "(nat lifo_queue, nat injector, nat) pool" where
  "idle_pool =
     \<lparr>pool_id = 0, locals = replicate 4 \<lparr>loc_queue = None, loc_completed = 0, loc_inbox = mq_new inj_ops, loc_lifo = None\<rparr>,
      stealers = [0..<4], deques = (\<lambda>_. \<lparr>push_count = 0, pop_count_and_head = 0, lifo_head = 0, lifo_buffer = [None, None], lifo_mask = 1\<rparr>),
      pool_injector = mq_new inj_ops, running = True, pool_tuning = almost_tokio, sleeping = 13, searching = 0,
      unparks = [], parks = [], jobs_run = []\<rparr>"

lemma idle_pool_sleepers: "sleepers (sleeping idle_pool) = [0, 2, 3]"
  by (simp add: idle_pool_def) code_simp

lemma idle_pool_batch: "unat (injector_batch (pool_tuning idle_pool)) = 1" "workers idle_pool = 4"
  by (simp_all add: idle_pool_def workers_def tuning_presets tuning_withs INJECTOR_BATCH_def)

text \<open>
  C35. Whom a wake wakes. \<^verbatim>\<open>wake\<close> always returns; it unparks the sleeping worker with the
  lowest number and clears its bit, whatever the hint, and falls back on the hinted worker,
  without touching the bitmap, only when nobody sleeps; without a hint it then does nothing.
\<close>

theorem wake_picks_lowest:
  "wake hint P = Inr (case sleepers (sleeping P) of
     [] \<Rightarrow> (case hint of None \<Rightarrow> P | Some w \<Rightarrow> unpark w P) | w # _ \<Rightarrow> rouse [w] P)"
  by (cases "sleepers (sleeping P)") (simp_all add: wake_def claim_sleeper_eq rouse_def unpark_def split: option.splits)

text \<open>
  C18. Whom a nudge wakes. \<^verbatim>\<open>nudge_many\<close> unparks as many sleeping workers as were asked for, or
  all there are, each once, in the order of their numbers, never the worker it is to spare,
  and clears exactly their bits.
\<close>

theorem nudge_wakes_sleepers:
  assumes "pred_option (\<lambda>w. w < 64) except"
  shows "\<exists>ws s. nudge_many except k P = Inr (P\<lparr>sleeping := s, unparks := unparks P @ ws\<rparr>) \<and>
    ws = take k (filter (\<lambda>w. except \<noteq> Some w) (sleepers (sleeping P))) \<and> (\<forall>w. bit s w = (bit (sleeping P) w \<and> w \<notin> set ws))"
  using nudge_many_eq [OF assms, of k P] by (auto simp: rouse_def others_def bit_fold_unset)

theorem nudge_wakes_sleepers_witness:
  "\<exists>s. nudge_many (Some 2) 2 idle_pool = Inr (idle_pool\<lparr>sleeping := s, unparks := [0, 3]\<rparr>) \<and> bit s 2 \<and> \<not> bit s 3"
proof -
  have "unparks idle_pool = []" "bit (sleeping idle_pool) 2" by (simp_all add: idle_pool_def)
  then show ?thesis using nudge_wakes_sleepers [of "Some 2" 2 idle_pool] by (auto simp: idle_pool_sleepers)
qed

text \<open>
  C21. What a worker takes from the injector. It takes the jobs that were injected first, in
  their order, as many as a batch has, puts them behind its own, and wakes a sleeper for every
  job it leaves, as long as there are sleepers and no more than there are workers.
\<close>

theorem take_from_injector_order:
  assumes "inj_rel (pool_injector P) p xs" "length xs < 2 ^ 64"
  shows "let b = unat (injector_batch (pool_tuning P)); ws = take (min (length xs - b) (workers P)) (sleepers (sleeping P)) in
    \<exists>q. take_from_injector inj_ops k js P = Inr (min b (length xs), js @ take b xs, rouse ws (P\<lparr>pool_injector := q\<rparr>)) \<and>
      inj_rel q p (drop b xs)"
  by (rule st3_pool.take_from_injector_eq [OF assms])

theorem take_from_injector_order_witness:
  "\<exists>q q'. take_from_injector inj_ops 0 [7] (idle_pool\<lparr>pool_injector := q\<rparr>) =
     Inr (1, [7, 4], rouse [0, 2] (idle_pool\<lparr>pool_injector := q'\<rparr>)) \<and> inj_rel q' 3 [5, 6]"
proof -
  have "(0 :: nat) < inj_limit" "(1 :: nat) < inj_limit" "(2 :: nat) < inj_limit" by (simp_all add: inj_limit_def)
  then obtain q :: "nat injector" where q: "inj_rel q 3 [4, 5, 6]"
    using inj_mq.mq_push_law [OF inj_mq.mq_new_law] inj_mq.mq_push_law [of _ "Suc 0" "[4]" 5] inj_mq.mq_push_law [of _ "2" "[4, 5]" 6]
    by (metis (no_types) One_nat_def append_Cons append_Nil numeral_2_eq_2 numeral_3_eq_3)
  let ?P = "idle_pool\<lparr>pool_injector := q\<rparr>"
  have "sleeping ?P = sleeping idle_pool" "pool_tuning ?P = pool_tuning idle_pool" "workers ?P = workers idle_pool"
    by (simp_all add: workers_def)
  with take_from_injector_order [of ?P 3 "[4, 5, 6]" 0 "[7]"] q show ?thesis
    by (auto simp: idle_pool_sleepers idle_pool_batch Let_def)
qed

text \<open>
  C22. What a worker shares. Of the jobs of its own it keeps the newer half, rounded up; of
  the older ones it pushes to its deque, oldest first, what there is room for, keeps the rest,
  and wakes as many sleeping workers other than itself as it has pushed jobs.
\<close>

theorem share_gives_oldest:
  assumes "lifo_rel (deques P q) d A" "w < 64"
  shows "let t = min (length js div 2) (aq_room A); ws = take t (others (Some w) (sleepers (sleeping P))) in
    \<exists>q'. share lifo_ops q w js P = Inr (drop t js, rouse ws (P\<lparr>deques := (deques P)(q := q')\<rparr>)) \<and>
      lifo_rel q' d (A\<lparr>aq_items := aq_items A @ take t js\<rparr>)"
  by (rule st3_pool.share_eq [OF assms])

theorem share_gives_oldest_witness:
  "\<exists>q q'. share lifo_ops 1 2 [4, 5, 6, 7, 8] (idle_pool\<lparr>deques := \<lambda>_. q\<rparr>) =
     Inr ([6, 7, 8], rouse [0, 3] (idle_pool\<lparr>deques := (\<lambda>_. q)(1 := q')\<rparr>)) \<and>
     lifo_rel q' None \<lparr>aq_cap = 2, aq_booked = 0, aq_inflight = [], aq_items = [4, 5]\<rparr>"
proof -
  obtain q :: "nat lifo_queue" where q: "lifo_rel q None (aq_new 2)"
    using lifo_wq.new_law [of 2] next_power_of_two_2 by (auto simp: MAX_CAPACITY_def dest!: res_rel_InrD)
  let ?P = "idle_pool\<lparr>deques := \<lambda>_. q\<rparr>"
  have "sleeping ?P = sleeping idle_pool" by simp
  with share_gives_oldest [of ?P 1 None "aq_new 2" 2 "[4, 5, 6, 7, 8]"] q show ?thesis
    by (auto simp: idle_pool_sleepers Let_def others_def aq_new_def aq_room_def)
qed

end
