(* ===== verification/Pool_Ownership.thy ===== *)
theory Pool_Ownership
  imports Pool_Jobs
begin

text \<open>
  Who may work as whom: construction, \<^verbatim>\<open>runner\<close> and the entry into \<^verbatim>\<open>run\<close>
  (\<^verbatim>\<open>src/src/fanout/mod.rs\<close>). The deque of a worker is a token: it lies in the worker's slot
  until a thread takes it and comes back when the thread leaves.
\<close>

lemma schedule_reaches:
  assumes "with_tuning lifo_ops inj_ops i n cap t = Inr (P, i')" "body_ok B n body" "\<forall>(k, e) \<in> set es. event_valid n i e"
    "pool_schedule lifo_ops inj_ops body es \<lparr>the_pool = P, loops = \<lambda>_. None\<rparr> = Inr M" "schedule_cost B es \<le> inj_limit"
  shows "st3_pool.machine_ok body n i (schedule_cost B es) (schedule_jobs es) M"
  using st3_pool.schedule_ok [OF st3_pool.new_ok [OF assms(1)] assms(2,3)] assms(4,5) by simp

section \<open>Properties\<close>

text \<open>
  C36. When construction fails. A pool is made exactly for 1 to 64 workers, a capacity the
  deques can have, and a tuning with no zero among its limits; otherwise an assertion fails,
  and nothing else can go wrong.
\<close>

theorem pool_construction_errors:
  fixes i :: usize
  shows "case with_tuning lifo_ops inj_ops i n cap t :: (('j lifo_queue, 'j injector, 'j) pool \<times> usize) res of
     Inr (P, i') \<Rightarrow> 0 < n \<and> n \<le> 64 \<and> cap \<le> 2147483648 \<and> tuning_ok t \<and> workers P = n \<and> pool_id P = i \<and> i' = i + 1
   | Inl e \<Rightarrow> e = AssertFailed \<and> (n = 0 \<or> 64 < n \<or> 2147483648 < cap \<or> \<not> tuning_ok t)"
proof (cases "lifo_new cap :: 'j lifo_queue res")
  case (Inl e)
  then have "e = AssertFailed" "2147483648 < cap"
    using lifo_wq.new_law [of cap, where 'a = 'j] by (auto simp: MAX_CAPACITY_def split: if_splits)
  with Inl show ?thesis by (auto simp: with_tuning_def assert_that_def)
next
  case (Inr q)
  then have "cap \<le> 2147483648" using lifo_wq.new_law [of cap, where 'a = 'j] by (auto simp: MAX_CAPACITY_def split: if_splits)
  with Inr show ?thesis by (auto simp: with_tuning_def assert_that_def word_gt_0 tuning_ok_def workers_def)
qed

theorem pool_construction_errors_witness:
  "with_tuning lifo_ops inj_ops 7 65 8 tuning_default = (Inl AssertFailed :: ((nat lifo_queue, nat injector, nat) pool \<times> usize) res)"
  using pool_construction_errors [where i = 7 and n = 65 and cap = 8 and t = tuning_default and 'j = nat] by (auto split: sum.splits)

text \<open>
  C19. One thread per worker. After any schedule the deque of a worker lies in its slot
  exactly when no thread is in its run loop, and it is the deque it was made with. A second
  thread that enters \<^verbatim>\<open>run\<close> for a worker that is taken leaves at once and changes nothing; a
  runner of another pool is refused.
\<close>

theorem one_thread_per_worker:
  assumes "with_tuning lifo_ops inj_ops i n cap t = Inr (P, i')" "body_ok B n body" "\<forall>(k, e) \<in> set es. event_valid n i e"
    "pool_schedule lifo_ops inj_ops body es \<lparr>the_pool = P, loops = \<lambda>_. None\<rparr> = Inr M" "schedule_cost B es \<le> inj_limit" "w < n"
  shows "loc_queue (locals (the_pool M) ! w) = (if loops M w = None then Some w else None) \<and>
    (loops M w \<noteq> None \<longrightarrow> pool_do lifo_ops inj_ops body (k, Enter \<lparr>runner_pool = i, runner_id = w\<rparr>) M = Inr M) \<and>
    (j \<noteq> i \<longrightarrow> pool_do lifo_ops inj_ops body (k, Enter \<lparr>runner_pool = j, runner_id = w\<rparr>) M = Inl AssertFailed)"
proof -
  let ?P = "the_pool M"
  obtain b st t where "static ?P = (st3_pool.queues_of n M, st, t, i, b)"
    using schedule_reaches [OF assms(1-5)] by (auto simp: st3_pool.machine_ok_def st3_pool.account_def)
  then have qs: "map loc_queue (locals ?P) = st3_pool.queues_of n M" and id: "pool_id ?P = i" by (simp_all add: static_def)
  have len: "length (locals ?P) = n" using arg_cong [OF qs, of length] by simp
  have lq: "loc_queue (locals ?P ! w) = (if loops M w = None then Some w else None)"
    using arg_cong [OF qs, of "\<lambda>xs. xs ! w"] len assms(6) by (simp add: st3_pool.queues_of_def)
  have same: "M\<lparr>the_pool := ?P\<lparr>locals := (locals ?P)[w := (locals ?P ! w)\<lparr>loc_queue := None\<rparr>]\<rparr>\<rparr> = M" if "loops M w \<noteq> None"
  proof -
    have "(locals ?P ! w)\<lparr>loc_queue := None\<rparr> = locals ?P ! w" using lq that by simp
    then show ?thesis by (simp only: list_update_id) simp
  qed
  show ?thesis
    using lq len assms(6) same by (auto simp: run_start_def id get_local_def take_queue_def set_local_def)
qed

theorem one_thread_per_worker_witness:
  "\<exists>P M. with_tuning lifo_ops (inj_ops :: (nat injector, nat) mpmc_ops) 5 2 4 tuning_default = Inr (P, 6) \<and>
    pool_schedule lifo_ops inj_ops (\<lambda>_. []) [(0, Enter \<lparr>runner_pool = 5, runner_id = 0\<rparr>)] \<lparr>the_pool = P, loops = \<lambda>_. None\<rparr> = Inr M \<and>
    loc_queue (locals (the_pool M) ! 0) = None \<and> loc_queue (locals (the_pool M) ! 1) = Some 1 \<and>
    pool_do lifo_ops inj_ops (\<lambda>_. []) (0, Enter \<lparr>runner_pool = 4, runner_id = 1\<rparr>) M = Inl AssertFailed"
proof -
  obtain q :: "nat lifo_queue" where q: "lifo_new 4 = Inr q" using lifo_wq.new_law [of 4] by (auto simp: MAX_CAPACITY_def dest!: res_rel_InrD)
  obtain P where P: "with_tuning lifo_ops (inj_ops :: (nat injector, nat) mpmc_ops) 5 2 4 tuning_default = Inr (P, 6)"
    and p: "pool_id P = 5" "map loc_queue (locals P) = map Some [0..<2]"
    using presets_ok(2) by (auto simp: with_tuning_def q tuning_ok_def word_gt_0 comp_def)
  have l: "get_local 0 P = Inr (locals P ! 0)" "loc_queue (locals P ! 0) = Some 0"
    using p(2) by (cases "locals P"; auto simp: get_local_def upt_rec)+
  obtain M where M: "pool_schedule lifo_ops inj_ops (\<lambda>_. []) [(0, Enter \<lparr>runner_pool = 5, runner_id = 0\<rparr>)]
      \<lparr>the_pool = P, loops = \<lambda>_. None\<rparr> = Inr M" "loops M 0 \<noteq> None" "loops M 1 = None"
    by (simp add: run_start_def p(1) l take_queue_def)
  have b: "body_ok 0 2 (\<lambda>_ :: nat. [])" by (simp add: body_ok_def)
  note one = one_thread_per_worker [OF P b _ M(1), where k = 0]
  have "loc_queue (locals (the_pool M) ! 0) = None" using one [of 0 0] M by (simp add: schedule_cost_def)
  moreover have "loc_queue (locals (the_pool M) ! 1) = Some 1"
    "pool_do lifo_ops inj_ops (\<lambda>_. []) (0, Enter \<lparr>runner_pool = 4, runner_id = 1\<rparr>) M = Inl AssertFailed"
    using one [of 1 4] M by (simp_all add: schedule_cost_def)
  ultimately show ?thesis using P M(1) by blast
qed

end
