(* ===== verification/Pool_Rundown.thy ===== *)
theory Pool_Rundown
  imports Pool_Sleepers Pool_Ownership
begin

text \<open>
  The end of a pool: the run loop of \<^verbatim>\<open>src/src/fanout/mod.rs\<close> after \<^verbatim>\<open>shut_down\<close>. A worker goes on
  while there is work within its reach and then leaves the loop. Two things are shown: it does
  leave, after a number of iterations that the work in the pool bounds, and it leaves nothing
  behind in its own slot, inbox and deque or in the injector.
\<close>

section \<open>Partial correctness\<close>

text \<open>What holds of a result if there is one; \<open>returns\<close> says that there is one.\<close>

definition ends :: "'a res \<Rightarrow> ('a \<Rightarrow> bool) \<Rightarrow> bool" where
  "ends m Q \<longleftrightarrow> (\<forall>x. m = Inr x \<longrightarrow> Q x)"

lemma ends_simps [simp]:
  "ends (Inr x) Q = Q x"
  "ends (Inl e) Q"
  "ends (rbind m f) Q = ends m (\<lambda>x. ends (f x) Q)"
  by (cases m; simp add: ends_def)+

lemma ends_mono: "ends m Q \<Longrightarrow> (\<And>x. Q x \<Longrightarrow> R x) \<Longrightarrow> ends m R"
  by (auto simp: ends_def)

lemma ends_conj: "ends m Q \<Longrightarrow> ends m R \<Longrightarrow> ends m (\<lambda>x. Q x \<and> R x)"
  by (auto simp: ends_def)

lemma ends_returns: "returns m Q \<Longrightarrow> ends m Q"
  by (auto simp: ends_def returns_def)

lemma returns_ends: "returns m Q \<Longrightarrow> ends m R \<Longrightarrow> returns m (\<lambda>x. Q x \<and> R x)"
  by (auto simp: ends_def returns_def)

lemma ends_all: "(\<And>x. Q x) \<Longrightarrow> ends m Q"
  by (simp add: ends_def)

lemma ends_True [simp]: "ends m (\<lambda>x. True)"
  by (simp add: ends_def)

lemma ends_worker_bit: "ends (worker_bit w) (\<lambda>b. w < 64)"
  by (simp add: worker_bit_def)

lemma ends_get_local: "ends (get_local w P) (\<lambda>l. l = locals P ! w \<and> w < length (locals P))"
  by (simp add: get_local_def)

section \<open>What a step leaves alone\<close>

text \<open>No job is run and the pool is not started again; no slot is filled; no deque changes.\<close>

definition unrun :: "('q, 'i, 'j) pool \<Rightarrow> ('q, 'i, 'j) pool \<Rightarrow> bool" where
  "unrun P P' \<longleftrightarrow> jobs_run P' = jobs_run P \<and> (running P' \<longrightarrow> running P)"

definition calm :: "('q, 'i, 'j) pool \<Rightarrow> ('q, 'i, 'j) pool \<Rightarrow> bool" where
  "calm P P' \<longleftrightarrow> unrun P P' \<and> (\<forall>v. loc_lifo (locals P ! v) = None \<longrightarrow> loc_lifo (locals P' ! v) = None)"

definition still :: "('q, 'i, 'j) pool \<Rightarrow> ('q, 'i, 'j) pool \<Rightarrow> bool" where
  "still P P' \<longleftrightarrow> calm P P' \<and> deques P' = deques P"

definition ran :: "('q, 'i, 'j) pool \<Rightarrow> ('q, 'i, 'j) pool \<Rightarrow> bool" where
  "ran P P' \<longleftrightarrow> (\<exists>j. jobs_run P' = jobs_run P @ [j]) \<and> (running P' \<longrightarrow> running P)"

lemma keeps_refl [simp]: "unrun P P" "calm P P" "still P P"
  by (simp_all add: unrun_def calm_def still_def)

lemma unrun_trans: "unrun P P' \<Longrightarrow> unrun P' P'' \<Longrightarrow> unrun P P''"
  by (auto simp: unrun_def)

lemma calm_trans: "calm P P' \<Longrightarrow> calm P' P'' \<Longrightarrow> calm P P''"
  by (auto simp: calm_def unrun_def)

lemma still_trans: "still P P' \<Longrightarrow> still P' P'' \<Longrightarrow> still P P''"
  by (auto simp: still_def intro: calm_trans)

lemma ran_trans: "unrun P P' \<Longrightarrow> ran P' P'' \<Longrightarrow> ran P P''" "ran P P' \<Longrightarrow> unrun P' P'' \<Longrightarrow> ran P P''"
  by (auto simp: ran_def unrun_def)

lemma calm_unrun: "calm P P' \<Longrightarrow> unrun P P'"
  by (simp add: calm_def)

lemma still_calm: "still P P' \<Longrightarrow> calm P P'"
  by (simp add: still_def)

lemma ran_still: "still P P' \<Longrightarrow> ran P' P'' \<Longrightarrow> ran P P''"
  by (blast intro: ran_trans(1) calm_unrun still_calm)

lemma awoken_still: "awoken P P' \<Longrightarrow> still P P'"
  by (auto simp: still_def calm_def unrun_def awokenD)

lemma still_update [simp]:
  "still P (P'\<lparr>pool_injector := q\<rparr>) = still P P'" "still P (P'\<lparr>sleeping := s\<rparr>) = still P P'"
  "still P (P'\<lparr>searching := s\<rparr>) = still P P'"
  "calm P (P'\<lparr>sleeping := s\<rparr>) = calm P P'" "calm P (P'\<lparr>searching := s\<rparr>) = calm P P'" "calm P (P'\<lparr>deques := Q\<rparr>) = calm P P'"
  "still (P\<lparr>searching := s\<rparr>) P' = still P P'" "calm (P\<lparr>searching := s\<rparr>) P' = calm P P'"
  by (simp_all add: still_def calm_def unrun_def)

lemma still_set_local:
  "still P P' \<Longrightarrow> (loc_lifo (locals P' ! w) = None \<Longrightarrow> loc_lifo l = None) \<Longrightarrow> still P (set_local w l P')"
  unfolding still_def calm_def unrun_def set_local_def
  by (cases "w < length (locals P')") (auto simp: nth_list_update list_update_beyond)

section \<open>The pool's methods\<close>

lemma wake_ends [simp]: "ends (wake hint P) (awoken P)"
  by (rule ends_returns [OF wake_returns])

lemma wake_specific_ends [simp]: "ends (wake_specific w P) (awoken P)"
  using ends_returns [OF wake_specific_returns, of w P] by (cases "w < 64") (auto simp: wake_specific_def worker_bit_def)

lemma nudge_many_ends [simp]: "ends (nudge_many except n P) (awoken P)"
proof (cases except)
  case (Some w)
  then show ?thesis
    using ends_returns [OF nudge_many_returns, of except n P] by (cases "w < 64") (auto simp: nudge_many_def worker_bit_def)
qed (simp add: ends_returns [OF nudge_many_returns])

lemma nudge_ends [simp]: "ends (nudge except P) (awoken P)"
  by (simp add: nudge_def)

lemma inject_ends: "ends (inject J k job P) (still P)"
  by (auto simp: inject_def ends_def rbind_Inr_iff)

lemma pool_push_ends: "ends (pool_push J k hint job P) (still P)"
  unfolding pool_push_def ends_simps
  by (rule ends_mono [OF inject_ends]) (auto intro: ends_mono [OF wake_ends] still_trans awoken_still)

lemma push_inbox_ends: "ends (push_inbox J k w job P) (still P)"
  unfolding push_inbox_def ends_simps
  by (rule ends_mono [OF ends_get_local]) (auto simp: ends_def intro: still_set_local)

lemma submit_local_ends: "ends (submit_local J k w job P) (unrun P)"
proof -
  have 1: "unrun P P'" if "still P P'" for P P' :: "('q, 'i, 'j) pool" using that by (simp add: still_def calm_def)
  have 2: "ends (nudge e P') (unrun P)" if "unrun P P'" for e P'
    by (rule ends_mono [OF nudge_ends]) (use that in \<open>blast intro: unrun_trans 1 awoken_still\<close>)
  have 3: "ends (wake_specific w P') Q" if "unrun P P'" "\<And>P'. unrun P P' \<Longrightarrow> Q P'" for P' Q
    by (rule ends_mono [OF wake_specific_ends]) (use that in \<open>blast intro: unrun_trans 1 awoken_still\<close>)
  have 4: "unrun P (set_local w l P)" for l by (simp add: unrun_def set_local_def)
  show ?thesis
    by (auto simp: submit_local_def slot_replace_def Let_def split: option.splits
        intro!: ends_mono [OF ends_get_local] ends_mono [OF pool_push_ends] ends_mono [OF inject_ends] ends_mono [OF push_inbox_ends] 2 3
        intro: 1 unrun_trans [OF 4 1] 4)
qed

lemma exec_calls_ends: "ends (exec_calls J k cs P) (unrun P)" for P :: "('q, 'i, 'j) pool"
proof (induction cs arbitrary: P)
  case (Cons c cs)
  have "jobs_run (unpark_all ws P') = jobs_run P' \<and> running (unpark_all ws P') = running P'" for ws and P' :: "('q, 'i, 'j) pool"
    by (induction ws arbitrary: P') (simp_all add: unpark_def)
  then have "unrun P (shut_down P)" by (simp add: shut_down_def Let_def unrun_def)
  then have "ends (exec_call J k c P) (unrun P)"
    using ends_mono [OF pool_push_ends, of P "unrun P"] submit_local_ends by (cases c) (auto simp: still_def calm_def)
  then show ?case unfolding exec_calls.simps ends_simps by (rule ends_mono) (auto intro: ends_mono [OF Cons.IH] unrun_trans)
qed simp

lemma execute_ends: "ends (execute J k body w job P) (ran P)"
proof -
  have "ran P (set_local w l P')" if "unrun (P\<lparr>jobs_run := jobs_run P @ [job]\<rparr>) P'" for l P'
    using that by (auto simp: unrun_def ran_def set_local_def)
  then show ?thesis
    unfolding execute_def ends_simps by (intro ends_mono [OF exec_calls_ends] ends_mono [OF ends_get_local]) auto
qed

lemma pop_injector_ends: "ends (pop_injector J k P) (\<lambda>(r, P'). still P P' \<and> locals P' = locals P)"
  by (auto simp: pop_injector_def ends_def rbind_Inr_iff)

lemma take_loop_ends:
  "ends (take_loop n J k js P) (\<lambda>(t, js', P'). still P P' \<and> locals P' = locals P \<and> length js' = t + length js)"
proof (induction n arbitrary: js P)
  case (Suc n)
  show ?case
    unfolding take_loop.simps ends_simps
    by (rule ends_mono [OF pop_injector_ends])
       (auto split: option.splits intro!: ends_mono [OF Suc.IH], metis still_trans)
qed simp

lemma nudge_if_ends: "ends (if b then nudge_many e n P else Inr P) (awoken P)"
  by simp

lemma take_from_injector_ends:
  "ends (take_from_injector J k js P) (\<lambda>(t, js', P'). still P P' \<and> locals P' = locals P \<and> length js' = t + length js)"
proof -
  have n: "ends (if n > 0 then nudge_many None (min (unat n) (workers P')) P' else Inr P')
      (\<lambda>P''. ends (Inr (t, js', P'')) (\<lambda>(t, js', P''). still P P'' \<and> locals P'' = locals P \<and> length js' = t + length js))"
    if "still P P'" "locals P' = locals P" "length js' = t + length js" for n :: usize and P' t js'
    by (rule ends_mono [OF nudge_if_ends]) (use that in \<open>auto simp: awokenD intro: still_trans awoken_still\<close>)
  show ?thesis
    unfolding take_from_injector_def ends_simps(3)
    by (rule ends_mono [OF take_loop_ends], clarify, unfold ends_simps(3), rule ends_mono [OF ends_True], rule n)
qed

lemma publish_ends: "ends (publish_capped_slot J k w b P) (still P)"
proof -
  have 1: "still P (set_local w ((locals P ! w)\<lparr>loc_lifo := None\<rparr>) P)" for P :: "('a, 'b, 'c) pool"
    by (rule still_set_local) simp_all
  have 2: "ends (if x then nudge (Some w) P' else Inr P') (still P)" if "still P P'" for x P'
    using that by (auto intro!: ends_mono [OF nudge_ends] intro: still_trans awoken_still)
  have 3: "ends (rbind (push_inbox J k w job P') (\<lambda>P. rbind (get_local w P) (\<lambda>l.
      rbind (if b then Inr True else rbind (mq_len J (loc_inbox l)) (\<lambda>n. Inr (n > 1))) (\<lambda>x. if x then nudge (Some w) P else Inr P)))) (still P)"
    if "still P P'" for job P'
    unfolding ends_simps
    by (rule ends_mono [OF push_inbox_ends], rule ends_mono [OF ends_True], rule ends_mono [OF ends_True], rule 2)
       (blast intro: still_trans that)
  show ?thesis
    unfolding publish_capped_slot_def ends_simps(3)
    by (rule ends_mono [OF ends_get_local], clarify)
       (use 1 [of P] 3 [OF 1 [of P]] in \<open>simp add: slot_take_def Let_def split: option.split\<close>)
qed

lemma share_loop_ends:
  "ends (share_loop n W q js P) (\<lambda>(t, js', P'). calm P P' \<and> pool_injector P' = pool_injector P \<and> length js \<le> n + length js')"
proof (induction n arbitrary: js P)
  case (Suc n)
  have 1: "calm (P\<lparr>deques := Q\<rparr>) P' = calm P P'" for Q P' by (simp add: calm_def unrun_def)
  show ?case
  proof (cases js)
    case (Cons j rest)
    have step: "ends (let P = P\<lparr>deques := Q\<rparr> in case r of
        Inr _ \<Rightarrow> rbind (share_loop n W q rest P) (\<lambda>(shared, js, P). Inr (Suc shared, js, P)) | Inl back \<Rightarrow> Inr (0, back # rest, P))
      (\<lambda>(t, js', P'). calm P P' \<and> pool_injector P' = pool_injector P \<and> length (j # rest) \<le> Suc n + length js')" for r Q
      using ends_mono [OF Suc.IH [of rest "P\<lparr>deques := Q\<rparr>"]] by (auto simp: Let_def 1 Cons split: sum.split)
    show ?thesis
      unfolding Cons share_loop.simps list.case ends_simps(3)
      by (rule ends_mono [OF ends_True], clarify, rule step)
  qed simp
qed simp

lemma share_ends: "ends (share W q w js P) (\<lambda>(js', P'). calm P P' \<and> (js \<noteq> [] \<longrightarrow> js' \<noteq> []))"
proof -
  have 1: "ends (if b then nudge_many e n P' else Inr P') (calm P)" if "calm P P'" for b e n P'
    by (rule ends_mono [OF nudge_if_ends]) (use that in \<open>blast intro: calm_trans still_calm awoken_still\<close>)
  show ?thesis
  proof (cases "length js < 2")
    case False
    show ?thesis
      unfolding share_def if_not_P [OF False] ends_simps
    proof (rule ends_mono [OF share_loop_ends], clarify, simp only: prod.case ends_simps)
      fix t js' P'
      assume a: "calm P P'" "length js \<le> length js div 2 + length js'"
      then have "js' \<noteq> []" using False by auto
      then show "ends (if 0 < t then nudge_many (Some w) t P' else Inr P') (\<lambda>P''. calm P P'' \<and> (js \<noteq> [] \<longrightarrow> js' \<noteq> []))"
        using ends_mono [OF 1 [OF a(1)]] by simp
    qed
  qed (simp add: share_def)
qed

lemma promote_ends: "ends (promote W q w js P) (\<lambda>(js', P'). calm P P')"
  by (auto simp: promote_def intro: ends_mono [OF share_ends])

lemma pop_inbox_ends:
  "ends (pop_inbox J k w P) (\<lambda>(r, P'). still P P' \<and> pool_tuning P' = pool_tuning P \<and> pool_injector P' = pool_injector P \<and>
     stealers P' = stealers P \<and> workers P' = workers P \<and> (\<forall>v. v \<noteq> w \<longrightarrow> locals P' ! v = locals P ! v))"
  unfolding pop_inbox_def ends_simps
  by (rule ends_mono [OF ends_get_local])
     (auto simp: ends_def set_local_def workers_def intro!: still_set_local [unfolded set_local_def])

lemma move_inbox_ends:
  "ends (move_inbox n J k w js P) (\<lambda>(t, js', P'). still P P' \<and> pool_tuning P' = pool_tuning P \<and> length js' = t + length js)"
proof (induction n arbitrary: js P)
  case 0
  show ?case
    by (subst move_inbox.simps, unfold ends_simps, rule ends_mono [OF pop_inbox_ends]) (auto split: option.splits)
next
  case (Suc n)
  show ?case
    by (subst move_inbox.simps, unfold ends_simps, rule ends_mono [OF pop_inbox_ends])
       (auto split: option.splits intro!: ends_mono [OF Suc.IH], metis still_trans)
qed

section \<open>Progress\<close>

text \<open>How far a worker is from running a job, and what it must not leave behind.\<close>

definition level :: "('q, 'd, 'j) wq_ops \<Rightarrow> 'j run_state \<Rightarrow> ('q, 'i, 'j) pool \<Rightarrow> nat" where
  "level W L P = (if mine L \<noteq> [] then 0 else if \<not> wq_is_empty W (deques P (queue L)) then 1 else 2)"

definition nothing_left :: "('q, 'd, 'j) wq_ops \<Rightarrow> ('i, 'j) mpmc_ops \<Rightarrow> nat \<Rightarrow> ('q, 'i, 'j) pool \<Rightarrow> bool" where
  "nothing_left W J w P \<longleftrightarrow> wq_is_empty W (deques P w) \<and> mq_is_empty J (pool_injector P) \<and>
     mq_is_empty J (loc_inbox (locals P ! w)) \<and> loc_lifo (locals P ! w) = None"

definition progress ::
  "('q, 'd, 'j) wq_ops \<Rightarrow> ('i, 'j) mpmc_ops \<Rightarrow> 'j run_state \<Rightarrow> ('q, 'i, 'j) pool \<Rightarrow>
     outcome \<times> 'j run_state \<times> ('q, 'i, 'j) pool \<Rightarrow> bool" where
  "progress W J L P = (\<lambda>(out, L', P').
     out = Continue \<and> (ran P P' \<or> calm P P' \<and> level W L' P' < level W L P) \<or>
     out = Break \<and> calm P P' \<and> nothing_left W J (queue L) P')"

section \<open>Stealing\<close>

context pool_queues
begin

lemma push_empty_ends:
  assumes "rep q None A" "aq_items A = []"
  shows "ends (wq_push W q x) (\<lambda>(r, q'). r = Inr () \<and> (\<exists>A'. rep q' None A' \<and> aq_items A' \<noteq> []))"
proof -
  have "aq_booked A = 0" using idle_law [OF assms(1)] rep_wf [OF assms(1)] by (simp add: aq_wf_def)
  then have "aq_push A x = (Inr (), A\<lparr>aq_items := [x]\<rparr>)" using assms(2) cap_law [OF assms(1)] by (simp add: aq_push_def aq_room_def)
  with push_law [OF assms(1), of x] show ?thesis
    by (cases "wq_push W q x") (auto simp: intro!: exI [of _ "A\<lparr>aq_items := [x]\<rparr>"])
qed

lemma steal_ends:
  assumes "\<And>i. rep (Q i) None (A i)"
  shows "ends (wq_steal W k k' pull v w Q) (\<lambda>(r, Q'). case r of Inl _ \<Rightarrow> \<forall>i. rep (Q' i) None (A i)
    | Inr n \<Rightarrow> 0 < unat n \<and> (\<exists>A'. rep (Q' w) None A' \<and> aq_items A' \<noteq> []))"
proof (cases "wq_steal W k k' pull v w Q")
  case (Inr x)
  obtain r Q' where x: "x = (r, Q')" by (cases x)
  obtain r' S' where S: "aq_steal k pull v w A = Inr (r', S')" "map_sum id unat r = r'" "\<And>i. rep (Q' i) None (S' i)"
    using steal_law [of Q "\<lambda>_. None" A k k' pull v w, OF assms] Inr x
    by (cases "aq_steal k pull v w A") auto
  show ?thesis using S(1) rep_wf [OF assms]
  proof (cases rule: aq_steal_cases)
    case (failed e)
    then show ?thesis using S Inr x by (cases r) auto
  next
    case (moved n)
    then have "aq_items (S' w) \<noteq> []" by (auto simp: aq_move_def Let_def)
    then show ?thesis using moved S(2) S(3) [of w] Inr x by (cases r) auto
  qed
qed simp

lemma steal_loop_ends:
  assumes "\<And>i. rep (deques P i) None (A i)" "aq_items (A w) = []"
  shows "ends (steal_loop os W J k w w start P) (\<lambda>(got, P'). calm P P' \<and>
    (if got = 0 then (\<forall>i. rep (deques P' i) None (A i)) \<and> locals P' ! w = locals P ! w
     else \<exists>A'. rep (deques P' w) None A' \<and> aq_items A' \<noteq> []))" (is "ends _ (?Q P)")
  using assms(1)
proof (induction os arbitrary: P)
  case (Cons x os)
  define v where "v = (start + x) mod workers P"
  show ?case
  proof (cases "v = w")
    case True
    then show ?thesis using Cons.IH [OF Cons.prems] by (simp add: v_def)
  next
    case False
    have keep: "ends (rbind (wq_push W (deques P' w) job) (\<lambda>(r, q).
        let P = P'\<lparr>deques := (deques P')(w := q)\<rparr> in
        rbind (case r of Inr _ \<Rightarrow> Inr P | Inl job \<Rightarrow> pool_push J k (Some w) job P) (\<lambda>P. Inr (1, P)))) (?Q P)"
      if "still P P'" for P' job
    proof -
      have "rep (deques P' w) None (A w)" using that Cons.prems by (simp add: still_def)
      from push_empty_ends [OF this assms(2)] show ?thesis
        unfolding ends_simps(3) by (rule ends_mono) (use that in \<open>auto simp: Let_def still_def\<close>)
    qed
    have sweep: "ends (if v < length (stealers P')
        then rbind (wq_steal W k k pull (stealers P' ! v) w (deques P')) (\<lambda>(r, Q).
          let P = P'\<lparr>deques := Q\<rparr>; got = (case r of Inl _ \<Rightarrow> 0 | Inr n \<Rightarrow> unat n) in
          if got > 0 then rbind (if got > 1 then nudge (Some w) P else Inr P) (\<lambda>P. Inr (got, P))
          else steal_loop os W J k w w start P)
        else Inl IndexOutOfBounds) (?Q P)"
      if P': "still P P'" "locals P' ! w = locals P ! w" for P'
    proof (cases "v < length (stealers P')")
      case True
      have r: "rep (deques P' i) None (A i)" for i using P' Cons.prems by (simp add: still_def)
      have after: "ends (let P = P'\<lparr>deques := Q\<rparr>; got = (case r of Inl _ \<Rightarrow> 0 | Inr n \<Rightarrow> unat n) in
          if got > 0 then rbind (if got > 1 then nudge (Some w) P else Inr P) (\<lambda>P. Inr (got, P))
          else steal_loop os W J k w w start P) (?Q P)"
        if q: "case r of Inl _ \<Rightarrow> \<forall>i. rep (Q i) None (A i) | Inr n \<Rightarrow> 0 < unat n \<and> (\<exists>A'. rep (Q w) None A' \<and> aq_items A' \<noteq> [])"
        for r :: "steal_error + usize" and Q
      proof (cases r)
        case (Inl e)
        let ?P = "P'\<lparr>deques := Q\<rparr>"
        have c: "calm P ?P" using P'(1) by (simp add: still_def)
        have t: "calm P P''" if "calm ?P P''" for P'' by (rule calm_trans [OF c that])
        have "rep (deques ?P i) None (A i)" for i using q Inl by simp
        from Cons.IH [OF this] show ?thesis
          by (simp only: Inl Let_def sum.case less_irrefl if_False, elim ends_mono) (use P'(2) in \<open>auto dest: t split: if_splits\<close>)
      next
        case (Inr n)
        have c: "calm P (P'\<lparr>deques := Q\<rparr>)" using P'(1) by (simp add: still_def)
        have t: "calm P P''" if "awoken (P'\<lparr>deques := Q\<rparr>) P''" for P''
          using calm_trans [OF c still_calm [OF awoken_still [OF that]]] .
        have "ends (if 1 < unat n then nudge (Some w) (P'\<lparr>deques := Q\<rparr>) else Inr (P'\<lparr>deques := Q\<rparr>)) (awoken (P'\<lparr>deques := Q\<rparr>))"
          by simp
        then show ?thesis
          using q by (simp only: Inr Let_def sum.case if_True ends_simps(3)) (erule ends_mono, use t in \<open>auto simp: awokenD\<close>)
      qed
      show ?thesis
        unfolding if_P [OF True] ends_simps(3)
        by (rule ends_mono [OF steal_ends [OF r]], clarify, rule after)
    qed simp
    show ?thesis
      unfolding steal_loop.simps v_def [symmetric] Let_def [of v] if_not_P [OF False]
        ends_simps(3) [of "if stealable_inbox (pool_tuning P) then pop_inbox J k v P else Inr (None, P)"]
    proof (rule ends_mono [where Q = "\<lambda>(r, P'). still P P' \<and> locals P' ! w = locals P ! w"], goal_cases)
      case 1
      show ?case using False by (auto intro!: ends_mono [OF pop_inbox_ends])
    next
      case (2 rP)
      obtain r P' where rP: "rP = (r, P')" by (cases rP)
      show ?case
      proof (cases r)
        case None
        then show ?thesis using sweep [of P'] 2 by (simp only: rP prod.case option.case)
      next
        case (Some job)
        then show ?thesis using keep [of P' job] 2 by (simp only: rP prod.case option.case)
      qed
    qed
  qed
qed simp

text \<open>Queues that stand for something.\<close>

definition queues_ok :: "('q, 'i, 'j) pool \<Rightarrow> bool" where
  "queues_ok P \<longleftrightarrow> (\<exists>A. \<forall>i. rep (deques P i) None (A i)) \<and> (\<exists>p xs. mrep (pool_injector P) p xs) \<and>
     (\<forall>v < workers P. \<exists>p xs. mrep (loc_inbox (locals P ! v)) p xs)"

lemma account_queues_ok: "account body b S c m P \<Longrightarrow> queues_ok P"
  unfolding account_def view_ok_def queues_ok_def by blast

lemma pop_inbox_empty:
  assumes "queues_ok P" "w < workers P"
  shows "ends (pop_inbox J k w P) (\<lambda>(r, P'). r = None \<longrightarrow> mq_is_empty J (loc_inbox (locals P' ! w)))"
proof -
  obtain p xs where r: "mrep (loc_inbox (locals P ! w)) p xs" using assms by (auto simp: queues_ok_def)
  obtain q where "mq_pop J k (loc_inbox (locals P ! w)) = Inr (head_option xs, q)" "mrep q p (tl xs)"
    using mq_pop_law [OF r] by blast
  moreover have "xs = [] \<longleftrightarrow> head_option xs = None" by (cases xs) simp_all
  ultimately show ?thesis using assms(2) mq_is_empty_law [of q p "tl xs"]
    by (auto simp: pop_inbox_def get_local_def workers_def set_local_def)
qed

lemma pop_inbox_ends':
  assumes "queues_ok P" "w < workers P"
  shows "ends (pop_inbox J k w P) (\<lambda>(r, P'). still P P' \<and> pool_tuning P' = pool_tuning P \<and>
    (r = None \<longrightarrow> mq_is_empty J (loc_inbox (locals P' ! w))))"
  by (rule ends_mono [OF ends_conj [OF pop_inbox_ends pop_inbox_empty [OF assms]]]) auto

lemma move_inbox_empty:
  assumes "queues_ok P" "w < workers P"
  shows "ends (move_inbox n J k w js P) (\<lambda>(t, js', P'). t = 0 \<longrightarrow> mq_is_empty J (loc_inbox (locals P' ! w)))"
  by (subst move_inbox.simps, unfold ends_simps(3), rule ends_mono [OF pop_inbox_ends' [OF assms]])
     (auto simp: ends_def rbind_Inr_iff split: option.splits nat.splits)

lemma take_from_injector_empty:
  assumes "queues_ok P" "injector_batch (pool_tuning P) \<noteq> 0"
  shows "ends (take_from_injector J k js P) (\<lambda>(t, js', P'). t = 0 \<longrightarrow> mq_is_empty J (pool_injector P'))"
proof -
  obtain p xs where r: "mrep (pool_injector P) p xs" using assms(1) by (auto simp: queues_ok_def)
  define b where "b = unat (injector_batch (pool_tuning P))"
  obtain q where q: "take_loop b J k js P = Inr (min b (length xs), js @ take b xs, P\<lparr>pool_injector := q\<rparr>)" "mrep q p (drop b xs)"
    using take_loop_eq [OF r] by blast
  have "0 < b" using assms(2) by (simp add: b_def unat_gt_0)
  then have "min b (length xs) = 0 \<longrightarrow> mq_is_empty J q" using mq_is_empty_law [OF q(2)] by auto
  then have "ends (if n > 0 then nudge_many None m (P\<lparr>pool_injector := q\<rparr>) else Inr (P\<lparr>pool_injector := q\<rparr>))
      (\<lambda>P'. min b (length xs) = 0 \<longrightarrow> mq_is_empty J (pool_injector P'))" for n :: usize and m
    by (intro ends_mono [OF nudge_if_ends]) (auto simp: awokenD)
  then show ?thesis
    by (simp only: take_from_injector_def b_def [symmetric] q(1) ends_simps prod.case) (rule ends_mono [OF ends_True], simp)
qed

section \<open>The phases\<close>

lemma slot_phase_ends:
  "ends (slot_phase J k body w L P) (\<lambda>(out, L', P'). if out = Fall
     then L' = L \<and> still P P' \<and> (lifo_run L < lifo_run_limit (pool_tuning P) \<longrightarrow> loc_lifo (locals P' ! w) = None)
     else out = Continue \<and> ran P P')"
proof (cases "lifo_run L < lifo_run_limit (pool_tuning P)")
  case True
  have 1: "still P (set_local w ((locals P ! w)\<lparr>loc_lifo := None\<rparr>) P)" by (rule still_set_local) simp_all
  show ?thesis
    unfolding slot_phase_def if_P [OF True] ends_simps(3)
  proof (rule ends_mono [OF ends_get_local], clarify, simp add: slot_take_def Let_def split: option.split, intro conjI impI allI)
    assume "w < length (locals P)"
    then show "loc_lifo (locals (set_local w ((locals P ! w)\<lparr>loc_lifo := None\<rparr>) P) ! w) = None" by (simp add: set_local_def)
  next
    fix job
    have "ran P P'" if "ran (set_local w ((locals P ! w)\<lparr>loc_lifo := None\<rparr>) P) P'" for P'
      using ran_trans(1) [OF calm_unrun [OF still_calm [OF 1]] that] .
    then show "ends (checked_plus (lifo_run L) 1) (\<lambda>n. ends (execute J k body w job (set_local w ((locals P ! w)\<lparr>loc_lifo := None\<rparr>) P)) (ran P))"
      by (intro ends_mono [OF ends_True] ends_mono [OF execute_ends])
  qed (rule 1)
qed (simp add: slot_phase_def)

lemma boundary_ends:
  "ends (boundary W J k w x L P) (\<lambda>(L', P'). still P P' \<and> queue L' = queue L \<and> (mine L \<noteq> [] \<longrightarrow> mine L' \<noteq> []))"
proof -
  have 2: "ends (if b then rbind (take_from_injector J k js P') (\<lambda>(taken, m, P). Inr (m, P)) else Inr (js, P'))
      (\<lambda>(js', P''). still P P'' \<and> (js \<noteq> [] \<longrightarrow> js' \<noteq> []))" if "still P P'" for b js P'
    using that by (auto intro!: ends_mono [OF take_from_injector_ends] intro: still_trans)
  have 1: "ends (if b then publish_capped_slot J k w y P else Inr P) (still P)" for b y
    by (simp add: publish_ends)
  show ?thesis
    unfolding boundary_def ends_simps(3)
    by (rule ends_mono [OF 1], rule ends_mono [OF 2], assumption) auto
qed

lemma mine_phase_ends:
  "ends (mine_phase W J k body w L P) (\<lambda>(out, L', P'). if mine L = [] then out = Fall \<and> L' = L \<and> P' = P else out = Continue \<and> ran P P')"
proof (cases "mine L = []")
  case False
  have "ends (if b then rbind (promote W (queue L) w m P) (\<lambda>(m, P). Inr (promote_every (pool_tuning P), m, P)) else Inr (u, m, P))
      (\<lambda>(u, m, P'). calm P P')" for b u m
    by (auto intro: ends_mono [OF promote_ends])
  then have 1: "ends (if b then rbind (promote W (queue L) w m P) (\<lambda>(m, P). Inr (promote_every (pool_tuning P), m, P)) else Inr (u, m, P))
      (\<lambda>(u, m, P'). ends (execute J k body w job P') (ran P))" for b u m job
    by (rule ends_mono) (auto intro!: ends_mono [OF execute_ends] intro: ran_trans(1) calm_unrun)
  show ?thesis
    unfolding mine_phase_def if_not_P [OF False] Let_def ends_simps(3)
    by (rule ends_mono [OF ends_True], rule ends_mono [OF 1]) (auto simp: False)
qed (simp add: mine_phase_def)

lemma inbox_run_ends:
  assumes "queues_ok P" "w < workers P"
  shows "ends (inbox_run_phase J k body w L P) (\<lambda>(out, L', P'). if out = Fall
    then L' = L \<and> still P P' \<and> pool_tuning P' = pool_tuning P \<and> (stealable_inbox (pool_tuning P) \<longrightarrow> mq_is_empty J (loc_inbox (locals P' ! w)))
    else out = Continue \<and> ran P P')"
proof (cases "stealable_inbox (pool_tuning P)")
  case True
  show ?thesis
    unfolding inbox_run_phase_def if_P [OF True] ends_simps(3)
    by (rule ends_mono [OF pop_inbox_ends' [OF assms]])
       (auto split: option.split intro!: ends_mono [OF execute_ends] intro: ran_still)
qed (simp add: inbox_run_phase_def)

lemma inbox_move_ends:
  assumes "queues_ok P" "w < workers P"
  shows "ends (inbox_move_phase J k w L P) (\<lambda>(out, L', P'). queue L' = queue L \<and> still P P' \<and> (if out = Fall
    then mine L' = mine L \<and> (if stealable_inbox (pool_tuning P) then P' = P else mq_is_empty J (loc_inbox (locals P' ! w)))
    else out = Continue \<and> mine L' \<noteq> []))"
proof (cases "stealable_inbox (pool_tuning P)")
  case False
  have keep: "ends (move_inbox n J k w js P) (\<lambda>(t, js', P'). t = 0 \<longrightarrow> js' = js)" for n js
    by (subst move_inbox.simps, unfold ends_simps(3), rule ends_mono [OF ends_True])
       (auto simp: ends_def rbind_Inr_iff split: option.splits nat.splits)
  show ?thesis
    unfolding inbox_move_phase_def if_not_P [OF False] ends_simps(3)
    by (rule ends_mono [OF ends_conj [OF keep ends_conj [OF move_inbox_ends move_inbox_empty [OF assms]]]]) (auto simp: False)
qed (simp add: inbox_move_phase_def)

lemma queue_phase_ends:
  assumes "queues_ok P"
  shows "ends (queue_phase W J k body w L P) (\<lambda>(out, L', P'). if out = Fall
    then L' = L \<and> (\<exists>q. P' = P\<lparr>deques := (deques P)(queue L := q)\<rparr>) \<and> wq_is_empty W (deques P (queue L)) \<and>
      (\<exists>A. (\<forall>i. rep (deques P' i) None (A i)) \<and> aq_items (A (queue L)) = [])
    else out = Continue \<and> ran P P')"
proof -
  obtain A where r: "\<And>i. rep (deques P i) None (A i)" using assms by (auto simp: queues_ok_def)
  let ?a = "queue L"
  obtain q where q: "wq_pop W k (deques P ?a) = Inr (fst (aq_pop TakeNewest (A ?a)), q)" "rep q None (snd (aq_pop TakeNewest (A ?a)))"
    using pop_law [OF r [of ?a], of k] by (cases "wq_pop W k (deques P ?a)") (auto simp: split_beta)
  let ?P = "P\<lparr>deques := (deques P)(?a := q)\<rparr>"
  show ?thesis
  proof (cases "aq_items (A ?a) = []")
    case True
    then have "aq_pop TakeNewest (A ?a) = (None, A ?a)" by (simp add: aq_pop_def)
    moreover have "wq_is_empty W (deques P ?a)" using True is_empty_law [OF r] by simp
    ultimately show ?thesis using q True r by (auto simp: queue_phase_def Let_def fun_upd_def intro!: exI [of _ q] exI [of _ A])
  next
    case False
    have "ran P P'" if "ran ?P P'" for P' using that by (simp add: ran_def)
    then have "ends (execute J k body w job ?P) (ran P)" for job by (auto intro: ends_mono [OF execute_ends])
    then show ?thesis using q False by (simp add: queue_phase_def aq_pop_def Let_def)
  qed
qed

lemma steal_once_ends:
  assumes "\<And>i. rep (deques P i) None (A i)" "aq_items (A w) = []"
  shows "ends (steal_once W J k w w g P) (\<lambda>(got, g', P'). calm P P' \<and>
    (if got = 0 then wq_is_empty W (deques P' w) \<and> locals P' ! w = locals P ! w else \<not> wq_is_empty W (deques P' w)))"
proof -
  have e: "wq_is_empty W (deques P w)" using is_empty_law [OF assms(1)] assms(2) by simp
  have sweep: "ends (steal_loop os W J k w w start P) (\<lambda>(got, P'). calm P P' \<and>
    (if got = 0 then wq_is_empty W (deques P' w) \<and> locals P' ! w = locals P ! w else \<not> wq_is_empty W (deques P' w)))" for os start
    by (rule ends_mono [OF steal_loop_ends [OF assms]]) (use assms(2) is_empty_law in \<open>auto split: if_splits\<close>)
  show ?thesis using e by (auto simp: steal_once_def Let_def intro!: ends_mono [OF sweep])
qed

lemma search_phase_ends:
  assumes "\<And>i. rep (deques P i) None (A i)" "aq_items (A w) = []" "queue L = w"
  shows "ends (search_phase W J k w L P) (\<lambda>(out, L', P'). queue L' = w \<and> mine L' = mine L \<and> calm P P' \<and> (if out = Fall
    then wq_is_empty W (deques P' w) \<and> locals P' ! w = locals P ! w else out = Continue \<and> \<not> wq_is_empty W (deques P' w)))"
proof -
  have e: "wq_is_empty W (deques P w)" using is_empty_law [OF assms(1)] assms(2) by simp
  have may: "ends (may_search P) (\<lambda>(may, P'). \<exists>n. P' = P\<lparr>searching := n\<rparr>)"
    unfolding may_search_def Let_def by (cases "workers P < 2") (auto simp: ends_def rbind_Inr_iff split: if_splits intro: exI [of _ "searching P"])
  have "ends (steal_once W J k w w g (P\<lparr>searching := n\<rparr>)) (\<lambda>(got, g', P'). calm P P' \<and>
    (if got = 0 then wq_is_empty W (deques P' w) \<and> locals P' ! w = locals P ! w else \<not> wq_is_empty W (deques P' w)))" for g n
    by (rule ends_mono [OF steal_once_ends [of "P\<lparr>searching := n\<rparr>" A w k g]]) (use assms(1,2) in auto)
  then have go: "ends (rbind (steal_once W J k w w g (P\<lparr>searching := n\<rparr>)) (\<lambda>(stolen, r, P).
       let P = (if workers P \<ge> 2 then P\<lparr>searching := searching P - 1\<rparr> else P); L = L\<lparr>rng := r\<rparr> in
       if stolen > 0 then Inr (Continue, L\<lparr>spins := 0\<rparr>, P) else Inr (Fall, L, P)))
    (\<lambda>(out, L', P'). queue L' = w \<and> mine L' = mine L \<and> calm P P' \<and> (if out = Fall
    then wq_is_empty W (deques P' w) \<and> locals P' ! w = locals P ! w else out = Continue \<and> \<not> wq_is_empty W (deques P' w)))" for g n
    unfolding ends_simps(3) by (rule ends_mono) (use assms(3) in \<open>auto simp: Let_def split: if_splits\<close>)
  show ?thesis
    unfolding search_phase_def assms(3) ends_simps(3) [of "may_search P"]
  proof (rule ends_mono [OF may], clarify, goal_cases)
    case (1 m n)
    then show ?case using go e assms(3) by (cases m) (simp_all only: if_True if_False ends_simps prod.case, simp_all)
  qed
qed

lemma injector_phase_ends:
  assumes "queues_ok P" "injector_batch (pool_tuning P) \<noteq> 0"
  shows "ends (injector_phase W J k w L P) (\<lambda>(out, L', P'). queue L' = queue L \<and> calm P P' \<and> (if out = Fall
    then mine L' = mine L \<and> deques P' = deques P \<and> locals P' = locals P \<and> mq_is_empty J (pool_injector P')
    else out = Continue \<and> mine L' \<noteq> []))"
proof -
  have keep: "ends (take_from_injector J k js P) (\<lambda>(t, js', P'). t = 0 \<longrightarrow> js' = js)" for js
  proof -
    have "ends (take_loop n J k js P) (\<lambda>(t, js', P'). t = 0 \<longrightarrow> js' = js)" for n
      by (cases n) (auto simp: ends_def rbind_Inr_iff split: option.splits)
    then show ?thesis by (auto simp: take_from_injector_def ends_def rbind_Inr_iff)
  qed
  have share: "ends (share W q w js P') (\<lambda>(js', P''). calm P P'' \<and> js' \<noteq> [])" if "still P P'" "js \<noteq> []" for js P' q
    by (rule ends_mono [OF share_ends]) (use that in \<open>auto intro: calm_trans still_calm\<close>)
  show ?thesis
    unfolding injector_phase_def ends_simps(3)
    by (rule ends_mono [OF ends_conj [OF keep ends_conj [OF take_from_injector_ends take_from_injector_empty [OF assms]]]])
       (auto simp: still_def intro!: ends_mono [OF share])
qed

lemma ready_phase_ends:
  "ends (ready_phase J k body w x L P) (\<lambda>(out, L', P'). if out = Fall
     then L' = L \<and> still P P' \<and> pool_injector P' = pool_injector P \<and> loc_inbox (locals P' ! w) = loc_inbox (locals P ! w) \<and>
       (x \<longrightarrow> loc_lifo (locals P' ! w) = None)
     else out = Continue \<and> ran P P')"
proof (cases x)
  case True
  have 1: "still P (set_local w ((locals P ! w)\<lparr>loc_lifo := None\<rparr>) P)" by (rule still_set_local) simp_all
  show ?thesis
    unfolding ready_phase_def if_P [OF True] ends_simps(3)
    by (rule ends_mono [OF ends_get_local])
       (use 1 in \<open>auto simp: slot_take_def Let_def set_local_def split: option.split
          intro!: ends_mono [OF execute_ends] dest: ran_still [OF 1, unfolded set_local_def]\<close>)
qed (simp add: ready_phase_def)

section \<open>An iteration\<close>

lemma stepped_queue: "stepped body b S c m w (L, P) \<Longrightarrow> queue L = w"
  by (simp add: stepped_def loop_ok_def)

lemma stepped_queues_ok: "stepped body b S c m w (L, P) \<Longrightarrow> queues_ok P"
  by (auto simp: stepped_def intro: account_queues_ok)

lemma stepped_workers: "stepped body b S c m w (L, P) \<Longrightarrow> workers P = size_of c"
  by (auto simp: stepped_def account_workers)

lemma stepped_batch: "stepped body b S c m w (L, P) \<Longrightarrow> injector_batch (pool_tuning P) \<noteq> 0"
  using static_okD(4) by (fastforce simp: stepped_def tuning_ok_def)

lemma idle_phase_down: "calm P P' \<Longrightarrow> \<not> running P \<Longrightarrow> idle_phase W J k w L P' = Inr (Break, L, P')"
  by (simp add: idle_phase_def is_running_def calm_def unrun_def)

lemma progressI:
  "ran P P' \<Longrightarrow> progress W J L P (Continue, L', P')"
  "calm P P' \<Longrightarrow> level W L' P' < level W L P \<Longrightarrow> progress W J L P (Continue, L', P')"
  "calm P P' \<Longrightarrow> nothing_left W J (queue L) P' \<Longrightarrow> progress W J L P (Break, L', P')"
  by (simp_all add: progress_def)

lemma shared_progress:
  assumes s: "stepped body b S c m w (L, P)" and ok: "body_ok B (size_of c) body" and c: "c = with_searching 0 c"
    and w: "w < size_of c" and lim: "b + B + 2 \<le> limit" and mine: "mine L = []" and down: "\<not> running P"
    and inbox: "mq_is_empty J (loc_inbox (locals P ! w))" and slot: "\<not> x \<Longrightarrow> loc_lifo (locals P ! w) = None"
  shows "returns (shared_phases W J k body w x L P) (progress W J L P)"
  unfolding shared_phases_def
proof (rule and_then_returns [OF returns_ends [OF queue_phase_ok [OF s ok w] queue_phase_ends [OF stepped_queues_ok [OF s]]]], goal_cases)
  case (2 L1 P1)
  note q = stepped_queue [OF s]
  from 2 have L1: "L1 = L" by simp
  from 2 [unfolded L1] have s1: "stepped body b S c m w (L, P1)" and Q: "\<exists>Q. P1 = P\<lparr>deques := (deques P)(w := Q)\<rparr>"
    and e: "wq_is_empty W (deques P w)" and A: "\<exists>A. (\<forall>i. rep (deques P1 i) None (A i)) \<and> aq_items (A w) = []"
    by (simp_all add: q)
  obtain Q where P1: "P1 = P\<lparr>deques := (deques P)(w := Q)\<rparr>" using Q by blast
  obtain A where A: "\<And>i. rep (deques P1 i) None (A i)" "aq_items (A w) = []" using A by blast
  have low: "level W L P = 2" using mine e q by (simp add: level_def)
  have c1: "calm P P1" by (simp add: P1)
  show ?case
    unfolding L1
  proof (rule and_then_returns [OF returns_ends [OF search_phase_ok [OF s1 c w] search_phase_ends [OF A q]]], goal_cases)
    case (2 L2 P2)
    then have s2: "stepped body (Suc b) S c m w (L2, P2)" and m2: "mine L2 = []" and q2: "queue L2 = w" and c2: "calm P P2"
      and e2: "wq_is_empty W (deques P2 w)" and l2: "locals P2 ! w = locals P ! w"
      using mine calm_trans [OF c1] by (simp_all add: P1)
    show ?case
    proof (rule and_then_returns [OF returns_ends [OF injector_phase_ok [OF s2 w]
            injector_phase_ends [OF stepped_queues_ok [OF s2] stepped_batch [OF s2]]]], goal_cases)
      case (1 L3 P3)
      then have s3: "stepped body (Suc b) S c m w (L3, P3)" and c3: "calm P P3" and d3: "deques P3 = deques P2"
        and l3: "locals P3 ! w = locals P ! w" and i3: "mq_is_empty J (pool_injector P3)"
        using calm_trans [OF c2] l2 by simp_all
      show ?case
      proof (rule and_then_returns [OF returns_ends [OF ready_phase_ok [OF s3 ok w] ready_phase_ends]], goal_cases)
        case (2 L4 P4)
        then have st: "still P3 P4" and k4: "pool_injector P4 = pool_injector P3" "loc_inbox (locals P4 ! w) = loc_inbox (locals P3 ! w)"
          "x \<longrightarrow> loc_lifo (locals P4 ! w) = None" by auto
        have c4: "calm P P4" using calm_trans [OF c3 still_calm [OF st]] .
        have "loc_lifo (locals P4 ! w) = None" using k4(3) slot c4 by (cases x) (auto simp: calm_def)
        then have "nothing_left W J (queue L) P4"
          using st k4 d3 e2 l3 i3 inbox q by (simp add: nothing_left_def still_def)
        then show ?case by (simp add: idle_phase_down [OF c4 down] progressI(3) [OF c4])
      qed (use lim c3 in \<open>auto intro!: progressI(1) intro: ran_trans(1) calm_unrun\<close>)
    next
      case (2 out L3 P3)
      then have "out = Continue" "mine L3 \<noteq> []" "calm P2 P3" by simp_all
      then show ?case using calm_trans [OF c2] low by (auto intro!: progressI(2) simp: level_def)
    qed
  next
    case (3 out L2 P2)
    then have "out = Continue" "mine L2 = []" "queue L2 = w" "calm P1 P2" "\<not> wq_is_empty W (deques P2 w)" using mine by simp_all
    then show ?case using calm_trans [OF c1] low by (auto intro!: progressI(2) simp: level_def)
  qed (use lim in simp_all)
qed (use lim in \<open>auto intro!: progressI(1)\<close>)

lemma progress_still:
  assumes "still P P'" "queue L' = queue L" "mine L' = mine L" "progress W J L' P' r"
  shows "progress W J L P r"
proof -
  have "level W L' P' = level W L P" using assms(1-3) by (simp add: level_def still_def)
  then show ?thesis
    using assms ran_still [OF assms(1)] calm_trans [OF still_calm [OF assms(1)]] by (auto simp: progress_def)
qed

lemma private_progress:
  assumes s: "stepped body b S c m w (L, P)" and ok: "body_ok B (size_of c) body" and c: "c = with_searching 0 c"
    and w: "w < size_of c" and lim: "b + B + 2 \<le> limit" and down: "\<not> running P"
    and slot: "\<not> x \<Longrightarrow> loc_lifo (locals P ! w) = None"
  shows "returns (private_phases W J k body w x L P) (\<lambda>r. progress W J L P r \<and> (mine L \<noteq> [] \<longrightarrow> fst r = Continue \<and> ran P (snd (snd r))))"
  unfolding private_phases_def
proof (rule and_then_returns [OF returns_ends [OF mine_phase_ok [OF s ok w] mine_phase_ends]], goal_cases)
  case (2 L1 P1)
  then have m: "mine L = []" and L1: "L1 = L" "P1 = P" by (auto split: if_splits)
  note wk = w [folded stepped_workers [OF s]]
  have "returns (and_then (inbox_run_phase J k body w L P) (\<lambda>L P. and_then (inbox_move_phase J k w L P) (\<lambda>L P.
      shared_phases W J k body w x L P))) (progress W J L P)"
  proof (rule and_then_returns [OF returns_ends [OF inbox_run_phase_ok [OF s ok w] inbox_run_ends [OF stepped_queues_ok [OF s] wk]]], goal_cases)
    case (2 L2 P2)
    then have s2: "stepped body b S c m w (L, P2)" and L2: "L2 = L" and st: "still P P2"
      and e2: "stealable_inbox (pool_tuning P2) \<Longrightarrow> mq_is_empty J (loc_inbox (locals P2 ! w))" by auto
    note wk2 = w [folded stepped_workers [OF s2]]
    show ?case
      unfolding L2
    proof (rule and_then_returns [OF returns_ends [OF inbox_move_phase_ok [OF s2 w] inbox_move_ends [OF stepped_queues_ok [OF s2] wk2]]], goal_cases)
      case (1 L3 P3)
      then have s3: "stepped body b S c m w (L3, P3)" and m3: "mine L3 = []" and q3: "queue L3 = queue L" and st3: "still P2 P3"
        and e3: "mq_is_empty J (loc_inbox (locals P3 ! w))" using e2 m by (auto split: if_splits)
      have st': "still P P3" by (rule still_trans [OF st st3])
      have "returns (shared_phases W J k body w x L3 P3) (progress W J L3 P3)"
        by (rule shared_progress [OF s3 ok c w lim m3 _ e3]) (use st' down slot in \<open>auto simp: still_def calm_def unrun_def\<close>)
      then show ?case by (rule returns_mono) (use m m3 in \<open>auto intro: progress_still [OF st' q3]\<close>)
    next
      case (2 out L3 P3)
      then have "out = Continue" "mine L3 \<noteq> []" "still P2 P3" by simp_all
      then show ?case using still_calm [OF still_trans [OF st]] m by (auto intro!: progressI(2) simp: level_def)
    qed
  qed (use lim in \<open>auto intro!: progressI(1)\<close>)
  then show ?case by (simp add: L1 m)
qed (use lim in \<open>auto intro!: progressI(1) split: if_splits\<close>)

lemma run_once_progress:
  assumes s: "stepped body b S c m w (L, P)" and ok: "body_ok B (size_of c) body" and c: "c = with_searching 0 c"
    and w: "w < size_of c" and lim: "b + B + 3 \<le> limit" and down: "\<not> running P"
  shows "returns (run_once W J k body w L P) (progress W J L P)"
  unfolding run_once_def
proof (rule and_then_returns [OF returns_ends [OF slot_phase_ok [OF s ok w] slot_phase_ends]], goal_cases)
  case (2 L1 P1)
  then have s1: "stepped body b S c m w (L, P1)" and L1: "L1 = L" and st: "still P P1"
    and e1: "lifo_run L < lifo_run_limit (pool_tuning P) \<Longrightarrow> loc_lifo (locals P1 ! w) = None" by auto
  define x where "x = (lifo_run L = lifo_run_limit (pool_tuning P1))"
  have e: "loc_lifo (locals P1 ! w) = None" if "\<not> x"
  proof -
    have "lifo_run L \<le> lifo_run_limit (pool_tuning P1)" using s1 stepped_tuning [OF s1] by (simp add: stepped_def loop_ok_def)
    then show ?thesis using that e1 stepped_tuning [OF s1] stepped_tuning [OF s] by (auto simp: x_def)
  qed
  have "b < limit" using lim by simp
  have "returns (rbind (boundary W J k w x L P1) (\<lambda>(L, P). private_phases W J k body w x L P)) (progress W J L P)"
    unfolding returns_simps
  proof (rule returns_mono [OF returns_ends [OF boundary_ok [OF s1 w \<open>b < limit\<close>] boundary_ends]], clarify)
    fix L2 P2
    assume s2: "stepped body (Suc b) S c m w (L2, P2)" and st2: "still P1 P2" and q2: "queue L2 = queue L"
      and m2: "mine L \<noteq> [] \<longrightarrow> mine L2 \<noteq> []"
    have st': "still P P2" by (rule still_trans [OF st st2])
    have "returns (private_phases W J k body w x L2 P2) (\<lambda>r. progress W J L2 P2 r \<and> (mine L2 \<noteq> [] \<longrightarrow> fst r = Continue \<and> ran P2 (snd (snd r))))"
      by (rule private_progress [OF s2 ok c w]) (use lim st' st2 down e in \<open>auto simp: still_def calm_def unrun_def\<close>)
    then show "returns (private_phases W J k body w x L2 P2) (progress W J L P)"
    proof (rule returns_mono)
      fix r
      assume r: "progress W J L2 P2 r \<and> (mine L2 \<noteq> [] \<longrightarrow> fst r = Continue \<and> ran P2 (snd (snd r)))"
      show "progress W J L P r"
      proof (cases "mine L2 = []")
        case True
        then have "mine L = []" using m2 by auto
        with r True show ?thesis using progress_still [OF st' q2] by simp
      next
        case False
        with r show ?thesis using ran_still [OF st'] by (auto simp: progress_def)
      qed
    qed
  qed
  then show ?case by (simp add: L1 x_def Let_def)
qed (use lim in \<open>auto intro!: progressI(1)\<close>)

section \<open>The loop ends\<close>

text \<open>
  A job costs more than all the jobs it submits; so the cost of what was submitted from
  outside bounds how many jobs are ever run.
\<close>

lemma cost_bounds_jobs:
  assumes a: "account body b S c m P" and cost: "\<And>j. (\<Sum>x \<in># calls_jobs (body j). cost x) < (cost j :: nat)"
  shows "length (jobs_run P) \<le> (\<Sum>x \<in># S. cost x)"
proof -
  let ?w = "\<lambda>M. \<Sum>x \<in># M. cost x"
  have "length js + ?w (spawned body js) \<le> ?w (mset js)" for js
  proof (induction js)
    case (Cons j js)
    have "Suc (?w (calls_jobs (body j))) \<le> cost j" using cost [of j] by simp
    then show ?case using Cons.IH by (simp add: spawned_def)
  qed (simp add: spawned_def)
  from this [of "jobs_run P"] have js: "length (jobs_run P) + ?w (spawned body (jobs_run P)) \<le> ?w (mset (jobs_run P))" .
  obtain V where "held (size_of c) V + mset (jobs_run P) + m = S + spawned body (jobs_run P)" using a by (rule accountE)
  then have "?w (held (size_of c) V + mset (jobs_run P) + m) = ?w (S + spawned body (jobs_run P))" by (simp only:)
  then have "?w (mset (jobs_run P)) \<le> ?w S + ?w (spawned body (jobs_run P))" by (simp only: image_mset_union sum_mset.union)
  with js show ?thesis by linarith
qed

lemma nothing_left_exit:
  "nothing_left W J w P \<Longrightarrow> w < length (locals P) \<Longrightarrow> nothing_left W J w (set_local w ((locals P ! w)\<lparr>loc_queue := q\<rparr>) P)"
  by (simp add: nothing_left_def set_local_def)

lemma iterate_progress:
  assumes m: "machine_ok body n i b S M" and ok: "body_ok B n body" and lim: "b + B + 3 \<le> limit"
    and L: "loops M w = Some L" and down: "\<not> running (the_pool M)"
  shows "ends (pool_do W J body (k, Iterate w) M) (\<lambda>M'. \<not> running (the_pool M') \<and>
    (case loops M' w of
       None \<Rightarrow> nothing_left W J w (the_pool M')
     | Some L' \<Rightarrow> ran (the_pool M) (the_pool M') \<or>
         calm (the_pool M) (the_pool M') \<and> level W L' (the_pool M') < level W L (the_pool M)))"
proof -
  let ?P = "the_pool M"
  obtain st t where a: "account body b S (queues_of n M, st, t, i, 0) (in_hand n M) ?P"
    and l: "\<forall>w L. loops M w = Some L \<longrightarrow> w < n \<and> loop_ok (queues_of n M, st, t, i, 0) w L"
    using m by (auto simp: machine_ok_def)
  let ?c = "(queues_of n M, st, t, i, 0 :: usize)"
  have w: "w < n" and lo: "loop_ok ?c w L" using l L by auto
  obtain h where h: "in_hand n M = h + mine_of (loops M w)" using in_hand_split [OF w] by blast
  have s: "stepped body b S ?c h w (L, ?P)" using a lo h L by (simp add: stepped_def mine_of_def)
  have q: "queue L = w" by (rule stepped_queue [OF s])
  have c: "?c = with_searching 0 ?c" "body_ok B (size_of ?c) body" "w < size_of ?c" using ok w by (simp_all add: with_searching_def)
  note run = returns_ends [OF run_once_ok [OF s c(2,1,3) lim] ends_returns [OF run_once_progress [OF s c(2,1,3) lim down]], of k]
  show ?thesis
    unfolding pool_do.simps L option.case ends_simps(3)
  proof (rule ends_mono [OF ends_returns [OF run]], clarify)
    fix out L' P'
    assume i: "iterated body (b + B + 3) S ?c h w (out, L', P')" and p: "progress W J L ?P (out, L', P')"
    have down': "\<not> running P'" using p down by (auto simp: progress_def calm_def unrun_def ran_def)
    have w': "w < length (locals P')" using stepped_workers w i by (fastforce simp: iterated_def workers_def)
    show "ends (if out = Break then rbind (run_exit J k w L' P') (\<lambda>P. Inr (M\<lparr>the_pool := P, loops := (loops M)(w := None)\<rparr>))
        else Inr (M\<lparr>the_pool := P', loops := (loops M)(w := Some L')\<rparr>))
      (\<lambda>M'. \<not> running (the_pool M') \<and> (case loops M' w of None \<Rightarrow> nothing_left W J w (the_pool M')
        | Some L' \<Rightarrow> ran ?P (the_pool M') \<or> calm ?P (the_pool M') \<and> level W L' (the_pool M') < level W L ?P))"
    proof (cases "out = Break")
      case True
      then have "mine L' = []" "nothing_left W J w P'" using i p q by (auto simp: iterated_def progress_def)
      then show ?thesis using True down' w' nothing_left_exit [of w P']
        by (auto simp: run_exit_def get_local_def put_queue_def set_local_def split: if_splits)
    qed (use p down' in \<open>auto simp: progress_def\<close>)
  qed
qed

definition rank :: "nat \<Rightarrow> nat \<Rightarrow> ('q, 'i, 'j) machine \<Rightarrow> nat" where
  "rank K w M = 3 * (K - length (jobs_run (the_pool M))) +
     (case loops M w of None \<Rightarrow> 0 | Some L \<Rightarrow> level W L (the_pool M))"

lemma level_le: "level W L P \<le> 2"
  by (simp add: level_def)

lemma worker_leaves:
  assumes "machine_ok body n i b S M" "body_ok B n body" "\<And>j. (\<Sum>x \<in># calls_jobs (body j). cost x) < (cost j :: nat)"
    "loops M w \<noteq> None" "\<not> running (the_pool M)" "K = (\<Sum>x \<in># S. cost x)" "b + Suc (rank K w M) * (B + 3) \<le> limit"
  shows "\<exists>r M'. r \<le> Suc (rank K w M) \<and> pool_schedule W J body (map (\<lambda>x. (ks x, Iterate w)) [0..<r]) M = Inr M' \<and>
    loops M' w = None \<and> nothing_left W J w (the_pool M') \<and> (\<exists>b'. machine_ok body n i b' S M')"
  using assms
proof (induction "rank K w M" arbitrary: M b ks rule: less_induct)
  case less
  obtain L where L: "loops M w = Some L" using less.prems(4) by auto
  have lim: "b + B + 3 \<le> limit" using less.prems(7) by simp
  obtain M1 where M1: "pool_do W J body (ks 0, Iterate w) M = Inr M1" "machine_ok body n i (b + B + 3) S M1"
    and p: "\<not> running (the_pool M1)"
      "case loops M1 w of None \<Rightarrow> nothing_left W J w (the_pool M1)
       | Some L' \<Rightarrow> ran (the_pool M) (the_pool M1) \<or> calm (the_pool M) (the_pool M1) \<and> level W L' (the_pool M1) < level W L (the_pool M)"
    using returns_ends [OF iterate_ok [OF less.prems(1,2) lim] iterate_progress [OF less.prems(1,2) lim L less.prems(5)], of "ks 0"]
    by (blast elim: returnsE)
  have first: "pool_schedule W J body (map (\<lambda>x. (ks x, Iterate w)) [0..<Suc r]) M =
      pool_schedule W J body (map (\<lambda>x. (ks (Suc x), Iterate w)) [0..<r]) M1" for r
    using M1(1) by (simp only: map_upt_Suc) simp
  show ?case
  proof (cases "loops M1 w")
    case None
    then show ?thesis using first [of 0] M1(2) p by (intro exI [of _ "Suc 0"] exI [of _ M1]) auto
  next
    case (Some L')
    have "length (jobs_run (the_pool M1)) \<le> K"
      using M1(2) cost_bounds_jobs less.prems(3,6) by (fastforce simp: machine_ok_def)
    then have r: "rank K w M1 < rank K w M"
      using p(2) Some L level_le [of L' "the_pool M1"] by (auto simp: rank_def ran_def calm_def unrun_def)
    then have "Suc (rank K w M1) * (B + 3) + (B + 3) \<le> Suc (rank K w M) * (B + 3)"
      using mult_le_mono1 [of "Suc (Suc (rank K w M1))" "Suc (rank K w M)" "B + 3"] by (simp add: algebra_simps)
    then have "b + B + 3 + Suc (rank K w M1) * (B + 3) \<le> limit" using less.prems(7) by simp
    from less.hyps [OF r M1(2) less.prems(2,3) _ p(1) less.prems(6) this, of "\<lambda>x. ks (Suc x)"] Some
    obtain r' M' where "r' \<le> Suc (rank K w M1)" "pool_schedule W J body (map (\<lambda>x. (ks (Suc x), Iterate w)) [0..<r']) M1 = Inr M'"
      "loops M' w = None" "nothing_left W J w (the_pool M')" "\<exists>b'. machine_ok body n i b' S M'" by auto
    then show ?thesis using r first [of r'] by (intro exI [of _ "Suc r'"] exI [of _ M']) auto
  qed
qed

text \<open>With one worker, nothing at all is left.\<close>

lemma last_worker_ran_all:
  assumes m: "machine_ok body 1 i b S M" and l: "loops M 0 = None" and e: "nothing_left W J 0 (the_pool M)"
  shows "mset (jobs_run (the_pool M)) = S + spawned body (jobs_run (the_pool M))"
proof -
  let ?P = "the_pool M"
  obtain st t where a: "account body b S (queues_of 1 M, st, t, i, 0) (in_hand 1 M) ?P" using m by (auto simp: machine_ok_def)
  obtain V where V: "view_ok b ?P V" "held 1 V + mset (jobs_run ?P) + in_hand 1 M = S + spawned body (jobs_run ?P)" "workers ?P = 1"
    using a by (auto elim!: accountE)
  have "in_hand 1 M = {#}" using l by (simp add: in_hand_def mine_of_def)
  moreover have "v_inj V = []" "v_inb V 0 = []" "v_slot V 0 = None" "aq_items (v_deq V 0) = []"
    using V(1,3) e mq_is_empty_law is_empty_law [of "deques ?P 0" None "v_deq V 0"] by (auto simp: view_ok_def nothing_left_def)
  then have "held 1 V = {#}" by (simp add: held_def)
  ultimately show ?thesis using V(2) by simp
qed

end

section \<open>Properties\<close>

lemma shut_down_leaves:
  assumes "with_tuning lifo_ops inj_ops i n cap t = Inr (P, i')" "body_ok B n body" "\<forall>(k, e) \<in> set es. event_valid n i e"
    "pool_schedule lifo_ops inj_ops body es \<lparr>the_pool = P, loops = \<lambda>_. None\<rparr> = Inr M"
    "loops M w \<noteq> None" "\<not> running (the_pool M)" "\<forall>j. (\<Sum>x \<in># calls_jobs (body j). cost x) < (cost j :: nat)"
    "schedule_cost B es + (3 * (\<Sum>x \<in># schedule_jobs es. cost x) + 3) * (B + 3) \<le> inj_limit"
  shows "\<exists>r M'. r \<le> 3 * (\<Sum>x \<in># schedule_jobs es. cost x) + 3 \<and>
    pool_schedule lifo_ops inj_ops body (map (\<lambda>x. (ks x, Iterate w)) [0..<r]) M = Inr M' \<and> loops M' w = None \<and>
    nothing_left lifo_ops inj_ops w (the_pool M') \<and> (\<exists>b. st3_pool.machine_ok body n i b (schedule_jobs es) M')"
proof -
  define K where "K = (\<Sum>x \<in># schedule_jobs es. cost x)"
  have m: "st3_pool.machine_ok body n i (schedule_cost B es) (schedule_jobs es) M"
    by (rule schedule_reaches [OF assms(1-4)]) (use assms(8) in simp)
  have r: "st3_pool.rank K w M \<le> 3 * K + 2"
  proof (cases "loops M w")
    case (Some L)
    have "level lifo_ops L (the_pool M) \<le> 2" by (rule st3_pool.level_le)
    moreover have "3 * (K - length (jobs_run (the_pool M))) \<le> 3 * K" by simp
    ultimately show ?thesis unfolding st3_pool.rank_def Some option.case by linarith
  qed (simp add: st3_pool.rank_def)
  have "schedule_cost B es + Suc (st3_pool.rank K w M) * (B + 3) \<le> schedule_cost B es + (3 * K + 3) * (B + 3)"
    using r by (intro add_left_mono mult_le_mono1) simp
  then have "schedule_cost B es + Suc (st3_pool.rank K w M) * (B + 3) \<le> inj_limit" using assms(8) K_def by simp
  from st3_pool.worker_leaves [OF m assms(2) assms(7) [rule_format] assms(5,6) K_def this, of ks]
  obtain x M' where "x \<le> Suc (st3_pool.rank K w M)" "pool_schedule lifo_ops inj_ops body (map (\<lambda>x. (ks x, Iterate w)) [0..<x]) M = Inr M'"
    "loops M' w = None" "nothing_left lifo_ops inj_ops w (the_pool M')" "\<exists>b. st3_pool.machine_ok body n i b (schedule_jobs es) M'" by blast
  then show ?thesis using r by (intro exI [of _ x] exI [of _ M']) (simp add: K_def)
qed

text \<open>
  C9. A worker of a pool that has been shut down leaves. Take a pool after any schedule at
  the end of which it is shut down and a thread is in the run loop of worker \<open>w\<close>; let jobs
  submit only jobs that cost less than they do. If from then on only that thread goes on, it is
  out of its loop after at most three iterations for every unit that the submitted jobs cost,
  and three more; no iteration of these faults. It leaves behind no job in its slot, in its
  inbox, in its deque or in the injector.
\<close>

theorem worker_leaves_after_shut_down:
  assumes "with_tuning lifo_ops inj_ops i n cap t = Inr (P, i')" "body_ok B n body" "\<forall>(k, e) \<in> set es. event_valid n i e"
    "pool_schedule lifo_ops inj_ops body es \<lparr>the_pool = P, loops = \<lambda>_. None\<rparr> = Inr M"
    "loops M w \<noteq> None" "\<not> running (the_pool M)" "\<forall>j. (\<Sum>x \<in># calls_jobs (body j). cost x) < (cost j :: nat)"
    "schedule_cost B es + (3 * (\<Sum>x \<in># schedule_jobs es. cost x) + 3) * (B + 3) \<le> inj_limit"
  shows "\<exists>r M'. r \<le> 3 * (\<Sum>x \<in># schedule_jobs es. cost x) + 3 \<and>
    pool_schedule lifo_ops inj_ops body (map (\<lambda>x. (ks x, Iterate w)) [0..<r]) M = Inr M' \<and> loops M' w = None \<and>
    nothing_left lifo_ops inj_ops w (the_pool M')"
  using shut_down_leaves [OF assms] by blast

lemma shut_down_example:
  obtains P M where "with_tuning lifo_ops (inj_ops :: (nat injector, nat) mpmc_ops) 5 1 4 tuning_default = Inr (P, 6)"
    "pool_schedule lifo_ops inj_ops (\<lambda>_. []) [(0, Outside (SubmitJob None 7)), (0, Enter \<lparr>runner_pool = 5, runner_id = 0\<rparr>), (0, Outside ShutDown)]
       \<lparr>the_pool = P, loops = \<lambda>_. None\<rparr> = Inr M"
    "loops M 0 \<noteq> None" "\<not> running (the_pool M)"
proof -
  obtain q :: "nat lifo_queue" where q: "lifo_new 4 = Inr q" using lifo_wq.new_law [of 4] by (auto simp: MAX_CAPACITY_def dest!: res_rel_InrD)
  obtain P where P: "with_tuning lifo_ops (inj_ops :: (nat injector, nat) mpmc_ops) 5 1 4 tuning_default = Inr (P, 6)"
    and p: "sleeping P = 0" "pool_injector P = mq_new inj_ops" "pool_id P = 5" "map loc_queue (locals P) = [Some 0]"
    using presets_ok(2) by (auto simp: with_tuning_def q tuning_ok_def word_gt_0)
  obtain Q where Q: "mq_push inj_ops 0 (mq_new inj_ops) 7 = Inr (Q :: nat injector)"
    using inj_mq.mq_push_law [OF inj_mq.mq_new_law, of 0 7] by (auto simp: inj_limit_def)
  have l: "get_local 0 (P\<lparr>pool_injector := Q\<rparr>) = Inr (locals P ! 0)" "loc_queue (locals P ! 0) = Some 0"
    using p(4) by (cases "locals P"; auto simp: get_local_def)+
  have u: "running (unpark_all ws P') = running P'" for ws and P' :: "(nat lifo_queue, nat injector, nat) pool"
    by (induction ws arbitrary: P') (simp_all add: unpark_def)
  show thesis
    using that [OF P]
    by (simp add: pool_push_def inject_def p Q [simplified] wake_def claim_sleeper_def run_start_def l take_queue_def set_local_def shut_down_def u Let_def)
qed

theorem worker_leaves_after_shut_down_witness:
  "\<exists>P M r M'. with_tuning lifo_ops (inj_ops :: (nat injector, nat) mpmc_ops) 5 1 4 tuning_default = Inr (P, 6) \<and>
    pool_schedule lifo_ops inj_ops (\<lambda>_. []) [(0, Outside (SubmitJob None 7)), (0, Enter \<lparr>runner_pool = 5, runner_id = 0\<rparr>), (0, Outside ShutDown)]
       \<lparr>the_pool = P, loops = \<lambda>_. None\<rparr> = Inr M \<and>
    pool_schedule lifo_ops inj_ops (\<lambda>_. []) (map (\<lambda>x. (x, Iterate 0)) [0..<r]) M = Inr M' \<and> r \<le> 6 \<and> loops M' 0 = None"
proof -
  obtain P M where PM: "with_tuning lifo_ops (inj_ops :: (nat injector, nat) mpmc_ops) 5 1 4 tuning_default = Inr (P, 6)"
    "pool_schedule lifo_ops inj_ops (\<lambda>_. []) [(0, Outside (SubmitJob None 7)), (0, Enter \<lparr>runner_pool = 5, runner_id = 0\<rparr>), (0, Outside ShutDown)]
       \<lparr>the_pool = P, loops = \<lambda>_. None\<rparr> = Inr M"
    "loops M 0 \<noteq> None" "\<not> running (the_pool M)" by (rule shut_down_example)
  have "body_ok 0 1 (\<lambda>_ :: nat. [])" by (simp add: body_ok_def)
  from worker_leaves_after_shut_down [OF PM(1) this _ PM(2-4), of "\<lambda>_. 1" "\<lambda>x. x"] PM
  show ?thesis by (fastforce simp: calls_jobs_def schedule_cost_def schedule_jobs_def inj_limit_def)
qed

text \<open>
  C20. The only worker of a pool runs every job before it leaves. In the same situation, in a
  pool with one worker: when its thread has left the loop, the jobs that were run are exactly
  the jobs that were submitted, from outside and by the jobs that were run, each once.
\<close>

theorem last_worker_runs_every_job:
  assumes "with_tuning lifo_ops inj_ops i 1 cap t = Inr (P, i')" "body_ok B 1 body" "\<forall>(k, e) \<in> set es. event_valid 1 i e"
    "pool_schedule lifo_ops inj_ops body es \<lparr>the_pool = P, loops = \<lambda>_. None\<rparr> = Inr M"
    "loops M 0 \<noteq> None" "\<not> running (the_pool M)" "\<forall>j. (\<Sum>x \<in># calls_jobs (body j). cost x) < (cost j :: nat)"
    "schedule_cost B es + (3 * (\<Sum>x \<in># schedule_jobs es. cost x) + 3) * (B + 3) \<le> inj_limit"
  shows "\<exists>r M'. pool_schedule lifo_ops inj_ops body (map (\<lambda>x. (ks x, Iterate 0)) [0..<r]) M = Inr M' \<and>
    mset (jobs_run (the_pool M')) = schedule_jobs es + spawned body (jobs_run (the_pool M'))"
proof -
  obtain r M' where "pool_schedule lifo_ops inj_ops body (map (\<lambda>x. (ks x, Iterate 0)) [0..<r]) M = Inr M'" "loops M' 0 = None"
    "nothing_left lifo_ops inj_ops 0 (the_pool M')" "\<exists>b. st3_pool.machine_ok body 1 i b (schedule_jobs es) M'"
    using shut_down_leaves [OF assms, of ks] by blast
  then show ?thesis using st3_pool.last_worker_ran_all by blast
qed

theorem last_worker_runs_every_job_witness:
  "\<exists>P M r M'. with_tuning lifo_ops (inj_ops :: (nat injector, nat) mpmc_ops) 5 1 4 tuning_default = Inr (P, 6) \<and>
    pool_schedule lifo_ops inj_ops (\<lambda>_. []) [(0, Outside (SubmitJob None 7)), (0, Enter \<lparr>runner_pool = 5, runner_id = 0\<rparr>), (0, Outside ShutDown)]
       \<lparr>the_pool = P, loops = \<lambda>_. None\<rparr> = Inr M \<and>
    pool_schedule lifo_ops inj_ops (\<lambda>_. []) (map (\<lambda>x. (x, Iterate 0)) [0..<r]) M = Inr M' \<and> jobs_run (the_pool M') = [7]"
proof -
  obtain P M where PM: "with_tuning lifo_ops (inj_ops :: (nat injector, nat) mpmc_ops) 5 1 4 tuning_default = Inr (P, 6)"
    "pool_schedule lifo_ops inj_ops (\<lambda>_. []) [(0, Outside (SubmitJob None 7)), (0, Enter \<lparr>runner_pool = 5, runner_id = 0\<rparr>), (0, Outside ShutDown)]
       \<lparr>the_pool = P, loops = \<lambda>_. None\<rparr> = Inr M"
    "loops M 0 \<noteq> None" "\<not> running (the_pool M)" by (rule shut_down_example)
  have b: "body_ok 0 1 (\<lambda>_ :: nat. [])" by (simp add: body_ok_def)
  have "spawned (\<lambda>_ :: nat. []) js = {#}" for js by (induction js) (simp_all add: spawned_def calls_jobs_def)
  with last_worker_runs_every_job [OF PM(1) b _ PM(2-4), of "\<lambda>_. 1" "\<lambda>x. x"] PM
  show ?thesis by (fastforce simp: calls_jobs_def schedule_cost_def schedule_jobs_def inj_limit_def)
qed

end
