(* ===== verification/Pool_Threads.thy ===== *)
theory Pool_Threads
  imports Pool_Jobs
begin

text \<open>
  The pool with all its threads at once. Every access of shared state is a step: the loads
  and exchanges of the sleep bitmap, of the warm slots, of \<^verbatim>\<open>running\<close> and of the search
  counter, the permits of the host, and each operation of an injector, an inbox or a sharing
  deque. The steps of the workers and of any number of other threads interleave. A thread is
  the list of accesses its current call still makes; a worker also has its place in the run
  loop of \<^verbatim>\<open>src/src/fanout/mod.rs\<close>. The accesses are sequentially consistent, as the
  \<^verbatim>\<open>SeqCst\<close> operations and fences of the sleep protocol are.

  The queues are what \<open>Lifo\<close> and \<open>Injector\<close> implement: first-in first-out lists, and a
  bounded deque whose owner works at the back. The host is the permit protocol of
  \<open>Atomic_Host\<close>, with the spurious returns \<^verbatim>\<open>trait Host\<close> allows.
\<close>

section \<open>State\<close>

record 'j shared =
  inj :: "'j list"
  inbox :: "nat \<Rightarrow> 'j list"
  slot :: "nat \<Rightarrow> 'j option"
  deque :: "nat \<Rightarrow> 'j list"
  bitmap :: usize
  up :: bool
  searchers :: nat
  permitted :: "nat \<Rightarrow> bool"
  finished :: "'j list"

record 'j config =
  tun :: tuning
  crew :: nat
  cap :: nat
  clients :: nat
  work :: "'j \<Rightarrow> 'j pool_call list"

section \<open>Calls\<close>

text \<open>The accesses of a call, in order; an access may put others in its place.\<close>

datatype 'j access =
    Inject 'j
  | Wake "nat option" | WakeClaim "nat option" nat
  | Unpark nat
  | SwapSlot nat 'j | Displace nat 'j | PushInbox nat 'j
  | WakeSpecific nat | WakeSpecificClaim nat
  | Nudge "nat option" nat | NudgeClaim "nat option" nat nat
  | Stop

fun call_code :: "'j config \<Rightarrow> 'j pool_call \<Rightarrow> 'j access list" where
  "call_code C (SubmitJob hint job) = [Inject job, Wake hint]"
| "call_code C (SubmitLocal w job) =
     (if local_wakes (tun C) then [SwapSlot w job] else [Inject job, Wake None])"
| "call_code C ShutDown = Stop # map Unpark [0..<crew C]"

definition clear_bit :: "nat \<Rightarrow> 'j shared \<Rightarrow> 'j shared" where
  "clear_bit w s = s\<lparr>bitmap := unset_bit w (bitmap s)\<rparr>"

definition spared :: "nat option \<Rightarrow> usize \<Rightarrow> usize" where
  "spared except s = (case except of None \<Rightarrow> s | Some i \<Rightarrow> unset_bit i s)"

fun call_step :: "'j config \<Rightarrow> 'j access \<Rightarrow> 'j shared \<Rightarrow> 'j access list \<times> 'j shared" where
  "call_step C (Inject job) s = ([], s\<lparr>inj := inj s @ [job]\<rparr>)"
| "call_step C (Wake hint) s =
     (if bitmap s = 0 then (case hint of None \<Rightarrow> [] | Some w \<Rightarrow> [Unpark w], s)
      else ([WakeClaim hint (trailing_zeros (bitmap s))], s))"
| "call_step C (WakeClaim hint c) s =
     (if bit (bitmap s) c then [Unpark c] else [Wake hint], clear_bit c s)"
| "call_step C (Unpark w) s = ([], s\<lparr>permitted := (permitted s)(w := True)\<rparr>)"
| "call_step C (SwapSlot w job) s =
     ((case slot s w of
         None \<Rightarrow> [WakeSpecific w]
       | Some displaced \<Rightarrow>
           if stealable_inbox (tun C) then [PushInbox w displaced, WakeSpecific w, Nudge (Some w) 1]
           else if share_displaced (tun C) then [Displace w displaced, WakeSpecific w]
           else [PushInbox w displaced, WakeSpecific w]),
      s\<lparr>slot := (slot s)(w := Some job)\<rparr>)"
| "call_step C (Displace w displaced) s =
     (if inbox s w \<noteq> [] then [Inject displaced] else [PushInbox w displaced], s)"
| "call_step C (PushInbox w job) s = ([], s\<lparr>inbox := (inbox s)(w := inbox s w @ [job])\<rparr>)"
| "call_step C (WakeSpecific w) s = (if bit (bitmap s) w then [WakeSpecificClaim w] else [], s)"
| "call_step C (WakeSpecificClaim w) s = (if bit (bitmap s) w then [Unpark w] else [], clear_bit w s)"
| "call_step C (Nudge except wanted) s =
     (if wanted = 0 \<or> spared except (bitmap s) = 0 then []
      else [NudgeClaim except wanted (trailing_zeros (spared except (bitmap s)))], s)"
| "call_step C (NudgeClaim except wanted c) s =
     (if bit (bitmap s) c then [Unpark c, Nudge except (wanted - 1)] else [Nudge except wanted], clear_bit c s)"
| "call_step C Stop s = ([], s\<lparr>up := False\<rparr>)"

section \<open>The run loop\<close>

text \<open>The local variables; \<open>taken\<close> and \<open>moved\<close> count within one call or loop.\<close>

record 'j vars =
  own :: "'j list"
  until :: nat
  rounds :: nat
  slot_run :: nat
  seed :: ulong
  taken :: nat
  moved :: nat

text \<open>
  The places in the loop, each with the next access a worker makes there. \<open>x\<close> says whether
  the slot's budget was exhausted at the top of the iteration. A sweep over the victims is
  either a hunt in the loop or the last look before a park; taking from the injector is
  either part of the fairness boundary or the refill; sharing follows the heartbeat, with the
  job to run next, or the refill.
\<close>

datatype sweep = Hunt bool | LastLook
datatype 'j sharing = Heartbeat 'j | Refill

datatype 'j place =
    Top
  | Publish bool | PublishTake bool bool | PublishLen bool bool
  | TakeBoundary bool
  | Take bool bool nat | Len bool bool
  | Mine bool
  | Promote 'j | Share nat "'j sharing" | ShareDone "'j sharing"
  | Run 'j | Finish
  | InboxRun bool | MoveInbox bool nat
  | Queue bool
  | Search bool
  | StealNext "nat list" sweep | StealInbox nat "nat list" sweep | StealDeque nat "nat list" sweep
  | Keep 'j sweep
  | SearchEnd bool bool
  | Refilled bool
  | Ready bool
  | Running
  | Announce | CheckInjector | CheckInbox | CheckSlot
  | Unannounce
  | Running2 | Park | Resume
  | ClearExit | Exit | Gone

text \<open>Where a sweep goes on when it has found nothing.\<close>

fun sweep_failed :: "sweep \<Rightarrow> 'j place" where
  "sweep_failed (Hunt x) = SearchEnd x False"
| "sweep_failed LastLook = Running2"

fun sweep_found :: "sweep \<Rightarrow> 'j place" where
  "sweep_found (Hunt x) = SearchEnd x True"
| "sweep_found LastLook = Unannounce"

fun shared_next :: "'j sharing \<Rightarrow> 'j place" where
  "shared_next (Heartbeat job) = Run job"
| "shared_next Refill = Top"

definition start_share :: "'j sharing \<Rightarrow> 'j vars \<Rightarrow> 'j place \<times> 'j vars" where
  "start_share r v =
     (if length (own v) < 2 then (shared_next r, v) else (Share (length (own v) div 2) r, v\<lparr>moved := 0\<rparr>))"

definition sweep_offsets :: "'j config \<Rightarrow> ulong \<Rightarrow> nat list" where
  "sweep_offsets C r = map (\<lambda>i. (unat (r mod word_of_nat (crew C)) + i) mod crew C) [0..<crew C]"

definition start_sweep :: "'j config \<Rightarrow> sweep \<Rightarrow> 'j vars \<Rightarrow> 'j place \<times> 'j vars" where
  "start_sweep C q v =
     (if crew C < 2 then (sweep_failed q, v)
      else let r = next_rng (seed v) in (StealNext (sweep_offsets C r) q, v\<lparr>seed := r\<rparr>))"

text \<open>How many items a steal moves: half of the victim's, at most what the thief has room for.\<close>

definition steal_amount :: "'j config \<Rightarrow> 'j list \<Rightarrow> 'j list \<Rightarrow> nat" where
  "steal_amount C ours theirs = min ((min (length theirs) 32 + 1) div 2) (cap C - length ours)"

fun place_step ::
  "'j config \<Rightarrow> nat \<Rightarrow> 'j place \<Rightarrow> 'j vars \<Rightarrow> 'j shared \<Rightarrow> 'j access list \<times> 'j place \<times> 'j vars \<times> 'j shared" where
  "place_step C w Top v s =
     (if slot_run v < unat (lifo_run_limit (tun C))
      then case slot s w of
          Some job \<Rightarrow> ([], Run job, v\<lparr>slot_run := slot_run v + 1, rounds := 0\<rparr>, s\<lparr>slot := (slot s)(w := None)\<rparr>)
        | None \<Rightarrow> ([], Publish False, v\<lparr>slot_run := 0\<rparr>, s)
      else ([], Publish (slot_run v = unat (lifo_run_limit (tun C))), v\<lparr>slot_run := 0\<rparr>, s))"
| "place_step C w (Publish x) v s =
     (if x \<and> stealable_inbox (tun C) then ([], PublishTake x (own v \<noteq> [] \<or> deque s w \<noteq> []), v, s)
      else ([], TakeBoundary x, v, s))"
| "place_step C w (PublishTake x other) v s =
     (case slot s w of
        None \<Rightarrow> ([], TakeBoundary x, v, s)
      | Some job \<Rightarrow> ([PushInbox w job], PublishLen x other, v, s\<lparr>slot := (slot s)(w := None)\<rparr>))"
| "place_step C w (PublishLen x other) v s =
     (if other \<or> length (inbox s w) > 1 then [Nudge (Some w) 1] else [], TakeBoundary x, v, s)"
| "place_step C w (TakeBoundary x) v s =
     (if x \<and> share_displaced (tun C) then ([], Take True x (unat (injector_batch (tun C))), v\<lparr>taken := 0\<rparr>, s)
      else ([], Mine x, v, s))"
| "place_step C w (Take b x 0) v s = ([], Len b x, v, s)"
| "place_step C w (Take b x (Suc left)) v s =
     (case inj s of
        [] \<Rightarrow> ([], Len b x, v, s)
      | job # rest \<Rightarrow>
          ([], Take b x left, v\<lparr>own := own v @ [job], taken := taken v + 1\<rparr>, s\<lparr>inj := rest\<rparr>))"
| "place_step C w (Len b x) v s =
     (if inj s \<noteq> [] then [Nudge None (min (length (inj s)) (crew C))] else [],
      if b then Mine x else Refilled x, v, s)"
| "place_step C w (Mine x) v s =
     (if own v = [] then ([], InboxRun x, v, s)
      else
        let job = last (own v); v' = v\<lparr>own := butlast (own v), rounds := 0\<rparr> in
        if until v = 1 then ([], Promote job, v'\<lparr>until := unat (promote_every (tun C))\<rparr>, s)
        else ([], Run job, v'\<lparr>until := until v - 1\<rparr>, s))"
| "place_step C w (Promote job) v s =
     (if bitmap s = 0 then ([], Run job, v, s)
      else let (p, v') = start_share (Heartbeat job) v in ([], p, v', s))"
| "place_step C w (Share 0 r) v s = ([], ShareDone r, v, s)"
| "place_step C w (Share (Suc left) r) v s =
     (case own v of
        [] \<Rightarrow> ([], ShareDone r, v, s)
      | job # rest \<Rightarrow>
          if length (deque s w) < cap C
          then ([], Share left r, v\<lparr>own := rest, moved := moved v + 1\<rparr>, s\<lparr>deque := (deque s)(w := deque s w @ [job])\<rparr>)
          else ([], ShareDone r, v, s))"
| "place_step C w (ShareDone r) v s =
     (if moved v > 0 then [Nudge (Some w) (moved v)] else [], shared_next r, v, s)"
| "place_step C w (Run job) v s =
     (concat (map (call_code C) (work C job)), Finish, v, s\<lparr>finished := finished s @ [job]\<rparr>)"
| "place_step C w Finish v s = ([], Top, v, s)"
| "place_step C w (InboxRun x) v s =
     (if stealable_inbox (tun C)
      then case inbox s w of
          job # rest \<Rightarrow> ([], Run job, v\<lparr>rounds := 0\<rparr>, s\<lparr>inbox := (inbox s)(w := rest)\<rparr>)
        | [] \<Rightarrow> ([], Queue x, v, s)
      else ([], MoveInbox x (unat (promote_every (tun C)) - 1), v\<lparr>moved := 0\<rparr>, s))"
| "place_step C w (MoveInbox x left) v s =
     (case inbox s w of
        [] \<Rightarrow> if moved v > 0 then ([], Top, v\<lparr>rounds := 0\<rparr>, s) else ([], Queue x, v, s)
      | job # rest \<Rightarrow>
          ([], if left = 0 then Top else MoveInbox x (left - 1),
           v\<lparr>own := own v @ [job], moved := moved v + 1, rounds := (if left = 0 then 0 else rounds v)\<rparr>,
           s\<lparr>inbox := (inbox s)(w := rest)\<rparr>))"
| "place_step C w (Queue x) v s =
     (if deque s w = [] then ([], Search x, v, s)
      else ([], Run (last (deque s w)), v\<lparr>rounds := 0\<rparr>, s\<lparr>deque := (deque s)(w := butlast (deque s w))\<rparr>))"
| "place_step C w (Search x) v s =
     (if crew C < 2 then let (p, v') = start_sweep C (Hunt x) v in ([], p, v', s)
      else if searchers s * 2 \<ge> crew C then ([], SearchEnd x False, v, s\<lparr>searchers := searchers s + 1\<rparr>)
      else let (p, v') = start_sweep C (Hunt x) v in ([], p, v', s\<lparr>searchers := searchers s + 1\<rparr>))"
| "place_step C w (StealNext [] q) v s = ([], sweep_failed q, v, s)"
| "place_step C w (StealNext (victim # os) q) v s =
     (if victim = w then ([], StealNext os q, v, s)
      else if stealable_inbox (tun C) then ([], StealInbox victim os q, v, s)
      else ([], StealDeque victim os q, v, s))"
| "place_step C w (StealInbox victim os q) v s =
     (case inbox s victim of
        job # rest \<Rightarrow> ([], Keep job q, v, s\<lparr>inbox := (inbox s)(victim := rest)\<rparr>)
      | [] \<Rightarrow> ([], StealDeque victim os q, v, s))"
| "place_step C w (Keep job q) v s =
     (if length (deque s w) < cap C
      then ([], sweep_found q, v, s\<lparr>deque := (deque s)(w := deque s w @ [job])\<rparr>)
      else ([Inject job, Wake (Some w)], sweep_found q, v, s))"
| "place_step C w (StealDeque victim os q) v s =
     (let k = steal_amount C (deque s w) (deque s victim) in
      if k = 0 then ([], StealNext os q, v, s)
      else
        (if k > 1 then [Nudge (Some w) 1] else [], sweep_found q, v,
         s\<lparr>deque := (deque s)(victim := drop k (deque s victim), w := deque s w @ take k (deque s victim))\<rparr>))"
| "place_step C w (SearchEnd x found) v s =
     (let s' = (if crew C < 2 then s else s\<lparr>searchers := searchers s - 1\<rparr>) in
      if found then ([], Top, v\<lparr>rounds := 0\<rparr>, s')
      else ([], Take False x (unat (injector_batch (tun C))), v\<lparr>taken := 0\<rparr>, s'))"
| "place_step C w (Refilled x) v s =
     (if taken v > 0
      then let (p, v') = start_share Refill (v\<lparr>rounds := 0, until := unat (promote_every (tun C))\<rparr>) in ([], p, v', s)
      else ([], Ready x, v, s))"
| "place_step C w (Ready x) v s =
     (if x
      then case slot s w of
          Some job \<Rightarrow> ([], Run job, v\<lparr>slot_run := 1, rounds := 0\<rparr>, s\<lparr>slot := (slot s)(w := None)\<rparr>)
        | None \<Rightarrow> ([], Running, v, s)
      else ([], Running, v, s))"
| "place_step C w Running v s =
     (if \<not> up s then ([], Exit, v, s)
      else if rounds v < unat (rounds_before_park (tun C)) then ([], Top, v\<lparr>rounds := rounds v + 1\<rparr>, s)
      else ([], Announce, v, s))"
| "place_step C w Announce v s = ([], CheckInjector, v, s\<lparr>bitmap := set_bit w (bitmap s)\<rparr>)"
| "place_step C w CheckInjector v s = ([], if inj s \<noteq> [] then Unannounce else CheckInbox, v, s)"
| "place_step C w CheckInbox v s = ([], if inbox s w \<noteq> [] then Unannounce else CheckSlot, v, s)"
| "place_step C w CheckSlot v s =
     (if slot s w \<noteq> None then ([], Unannounce, v, s)
      else let (p, v') = start_sweep C LastLook v in ([], p, v', s))"
| "place_step C w Unannounce v s = ([], Top, v, clear_bit w s)"
| "place_step C w Running2 v s = ([], if up s then Park else ClearExit, v, s)"
| "place_step C w Park v s = ([], Park, v, s)"
| "place_step C w Resume v s = ([], Top, v\<lparr>rounds := 0\<rparr>, clear_bit w s)"
| "place_step C w ClearExit v s = ([], Exit, v, clear_bit w s)"
| "place_step C w Exit v s = (map Inject (own v), Gone, v\<lparr>own := []\<rparr>, s)"
| "place_step C w Gone v s = ([], Gone, v, s)"

section \<open>All threads\<close>

text \<open>
  The workers run their loops; the other threads call the pool. \<open>handed\<close> records the calls
  of the other threads. While a thief is still copying out of a sharing deque, the deque has
  less room than its contents leave, and a second thief is turned away: \<open>loop\<close> lets a deque
  show any room up to its capacity, and \<open>busy\<close> is \<^verbatim>\<open>StealError::Busy\<close>.
\<close>

datatype thread = Worker nat | Other nat

record 'j sys =
  sh :: "'j shared"
  th :: "thread \<Rightarrow> 'j access list"
  pl :: "nat \<Rightarrow> 'j place"
  lv :: "nat \<Rightarrow> 'j vars"
  handed :: "'j pool_call list"

definition first_seed :: "nat \<Rightarrow> ulong" where
  "first_seed w = 0x2545F4914F6CDD1D XOR (word_of_nat w * 0x9E3779B97F4A7C15)"

definition sys_new :: "'j config \<Rightarrow> 'j sys" where
  "sys_new C =
     \<lparr>sh = \<lparr>inj = [], inbox = (\<lambda>_. []), slot = (\<lambda>_. None), deque = (\<lambda>_. []), bitmap = 0, up = True, searchers = 0,
            permitted = (\<lambda>_. False), finished = []\<rparr>,
      th = (\<lambda>_. []), pl = (\<lambda>_. Top),
      lv = (\<lambda>w. \<lparr>own = [], until = unat (promote_every (tun C)), rounds = 0, slot_run = 0, seed = first_seed w,
                   taken = 0, moved = 0\<rparr>),
      handed = []\<rparr>"

inductive sys_step :: "'j config \<Rightarrow> 'j sys \<Rightarrow> 'j sys \<Rightarrow> bool" for C where
  call: "k < clients C \<Longrightarrow> th s (Other k) = [] \<Longrightarrow> call_valid (crew C) c \<Longrightarrow>
    sys_step C s (s\<lparr>th := (th s)(Other k := call_code C c), handed := handed s @ [c]\<rparr>)"
| access: "th s t = a # rest \<Longrightarrow> call_step C a (sh s) = (new, s') \<Longrightarrow>
    sys_step C s (s\<lparr>sh := s', th := (th s)(t := new @ rest)\<rparr>)"
| loop: "w < crew C \<Longrightarrow> th s (Worker w) = [] \<Longrightarrow> n \<le> cap C \<Longrightarrow>
    place_step (C\<lparr>cap := n\<rparr>) w (pl s w) (lv s w) (sh s) = (cs, p, v, s') \<Longrightarrow>
    sys_step C s (s\<lparr>sh := s', th := (th s)(Worker w := cs), pl := (pl s)(w := p), lv := (lv s)(w := v)\<rparr>)"
| woken: "w < crew C \<Longrightarrow> th s (Worker w) = [] \<Longrightarrow> pl s w = Park \<Longrightarrow> permitted (sh s) w \<Longrightarrow>
    sys_step C s (s\<lparr>sh := (sh s)\<lparr>permitted := (permitted (sh s))(w := False)\<rparr>, pl := (pl s)(w := Resume)\<rparr>)"
| spurious: "w < crew C \<Longrightarrow> th s (Worker w) = [] \<Longrightarrow> pl s w = Park \<Longrightarrow>
    sys_step C s (s\<lparr>pl := (pl s)(w := Resume)\<rparr>)"
| busy: "w < crew C \<Longrightarrow> th s (Worker w) = [] \<Longrightarrow> pl s w = StealDeque victim os q \<Longrightarrow>
    sys_step C s (s\<lparr>pl := (pl s)(w := StealNext os q)\<rparr>)"

inductive_cases sys_stepE: "sys_step C s s'"

inductive sys_reach :: "'j config \<Rightarrow> 'j sys \<Rightarrow> bool" for C where
  init: "sys_reach C (sys_new C)"
| step: "sys_reach C s \<Longrightarrow> sys_step C s s' \<Longrightarrow> sys_reach C s'"

definition config_ok :: "'j config \<Rightarrow> bool" where
  "config_ok C \<longleftrightarrow> 0 < crew C \<and> crew C \<le> 64 \<and> tuning_ok (tun C) \<and> (\<forall>j. \<forall>c \<in> set (work C j). call_valid (crew C) c)"

section \<open>Running a schedule\<close>

datatype 'j move = Call nat "'j pool_call" | Access thread | Loop nat nat | Woken nat | SpuriousReturn nat | BusySteal nat

fun sys_do :: "'j config \<Rightarrow> 'j move \<Rightarrow> 'j sys \<Rightarrow> 'j sys option" where
  "sys_do C (Call k c) s =
     (if k < clients C \<and> th s (Other k) = [] \<and> call_valid (crew C) c
      then Some (s\<lparr>th := (th s)(Other k := call_code C c), handed := handed s @ [c]\<rparr>) else None)"
| "sys_do C (Access t) s =
     (case th s t of
        [] \<Rightarrow> None
      | a # rest \<Rightarrow> (case call_step C a (sh s) of (new, s') \<Rightarrow> Some (s\<lparr>sh := s', th := (th s)(t := new @ rest)\<rparr>)))"
| "sys_do C (Loop w n) s =
     (if w < crew C \<and> th s (Worker w) = [] \<and> n \<le> cap C
      then case place_step (C\<lparr>cap := n\<rparr>) w (pl s w) (lv s w) (sh s) of (cs, p, v, s') \<Rightarrow>
        Some (s\<lparr>sh := s', th := (th s)(Worker w := cs), pl := (pl s)(w := p), lv := (lv s)(w := v)\<rparr>)
      else None)"
| "sys_do C (Woken w) s =
     (if w < crew C \<and> th s (Worker w) = [] \<and> pl s w = Park \<and> permitted (sh s) w
      then Some (s\<lparr>sh := (sh s)\<lparr>permitted := (permitted (sh s))(w := False)\<rparr>, pl := (pl s)(w := Resume)\<rparr>) else None)"
| "sys_do C (SpuriousReturn w) s =
     (if w < crew C \<and> th s (Worker w) = [] \<and> pl s w = Park then Some (s\<lparr>pl := (pl s)(w := Resume)\<rparr>) else None)"
| "sys_do C (BusySteal w) s =
     (if w < crew C \<and> th s (Worker w) = []
      then case pl s w of StealDeque victim os q \<Rightarrow> Some (s\<lparr>pl := (pl s)(w := StealNext os q)\<rparr>) | _ \<Rightarrow> None
      else None)"

fun sys_run :: "'j config \<Rightarrow> 'j move list \<Rightarrow> 'j sys \<Rightarrow> 'j sys option" where
  "sys_run C [] s = Some s"
| "sys_run C (m # ms) s = (case sys_do C m s of None \<Rightarrow> None | Some s' \<Rightarrow> sys_run C ms s')"

lemma sys_do_step: "sys_do C m s = Some s' \<Longrightarrow> sys_step C s s'"
  by (cases m) (auto intro: sys_step.intros split: if_splits list.splits prod.splits place.splits)

lemma sys_run_reach: "sys_reach C s \<Longrightarrow> sys_run C ms s = Some s' \<Longrightarrow> sys_reach C s'"
proof (induction ms arbitrary: s)
  case (Cons m ms)
  then obtain s1 where s1: "sys_do C m s = Some s1" "sys_run C ms s1 = Some s'" by (auto split: option.splits)
  show ?case using Cons.IH [OF sys_reach.step [OF Cons.prems(1) sys_do_step [OF s1(1)]] s1(2)] .
qed simp

text \<open>The threads there are: only they are ever inside a call.\<close>

definition threads :: "'j config \<Rightarrow> thread set" where
  "threads C = Worker ` {..<crew C} \<union> Other ` {..<clients C}"

lemma finite_threads [simp]: "finite (threads C)"
  by (simp add: threads_def)

lemma known_threads: "sys_reach C s \<Longrightarrow> th s t \<noteq> [] \<Longrightarrow> t \<in> threads C"
proof (induction arbitrary: t rule: sys_reach.induct)
  case init
  then show ?case by (simp add: sys_new_def)
next
  case (step s s')
  from step.hyps(2) show ?case
    by cases (use step.IH step.prems in \<open>auto simp: threads_def split: if_splits\<close>)
qed

end
