(* ===== verification/Pool_Wakeups.thy ===== *)
theory Pool_Wakeups
  imports Pool_Threads
begin

text \<open>
  The sleep protocol of the pool: work that is published is never left to workers that sleep.
  A worker sets its bit in the bitmap and then looks at every source of work; whoever
  publishes work does so first and then looks at the bitmap. The invariant says, for every
  source that holds work, who will see to it.
\<close>

section \<open>Who is responsible\<close>

definition pending :: "('j access \<Rightarrow> bool) \<Rightarrow> (thread \<Rightarrow> 'j access list) \<Rightarrow> bool" where
  "pending Q T \<longleftrightarrow> (\<exists>t. \<exists>a \<in> set (T t). Q a)"

abbreviation unpark_due :: "nat \<Rightarrow> (thread \<Rightarrow> 'j access list) \<Rightarrow> bool" where
  "unpark_due w \<equiv> pending (\<lambda>a. a = Unpark w)"

abbreviation owner_wake_due :: "nat \<Rightarrow> (thread \<Rightarrow> 'j access list) \<Rightarrow> bool" where
  "owner_wake_due w \<equiv> pending (\<lambda>a. a = WakeSpecific w \<or> a = WakeSpecificClaim w)"

abbreviation any_wake_due :: "(thread \<Rightarrow> 'j access list) \<Rightarrow> bool" where
  "any_wake_due \<equiv> pending (\<lambda>a. \<exists>h c. a = Wake h \<or> a = WakeClaim h c)"

lemma pending_upd:
  "pending Q (T(t := c)) \<longleftrightarrow> (\<exists>a \<in> set c. Q a) \<or> (\<exists>u. u \<noteq> t \<and> (\<exists>a \<in> set (T u). Q a))"
  by (auto simp: pending_def)

lemma pending_access:
  assumes "pending Q T" "T t = a # rest" "Q a \<Longrightarrow> \<exists>b \<in> set new. Q b"
  shows "pending Q (T(t := new @ rest))"
proof -
  obtain u b where b: "b \<in> set (T u)" "Q b" using assms(1) by (auto simp: pending_def)
  show ?thesis
  proof (cases "u = t")
    case True
    then show ?thesis using b assms(2,3) by (auto simp: pending_upd)
  next
    case False
    then show ?thesis using b by (auto simp: pending_upd)
  qed
qed

lemma pending_start: "pending Q T \<Longrightarrow> T t = [] \<Longrightarrow> pending Q (T(t := c))"
  by (auto simp: pending_def) (metis empty_iff list.set(1))

lemma pending_new: "a \<in> set c \<Longrightarrow> Q a \<Longrightarrow> pending Q (T(t := c))"
  by (auto simp: pending_upd)

text \<open>
  How many sources of work a worker has already found empty since it announced its sleep: the
  injector, its inbox, its slot.
\<close>

fun past_checks :: "'j place \<Rightarrow> nat" where
  "past_checks CheckInbox = 1"
| "past_checks CheckSlot = 2"
| "past_checks (StealNext os LastLook) = 3"
| "past_checks (StealInbox victim os LastLook) = 3"
| "past_checks (StealDeque victim os LastLook) = 3"
| "past_checks Running2 = 3"
| "past_checks Park = 3"
| "past_checks _ = 0"

definition announced :: "'j place \<Rightarrow> bool" where
  "announced p \<longleftrightarrow> p = CheckInjector \<or> past_checks p > 0"

text \<open>
  A worker is alert when it will look at everything again before it sleeps, or will be woken.
\<close>

definition alert :: "'j sys \<Rightarrow> nat \<Rightarrow> bool" where
  "alert s w \<longleftrightarrow> past_checks (pl s w) = 0 \<or> permitted (sh s) w \<or> unpark_due w (th s)"

text \<open>The order of accesses in a call: work is published before somebody is woken for it.\<close>

fun code_ok :: "nat \<Rightarrow> thread \<Rightarrow> 'j access list \<Rightarrow> bool" where
  "code_ok n t [] \<longleftrightarrow> True"
| "code_ok n t (Inject j # c) \<longleftrightarrow> (\<exists>d. (\<exists>h. c = Wake h # d) \<or> (\<exists>w < n. c = WakeSpecific w # d)) \<and> code_ok n t c"
| "code_ok n t (PushInbox w j # c) \<longleftrightarrow> w < n \<and> ((\<exists>d. c = WakeSpecific w # d) \<or> t = Worker w) \<and> code_ok n t c"
| "code_ok n t (Displace w j # c) \<longleftrightarrow> w < n \<and> (\<exists>d. c = WakeSpecific w # d) \<and> code_ok n t c"
| "code_ok n t (SwapSlot w j # c) \<longleftrightarrow> w < n \<and> code_ok n t c"
| "code_ok n t (WakeSpecific w # c) \<longleftrightarrow> w < n \<and> code_ok n t c"
| "code_ok n t (WakeSpecificClaim w # c) \<longleftrightarrow> w < n \<and> code_ok n t c"
| "code_ok n t (_ # c) \<longleftrightarrow> code_ok n t c"

text \<open>What a worker holds itself, by its place in the loop.\<close>

fun empty_handed :: "'j place \<Rightarrow> 'j vars \<Rightarrow> 'j list \<Rightarrow> bool" where
  "empty_handed (InboxRun x) v d \<longleftrightarrow> own v = []"
| "empty_handed (MoveInbox x left) v d \<longleftrightarrow> (moved v = 0 \<longrightarrow> own v = [])"
| "empty_handed (Queue x) v d \<longleftrightarrow> own v = []"
| "empty_handed (Search x) v d \<longleftrightarrow> own v = [] \<and> d = []"
| "empty_handed (StealNext os q) v d \<longleftrightarrow> own v = [] \<and> d = []"
| "empty_handed (StealInbox victim os q) v d \<longleftrightarrow> own v = [] \<and> d = []"
| "empty_handed (StealDeque victim os q) v d \<longleftrightarrow> own v = [] \<and> d = []"
| "empty_handed (Keep j q) v d \<longleftrightarrow> own v = [] \<and> d = []"
| "empty_handed (SearchEnd x found) v d \<longleftrightarrow> (\<not> found \<longrightarrow> own v = [] \<and> d = [])"
| "empty_handed (Take b x left) v d \<longleftrightarrow> (\<not> b \<longrightarrow> d = [] \<and> (taken v = 0 \<longrightarrow> own v = []))"
| "empty_handed (Len b x) v d \<longleftrightarrow> (\<not> b \<longrightarrow> d = [] \<and> (taken v = 0 \<longrightarrow> own v = []))"
| "empty_handed (Refilled x) v d \<longleftrightarrow> d = [] \<and> (taken v = 0 \<longrightarrow> own v = [])"
| "empty_handed (Ready x) v d \<longleftrightarrow> own v = [] \<and> d = []"
| "empty_handed Running v d \<longleftrightarrow> own v = [] \<and> d = []"
| "empty_handed Announce v d \<longleftrightarrow> own v = [] \<and> d = []"
| "empty_handed CheckInjector v d \<longleftrightarrow> own v = [] \<and> d = []"
| "empty_handed CheckInbox v d \<longleftrightarrow> own v = [] \<and> d = []"
| "empty_handed CheckSlot v d \<longleftrightarrow> own v = [] \<and> d = []"
| "empty_handed Running2 v d \<longleftrightarrow> own v = [] \<and> d = []"
| "empty_handed Park v d \<longleftrightarrow> own v = [] \<and> d = []"
| "empty_handed ClearExit v d \<longleftrightarrow> own v = [] \<and> d = []"
| "empty_handed Exit v d \<longleftrightarrow> own v = [] \<and> d = []"
| "empty_handed _ v d \<longleftrightarrow> True"

definition sleep_inv :: "'j config \<Rightarrow> 'j sys \<Rightarrow> bool" where
  "sleep_inv C s \<longleftrightarrow>
     (\<forall>t. code_ok (crew C) t (th s t)) \<and>
     (\<forall>w. th s (Worker w) \<noteq> [] \<longrightarrow> past_checks (pl s w) = 0) \<and>
     (\<forall>w. bit (bitmap (sh s)) w \<longrightarrow> w < crew C) \<and>
     (\<forall>w < crew C. announced (pl s w) \<longrightarrow> bit (bitmap (sh s)) w \<or> permitted (sh s) w \<or> unpark_due w (th s)) \<and>
     (inj (sh s) \<noteq> [] \<longrightarrow> any_wake_due (th s) \<or> (\<exists>w < crew C. alert s w \<or> owner_wake_due w (th s))) \<and>
     (\<forall>w < crew C. inbox (sh s) w \<noteq> [] \<longrightarrow> past_checks (pl s w) \<le> 1 \<or> alert s w \<or> owner_wake_due w (th s)) \<and>
     (\<forall>w < crew C. slot (sh s) w \<noteq> None \<longrightarrow> past_checks (pl s w) \<le> 2 \<or> alert s w \<or> owner_wake_due w (th s)) \<and>
     (\<forall>w < crew C. empty_handed (pl s w) (lv s w) (deque (sh s) w))"

section \<open>Accesses\<close>

lemma code_ok_append: "code_ok n t (a @ b) \<Longrightarrow> code_ok n t b"
  by (induction n t a rule: code_ok.induct) auto

lemma call_code_ok: "call_valid n c \<Longrightarrow> code_ok n t (call_code C c)"
proof (cases c)
  case ShutDown
  have "code_ok n t (map Unpark ws)" for ws by (induction ws) auto
  then show ?thesis by (simp add: ShutDown)
qed auto

text \<open>One access keeps the order of the rest.\<close>

lemma call_step_code:
  assumes "code_ok n t (a # rest)" "call_step C a s = (new, s')"
  shows "code_ok n t (new @ rest)"
  using assms by (cases a) (auto split: option.splits if_splits)

lemma call_step_covers:
  assumes "call_step C a s = (new, s')" "bit (bitmap s) w \<or> permitted s w \<or> a = Unpark w"
  shows "bit (bitmap s') w \<or> permitted s' w \<or> Unpark w \<in> set new"
  using assms by (cases a) (auto simp: clear_bit_def bit_unset_bit_iff split: if_splits option.splits)

lemma call_step_bits:
  assumes "call_step C a s = (new, s')"
  shows "bit (bitmap s') w \<Longrightarrow> bit (bitmap s) w" and "deque s' = deque s"
    and "permitted s w \<Longrightarrow> permitted s' w" and "a = Unpark w \<Longrightarrow> permitted s' w"
    and "inj s' \<noteq> [] \<Longrightarrow> inj s = [] \<Longrightarrow> \<exists>j. a = Inject j"
    and "inbox s' w \<noteq> [] \<Longrightarrow> inbox s w = [] \<Longrightarrow> \<exists>j. a = PushInbox w j"
    and "slot s' w \<noteq> None \<Longrightarrow> slot s w = None \<Longrightarrow> WakeSpecific w \<in> set new"
  using assms by (cases a; auto simp: clear_bit_def bit_unset_bit_iff split: if_splits option.splits)+

lemma sleep_invD:
  assumes "sleep_inv C s"
  shows inv_code: "code_ok (crew C) t (th s t)"
    and inv_calls: "th s (Worker w) \<noteq> [] \<Longrightarrow> past_checks (pl s w) = 0"
    and inv_bits: "bit (bitmap (sh s)) w \<Longrightarrow> w < crew C"
    and inv_announced: "w < crew C \<Longrightarrow> announced (pl s w) \<Longrightarrow>
      bit (bitmap (sh s)) w \<or> permitted (sh s) w \<or> unpark_due w (th s)"
    and inv_inj: "inj (sh s) \<noteq> [] \<Longrightarrow> any_wake_due (th s) \<or> (\<exists>w < crew C. alert s w \<or> owner_wake_due w (th s))"
    and inv_inbox: "w < crew C \<Longrightarrow> inbox (sh s) w \<noteq> [] \<Longrightarrow> past_checks (pl s w) \<le> 1 \<or> alert s w \<or> owner_wake_due w (th s)"
    and inv_slot: "w < crew C \<Longrightarrow> slot (sh s) w \<noteq> None \<Longrightarrow> past_checks (pl s w) \<le> 2 \<or> alert s w \<or> owner_wake_due w (th s)"
    and inv_hands: "w < crew C \<Longrightarrow> empty_handed (pl s w) (lv s w) (deque (sh s) w)"
  using assms unfolding sleep_inv_def by blast+

text \<open>A worker whose bit is not set is alert.\<close>

lemma unmarked_alert: "sleep_inv C s \<Longrightarrow> w < crew C \<Longrightarrow> \<not> bit (bitmap (sh s)) w \<Longrightarrow> alert s w"
  using inv_announced [of C s w] by (auto simp: alert_def announced_def)

lemma alert_access:
  assumes "th s t = a # rest" "call_step C a (sh s) = (new, s')" "alert s w"
  shows "alert (s\<lparr>sh := s', th := (th s)(t := new @ rest)\<rparr>) w"
proof -
  have "permitted s' w \<or> unpark_due w ((th s)(t := new @ rest))" if "unpark_due w (th s)"
  proof (cases "a = Unpark w")
    case True
    then show ?thesis using call_step_bits(4) [OF assms(2)] by simp
  next
    case False
    then show ?thesis using pending_access [OF that assms(1)] by blast
  qed
  then show ?thesis using assms(3) call_step_bits(3) [OF assms(2), of w] by (auto simp: alert_def)
qed

text \<open>A wake of a worker ends with the worker alert.\<close>

lemma owner_wake_access:
  assumes T: "th s t = a # rest" and S: "call_step C a (sh s) = (new, s')" and I: "sleep_inv C s" and w: "w < crew C"
    and d: "alert s w \<or> owner_wake_due w (th s)"
  defines "s1 \<equiv> s\<lparr>sh := s', th := (th s)(t := new @ rest)\<rparr>"
  shows "alert s1 w \<or> owner_wake_due w (th s1)"
proof (cases "alert s w")
  case True
  then show ?thesis using alert_access [OF T S] by (simp add: s1_def)
next
  case False
  then have b: "bit (bitmap (sh s)) w" using unmarked_alert [OF I w] by blast
  have d: "owner_wake_due w (th s)" using d False by blast
  have "\<exists>b \<in> set new. b = WakeSpecific w \<or> b = WakeSpecificClaim w \<or> b = Unpark w" if "a = WakeSpecific w \<or> a = WakeSpecificClaim w"
    using that S b by auto
  then consider "a = WakeSpecific w \<or> a = WakeSpecificClaim w" "Unpark w \<in> set new"
    | "\<exists>b \<in> set new. b = WakeSpecific w \<or> b = WakeSpecificClaim w" | "\<not> (a = WakeSpecific w \<or> a = WakeSpecificClaim w)"
    by blast
  then show ?thesis
  proof cases
    case 1
    then have "unpark_due w (th s1)" by (auto simp: s1_def pending_upd)
    then show ?thesis by (simp add: alert_def)
  next
    case 2
    then have "owner_wake_due w (th s1)" by (auto simp: s1_def pending_upd)
    then show ?thesis ..
  next
    case 3
    then have "owner_wake_due w (th s1)" unfolding s1_def by simp (rule pending_access [OF d T], simp)
    then show ?thesis ..
  qed
qed

lemma any_wake_access:
  assumes T: "th s t = a # rest" and S: "call_step C a (sh s) = (new, s')" and I: "sleep_inv C s" and n: "0 < crew C"
    and d: "any_wake_due (th s)"
  defines "s1 \<equiv> s\<lparr>sh := s', th := (th s)(t := new @ rest)\<rparr>"
  shows "any_wake_due (th s1) \<or> (\<exists>w < crew C. alert s1 w)"
proof (cases "\<exists>h c. a = Wake h \<or> a = WakeClaim h c")
  case False
  then have "any_wake_due (th s1)" using pending_access [OF d T, of new] by (auto simp: s1_def)
  then show ?thesis ..
next
  case True
  then obtain h c where "a = Wake h \<or> a = WakeClaim h c" by blast
  then show ?thesis
  proof
    assume a: "a = Wake h"
    show ?thesis
    proof (cases "bitmap (sh s) = 0")
      case True
      then have "alert s 0" using unmarked_alert [OF I n] by simp
      then have "alert s1 0" using alert_access [OF T S] by (simp add: s1_def)
      with n show ?thesis by blast
    next
      case False
      then have "any_wake_due (th s1)" using S a by (auto simp: s1_def pending_upd)
      then show ?thesis ..
    qed
  next
    assume a: "a = WakeClaim h c"
    show ?thesis
    proof (cases "bit (bitmap (sh s)) c")
      case True
      then have "alert s1 c" using S a by (auto simp: s1_def alert_def pending_upd)
      with inv_bits [OF I True] show ?thesis by blast
    next
      case False
      then have "any_wake_due (th s1)" using S a by (auto simp: s1_def pending_upd)
      then show ?thesis ..
    qed
  qed
qed

lemma sleep_inv_access:
  assumes T: "th s t = a # rest" and S: "call_step C a (sh s) = (new, s')" and I: "sleep_inv C s" and ok: "config_ok C"
  shows "sleep_inv C (s\<lparr>sh := s', th := (th s)(t := new @ rest)\<rparr>)"
proof -
  let ?s = "s\<lparr>sh := s', th := (th s)(t := new @ rest)\<rparr>"
  note B = call_step_bits [OF S]
  have code: "code_ok (crew C) t (a # rest)" using inv_code [OF I, of t] T by simp
  have n: "0 < crew C" using ok by (simp add: config_ok_def)
  note wake = owner_wake_access [OF T S I]
  show ?thesis
    unfolding sleep_inv_def
  proof (intro conjI allI impI, goal_cases)
    case (1 u)
    then show ?case using call_step_code [OF code S] inv_code [OF I] by simp
  next
    case (2 w)
    then show ?case using inv_calls [OF I, of w] T by (cases "t = Worker w") auto
  next
    case (3 w)
    then show ?case using inv_bits [OF I] B(1) by simp
  next
    case (4 w)
    then consider "bit (bitmap (sh s)) w \<or> permitted (sh s) w \<or> a = Unpark w" | "a \<noteq> Unpark w" "unpark_due w (th s)"
      using inv_announced [OF I, of w] by auto
    then show ?case
    proof cases
      case 1
      then show ?thesis using call_step_covers [OF S 1] by (auto simp: pending_upd)
    next
      case 2
      then have "unpark_due w ((th s)(t := new @ rest))" using pending_access [OF 2(2) T] by blast
      then show ?thesis by simp
    qed
  next
    case 5
    show ?case
    proof (cases "inj (sh s) = []")
      case True
      then obtain j where "a = Inject j" using B(5) 5 by auto
      then show ?thesis using code by (auto simp: pending_upd)
    next
      case False
      then show ?thesis using inv_inj [OF I] any_wake_access [OF T S I n] wake by blast
    qed
  next
    case (6 w)
    show ?case
    proof (cases "inbox (sh s) w = []")
      case True
      then obtain j where "a = PushInbox w j" using B(6) 6 by auto
      then show ?thesis using code inv_calls [OF I, of w] T by (auto simp: pending_upd)
    next
      case False
      then show ?thesis using inv_inbox [OF I 6(1)] wake [OF 6(1)] by auto
    qed
  next
    case (7 w)
    show ?case
    proof (cases "slot (sh s) w = None")
      case True
      then have "WakeSpecific w \<in> set new" using B(7) 7 by auto
      then show ?thesis by (auto simp: pending_upd)
    next
      case False
      then show ?thesis using inv_slot [OF I 7(1)] wake [OF 7(1)] by auto
    qed
  next
    case (8 w)
    then show ?case using inv_hands [OF I 8] B(2) by simp
  qed
qed

section \<open>The loop\<close>

text \<open>What a step of a worker's loop can change.\<close>

lemma past_sweep [simp]:
  "past_checks (StealNext os q) = (if q = LastLook then 3 else 0)"
  "past_checks (StealInbox victim os q) = (if q = LastLook then 3 else 0)"
  "past_checks (StealDeque victim os q) = (if q = LastLook then 3 else 0)"
  "past_checks (sweep_failed q) = (if q = LastLook then 3 else 0)"
  "past_checks (sweep_found q) = 0"
  by (cases q; simp)+

lemma past_next [simp]:
  "past_checks (shared_next r) = 0"
  "past_checks (fst (start_share r v)) = 0"
  "past_checks (fst (start_sweep C q v)) = (if q = LastLook then 3 else 0)"
  by (cases r; simp add: start_share_def start_sweep_def Let_def)+

lemma not_check [simp]:
  "shared_next r \<noteq> CheckInjector" "sweep_failed q \<noteq> CheckInjector" "sweep_found q \<noteq> CheckInjector"
  "fst (start_share r v) \<noteq> CheckInjector" "fst (start_sweep C q v) \<noteq> CheckInjector"
  by (cases r; cases q; simp add: start_share_def start_sweep_def Let_def)+

lemma place_step_shrinks:
  assumes "place_step C w p v s = (cs, p', v', s')"
  shows "permitted s' = permitted s \<and> (inj s' \<noteq> [] \<longrightarrow> inj s \<noteq> []) \<and> (inbox s' u \<noteq> [] \<longrightarrow> inbox s u \<noteq> []) \<and>
    (slot s' u \<noteq> None \<longrightarrow> slot s u \<noteq> None) \<and> (u \<noteq> w \<longrightarrow> deque s u = [] \<longrightarrow> deque s' u = [])"
  using assms
  by (cases "(C, w, p, v, s)" rule: place_step.cases)
     (auto simp: clear_bit_def Let_def split_beta split: if_splits option.splits list.splits)

lemma place_step_bits:
  assumes "place_step C w p v s = (cs, p', v', s')"
  shows "(u \<noteq> w \<longrightarrow> bit (bitmap s') u = bit (bitmap s) u) \<and> (bit (bitmap s') w \<longrightarrow> bit (bitmap s) w \<or> p = Announce)"
  using assms
  by (cases "(C, w, p, v, s)" rule: place_step.cases)
     (auto simp: clear_bit_def Let_def split_beta bit_set_bit_iff bit_unset_bit_iff split: if_splits option.splits list.splits)

text \<open>A worker gets past a check only when it finds the source empty.\<close>

lemma place_step_checks:
  assumes "place_step C w p v s = (cs, p', v', s')"
  shows "(past_checks p = 0 \<longrightarrow> past_checks p' \<noteq> 0 \<longrightarrow> inj s = []) \<and>
    (past_checks p \<le> 1 \<longrightarrow> past_checks p' > 1 \<longrightarrow> inbox s w = []) \<and>
    (past_checks p \<le> 2 \<longrightarrow> past_checks p' > 2 \<longrightarrow> slot s w = None) \<and>
    (cs \<noteq> [] \<longrightarrow> past_checks p' = 0)"
  using assms
  by (cases "(C, w, p, v, s)" rule: place_step.cases)
     (auto simp: Let_def split_beta split: if_splits option.splits list.splits)

lemma place_step_announced:
  assumes "place_step C w p v s = (cs, p', v', s')" "announced p'" "w < 64"
  shows "bit (bitmap s') w \<or> announced p \<and> bit (bitmap s') w = bit (bitmap s) w"
  using assms
  by (cases "(C, w, p, v, s)" rule: place_step.cases)
     (auto simp: announced_def clear_bit_def Let_def split_beta bit_set_bit_iff split: if_splits option.splits list.splits)

lemma code_ok_concat:
  assumes "\<And>c. c \<in> set cs \<Longrightarrow> call_valid n c"
  shows "code_ok n t (concat (map (call_code C) cs))"
  using assms
proof (induction cs)
  case (Cons c cs)
  have "code_ok n t (map Unpark ws @ code)" if "code_ok n t code" for ws code using that by (induction ws) auto
  moreover have "call_valid n c" "code_ok n t (concat (map (call_code C) cs))" using Cons by auto
  ultimately show ?case by (cases c) auto
qed simp

lemma place_step_code:
  assumes "place_step C w p v s = (cs, p', v', s')" "config_ok C" "w < crew C" "empty_handed p v d"
  shows "code_ok (crew C) (Worker w) cs"
  using assms code_ok_concat [of "work C j" "crew C" "Worker w" C for j]
  by (cases "(C, w, p, v, s)" rule: place_step.cases)
     (auto simp: config_ok_def Let_def split_beta split: if_splits option.splits list.splits)

lemma empty_handed_mono: "empty_handed p v d \<Longrightarrow> (d = [] \<Longrightarrow> d' = []) \<Longrightarrow> empty_handed p v d'"
  by (cases "(p, v, d)" rule: empty_handed.cases) auto

lemma empty_handed_next [simp]:
  "own v = [] \<Longrightarrow> d = [] \<Longrightarrow> empty_handed (sweep_failed q) v d" "empty_handed (sweep_found q) v d"
  "empty_handed (shared_next r) v d" "empty_handed (fst (start_share r v)) u d"
  "own v = [] \<Longrightarrow> d = [] \<Longrightarrow> empty_handed (fst (start_sweep C q v)) (snd (start_sweep C q v)) d"
  by (cases q; cases r; simp add: start_share_def start_sweep_def Let_def)+

lemma place_step_hands:
  assumes "place_step C w p v s = (cs, p', v', s')" "empty_handed p v (deque s w)"
  shows "empty_handed p' v' (deque s' w)"
  using assms
  by (cases "(C, w, p, v, s)" rule: place_step.cases)
     (auto simp: clear_bit_def Let_def split_beta split: if_splits option.splits list.splits)

lemma sleep_inv_loop:
  assumes w: "w < crew C" and T: "th s (Worker w) = []" and S: "place_step C w (pl s w) (lv s w) (sh s) = (cs, p, v, s')"
    and I: "sleep_inv C s" and ok: "config_ok C"
  shows "sleep_inv C (s\<lparr>sh := s', th := (th s)(Worker w := cs), pl := (pl s)(w := p), lv := (lv s)(w := v)\<rparr>)"
proof -
  let ?s = "s\<lparr>sh := s', th := (th s)(Worker w := cs), pl := (pl s)(w := p), lv := (lv s)(w := v)\<rparr>"
  note shrinks = place_step_shrinks [OF S] and bits = place_step_bits [OF S] and checks = place_step_checks [OF S]
  have w64: "w < 64" using ok w by (simp add: config_ok_def)
  have keep: "pending Q (th s) \<Longrightarrow> pending Q (th ?s)" for Q using pending_start [of Q "th s" "Worker w" cs] T by simp
  have alert: "alert s u \<Longrightarrow> u \<noteq> w \<or> past_checks (pl s w) \<noteq> 0 \<or> past_checks p = 0 \<Longrightarrow> alert ?s u" for u
    using keep [of "\<lambda>a. a = Unpark u"] shrinks by (auto simp: alert_def)
  show ?thesis
    unfolding sleep_inv_def
  proof (intro conjI allI impI, goal_cases)
    case (1 t)
    then show ?case using place_step_code [OF S ok w inv_hands [OF I w]] inv_code [OF I] by simp
  next
    case (2 u)
    then show ?case using inv_calls [OF I, of u] checks by (cases "u = w") auto
  next
    case (3 u)
    then show ?case using inv_bits [OF I, of u] bits w by (cases "u = w") auto
  next
    case (4 u)
    show ?case
    proof (cases "u = w")
      case True
      then have "announced p" using 4 by simp
      from place_step_announced [OF S this w64] inv_announced [OF I w] keep [of "\<lambda>a. a = Unpark w"] shrinks True
      show ?thesis by auto
    next
      case False
      then show ?thesis using 4 inv_announced [OF I 4(1)] keep [of "\<lambda>a. a = Unpark u"] shrinks bits by auto
    qed
  next
    case 5
    then have "inj (sh s) \<noteq> []" using shrinks by auto
    then have "past_checks (pl s w) \<noteq> 0 \<or> past_checks p = 0" using checks by blast
    with inv_inj [OF I \<open>inj (sh s) \<noteq> []\<close>] alert keep show ?case by blast
  next
    case (6 u)
    then have i: "inbox (sh s) u \<noteq> []" using shrinks by auto
    show ?case
    proof (cases "u = w")
      case True
      then have "past_checks (pl s w) > 1 \<or> past_checks p \<le> 1" using checks i by (auto simp: not_less)
      with inv_inbox [OF I w] i True alert [of w] keep [of "\<lambda>a. a = WakeSpecific w \<or> a = WakeSpecificClaim w"] show ?thesis by auto
    next
      case False
      then show ?thesis using inv_inbox [OF I 6(1) i] alert [of u] keep [of "\<lambda>a. a = WakeSpecific u \<or> a = WakeSpecificClaim u"] by auto
    qed
  next
    case (7 u)
    then have i: "slot (sh s) u \<noteq> None" using shrinks by auto
    show ?case
    proof (cases "u = w")
      case True
      then have "past_checks (pl s w) > 2 \<or> past_checks p \<le> 2" using checks i by (auto simp: not_less)
      with inv_slot [OF I w] i True alert [of w] keep [of "\<lambda>a. a = WakeSpecific w \<or> a = WakeSpecificClaim w"] show ?thesis by auto
    next
      case False
      then show ?thesis using inv_slot [OF I 7(1) i] alert [of u] keep [of "\<lambda>a. a = WakeSpecific u \<or> a = WakeSpecificClaim u"] by auto
    qed
  next
    case (8 u)
    show ?case
    proof (cases "u = w")
      case True
      then show ?thesis using place_step_hands [OF S inv_hands [OF I w]] by simp
    next
      case False
      then show ?thesis using empty_handed_mono [OF inv_hands [OF I 8], of "deque s' u"] place_step_shrinks [OF S, of u] by simp
    qed
  qed
qed

text \<open>A step of a worker that touches nothing but its place, and its permit.\<close>

lemma sleep_inv_place:
  assumes I: "sleep_inv C s" and w: "w < crew C" and T: "th s (Worker w) = []"
    and p: "past_checks p = 0 \<and> p \<noteq> CheckInjector \<or> past_checks p = past_checks (pl s w) \<and> past_checks p > 0 \<and> x = permitted (sh s) w"
    and e: "empty_handed p (lv s w) (deque (sh s) w)"
  shows "sleep_inv C (s\<lparr>sh := (sh s)\<lparr>permitted := (permitted (sh s))(w := x)\<rparr>, pl := (pl s)(w := p)\<rparr>)"
proof -
  let ?s = "s\<lparr>sh := (sh s)\<lparr>permitted := (permitted (sh s))(w := x)\<rparr>, pl := (pl s)(w := p)\<rparr>"
  have alert: "alert s u \<Longrightarrow> alert ?s u" for u using p by (auto simp: alert_def)
  have past: "past_checks (pl ?s u) \<le> past_checks (pl s u)" for u using p by auto
  show ?thesis
    unfolding sleep_inv_def
  proof (intro conjI allI impI, goal_cases)
    case (4 u)
    then show ?case using inv_announced [OF I, of u] p by (cases "u = w") (auto simp: announced_def)
  next
    case 5
    then show ?case using inv_inj [OF I] alert by auto
  next
    case (6 u)
    then show ?case using inv_inbox [OF I, of u] alert past [of u] by auto
  next
    case (7 u)
    then show ?case using inv_slot [OF I, of u] alert past [of u] by auto
  qed (use inv_code [OF I] inv_calls [OF I] inv_bits [OF I] inv_hands [OF I] T e in auto)
qed

lemma sleep_inv_new: "config_ok C \<Longrightarrow> sleep_inv C (sys_new C)"
  by (auto simp: sleep_inv_def sys_new_def pending_def announced_def)

lemma sleep_inv_step:
  assumes "sys_step C s s'" "sleep_inv C s" "config_ok C"
  shows "sleep_inv C s'"
  using assms(1)
proof cases
  case (call k c)
  have keep: "pending Q (th s) \<Longrightarrow> pending Q (th s')" for Q using pending_start [of Q "th s" "Other k" "call_code C c"] call by simp
  have alert: "alert s u \<Longrightarrow> alert s' u" for u using keep call(1) by (auto simp: alert_def)
  have code: "code_ok (crew C) t (th s' t)" for t
    using inv_code [OF assms(2)] call_code_ok [OF call(4)] call(1) by simp
  show ?thesis
    using assms(2) alert keep code unfolding sleep_inv_def call(1) by (simp add: alert_def) blast
next
  case (access t a rest new s1)
  then show ?thesis using sleep_inv_access [OF _ _ assms(2,3)] by simp
next
  case (loop w n cs p v s1)
  let ?C = "C\<lparr>cap := n\<rparr>"
  have "sleep_inv ?C s" "config_ok ?C" using assms(2,3) by (simp_all add: sleep_inv_def config_ok_def)
  then have "sleep_inv ?C s'" using sleep_inv_loop [of w ?C s cs p v s1] loop by simp
  then show ?thesis by (simp add: sleep_inv_def)
next
  case (woken w)
  then show ?thesis using sleep_inv_place [OF assms(2), of w Resume False] by simp
next
  case (spurious w)
  then show ?thesis using sleep_inv_place [OF assms(2), of w Resume "permitted (sh s) w"] by simp
next
  case (busy w victim os q)
  have e: "empty_handed (StealNext os q) (lv s w) (deque (sh s) w)"
    using inv_hands [OF assms(2) busy(2)] busy(4) by simp
  have "sleep_inv C (s\<lparr>sh := (sh s)\<lparr>permitted := (permitted (sh s))(w := permitted (sh s) w)\<rparr>, pl := (pl s)(w := StealNext os q)\<rparr>)"
    by (rule sleep_inv_place [OF assms(2) busy(2,3) _ e]) (auto simp: busy(4))
  then show ?thesis using busy(1) by simp
qed

lemma sleep_inv_reach: "sys_reach C s \<Longrightarrow> config_ok C \<Longrightarrow> sleep_inv C s"
  by (induction rule: sys_reach.induct) (auto intro: sleep_inv_new sleep_inv_step)

section \<open>A run\<close>

text \<open>
  A pool of one worker. A job from outside hands its worker another one; the worker runs both,
  finds nothing else and parks.
\<close>

definition example_config :: "nat config" where
  "example_config =
     \<lparr>tun = almost_tokio, crew = 1, cap = 4, clients = 1, work = (\<lambda>j. if j = 7 then [SubmitLocal 0 8] else [])\<rparr>"

definition example_moves :: "nat move list" where
  "example_moves = [Call 0 (SubmitJob None 7), Access (Other 0), Access (Other 0)] @ replicate 17 (Loop 0 4) @
     replicate 2 (Access (Worker 0)) @ replicate 22 (Loop 0 4)"

definition example_end :: "nat sys" where
  "example_end = the (sys_run example_config example_moves (sys_new example_config))"

lemma example_config_ok: "config_ok example_config"
  using presets_ok(3) by (simp add: config_ok_def example_config_def)

lemma example_run: "sys_run example_config example_moves (sys_new example_config) = Some example_end"
proof -
  have "\<not> Option.is_none (sys_run example_config example_moves (sys_new example_config))" by code_simp
  then show ?thesis by (auto simp: example_end_def Option.is_none_def)
qed

lemma example_reach: "sys_reach example_config example_end"
  using sys_run_reach [OF sys_reach.init example_run] .

lemma example_size: "crew example_config = 1" "clients example_config = 1"
  by (simp_all add: example_config_def)

lemma example_parked:
  "pl example_end 0 = Park" "th example_end (Worker 0) = []" "\<not> permitted (sh example_end) 0"
  "th example_end (Other 0) = []"
  by code_simp+

lemma asleep_empty:
  assumes "sys_reach C s" "config_ok C"
    "\<forall>w < crew C. pl s w = Park \<and> th s (Worker w) = [] \<and> \<not> permitted (sh s) w"
    "\<forall>k < clients C. th s (Other k) = []"
  shows "inj (sh s) = []" "w < crew C \<Longrightarrow> inbox (sh s) w = []" "w < crew C \<Longrightarrow> slot (sh s) w = None"
    "w < crew C \<Longrightarrow> deque (sh s) w = []" "w < crew C \<Longrightarrow> own (lv s w) = []"
proof -
  note I = sleep_inv_reach [OF assms(1,2)]
  have "th s t = []" for t using known_threads [OF assms(1), of t] assms(3,4) by (auto simp: threads_def)
  then have no: "\<not> pending Q (th s)" for Q by (simp add: pending_def)
  have na: "\<not> alert s w" if "w < crew C" for w using assms(3) that no by (simp add: alert_def)
  show "inj (sh s) = []" using inv_inj [OF I] na no by blast
  assume w: "w < crew C"
  then have p: "pl s w = Park" using assms(3) by blast
  show "inbox (sh s) w = []" using inv_inbox [OF I w] na [OF w] no p by auto
  show "slot (sh s) w = None" using inv_slot [OF I w] na [OF w] no p by (cases "slot (sh s) w") auto
  show "deque (sh s) w = []" "own (lv s w) = []" using inv_hands [OF I w] p by simp_all
qed

section \<open>Properties\<close>

text \<open>
  C4. The pool never sleeps on work. In every interleaving of the workers and of any other
  threads that submit work or shut the pool down, for every tuning and every behaviour of the
  jobs: when all workers are parked without a permit and no other thread is inside a call,
  then the injector is empty, every inbox, slot and sharing deque is empty, and no worker
  holds a job privately.
\<close>

theorem pool_never_sleeps_on_work:
  assumes "config_ok C" "sys_reach C s"
    "\<forall>w < crew C. pl s w = Park \<and> th s (Worker w) = [] \<and> \<not> permitted (sh s) w"
    "\<forall>k < clients C. th s (Other k) = []"
  shows "inj (sh s) = [] \<and>
    (\<forall>w < crew C. inbox (sh s) w = [] \<and> slot (sh s) w = None \<and> deque (sh s) w = [] \<and> own (lv s w) = [])"
  using asleep_empty [OF assms(2,1,3,4)] by blast

theorem pool_never_sleeps_on_work_witness:
  "finished (sh example_end) = [7, 8] \<and> inj (sh example_end) = [] \<and> inbox (sh example_end) 0 = [] \<and>
   slot (sh example_end) 0 = None \<and> deque (sh example_end) 0 = [] \<and> own (lv example_end 0) = []"
proof -
  have "finished (sh example_end) = [7, 8]" by code_simp
  then show ?thesis
    using pool_never_sleeps_on_work [OF example_config_ok example_reach] example_parked by (simp add: example_size)
qed

text \<open>
  C16. A parked worker has no private work. Whatever the other workers and threads are doing:
  a worker that is parked without a permit, and that no thread is about to unpark or to wake by
  name, has an empty warm slot, an empty inbox, an empty sharing deque and an empty private
  queue.
\<close>

theorem parked_worker_has_no_private_work:
  assumes "config_ok C" "sys_reach C s" "w < crew C" "pl s w = Park" "\<not> permitted (sh s) w"
    "\<forall>t. Unpark w \<notin> set (th s t) \<and> WakeSpecific w \<notin> set (th s t) \<and> WakeSpecificClaim w \<notin> set (th s t)"
  shows "slot (sh s) w = None \<and> inbox (sh s) w = [] \<and> deque (sh s) w = [] \<and> own (lv s w) = []"
proof -
  note I = sleep_inv_reach [OF assms(2,1)]
  have no: "\<not> owner_wake_due w (th s)" "\<not> alert s w" using assms(4-6) by (auto simp: pending_def alert_def)
  show ?thesis
    using inv_inbox [OF I assms(3)] inv_slot [OF I assms(3)] inv_hands [OF I assms(3)] no assms(4)
    by (cases "slot (sh s) w") auto
qed

theorem parked_worker_has_no_private_work_witness:
  "slot (sh example_end) 0 = None \<and> inbox (sh example_end) 0 = [] \<and> deque (sh example_end) 0 = [] \<and> own (lv example_end 0) = []"
proof -
  have "th example_end t = []" for t
    using known_threads [OF example_reach, of t] example_parked by (auto simp: threads_def example_config_def)
  then show ?thesis
    using parked_worker_has_no_private_work [OF example_config_ok example_reach, of 0] example_parked
    by (simp add: example_config_def)
qed


end
