(* ===== verification/Pool_Handoff.thy ===== *)
theory Pool_Handoff
  imports Pool_Wakeups
begin

text \<open>
  No interleaving of the pool's threads loses a job or runs it twice: at every moment, what
  was handed to the pool is what has run, what lies in a queue, what a worker holds and what
  the calls under way still carry. Together with the sleep protocol, a pool whose workers all
  sleep has run everything it was given.
\<close>

section \<open>Accounting\<close>

definition osum :: "nat \<Rightarrow> (nat \<Rightarrow> 'j option) \<Rightarrow> 'j multiset" where
  "osum n f = (\<Sum>w < n. omset (f w))"

definition shared_jobs :: "nat \<Rightarrow> 'j shared \<Rightarrow> 'j multiset" where
  "shared_jobs n s = mset (inj s) + msum n (inbox s) + osum n (slot s) + msum n (deque s)"

fun access_jobs :: "'j access \<Rightarrow> 'j multiset" where
  "access_jobs (Inject j) = {#j#}"
| "access_jobs (SwapSlot w j) = {#j#}"
| "access_jobs (Displace w j) = {#j#}"
| "access_jobs (PushInbox w j) = {#j#}"
| "access_jobs _ = {#}"

definition code_jobs :: "'j access list \<Rightarrow> 'j multiset" where
  "code_jobs c = sum_list (map access_jobs c)"

fun sharing_jobs :: "'j sharing \<Rightarrow> 'j multiset" where
  "sharing_jobs (Heartbeat j) = {#j#}"
| "sharing_jobs Refill = {#}"

fun place_jobs :: "'j place \<Rightarrow> 'j multiset" where
  "place_jobs (Promote j) = {#j#}"
| "place_jobs (Share left r) = sharing_jobs r"
| "place_jobs (ShareDone r) = sharing_jobs r"
| "place_jobs (Run j) = {#j#}"
| "place_jobs (Keep j q) = {#j#}"
| "place_jobs _ = {#}"

definition worker_jobs :: "'j place \<Rightarrow> 'j vars \<Rightarrow> 'j multiset" where
  "worker_jobs p v = place_jobs p + mset (own v)"

definition in_pool :: "'j config \<Rightarrow> 'j sys \<Rightarrow> 'j multiset" where
  "in_pool C s = shared_jobs (crew C) (sh s) + (\<Sum>w < crew C. worker_jobs (pl s w) (lv s w)) +
     (\<Sum>t \<in> threads C. code_jobs (th s t))"

lemma code_jobs_simps [simp]:
  "code_jobs [] = {#}" "code_jobs (a # c) = access_jobs a + code_jobs c" "code_jobs (c @ d) = code_jobs c + code_jobs d"
  by (simp_all add: code_jobs_def)

lemma osum_split:
  assumes "w < n"
  obtains M where "osum n f = M + omset (f w)" "\<And>x. osum n (f(w := x)) = M + omset x"
proof -
  let ?M = "\<Sum>i \<in> {..<n} - {w}. omset (f i)"
  have "osum n (f(w := x)) = ?M + omset x" for x
    using sum.remove [of "{..<n}" w "\<lambda>i. omset ((f(w := x)) i)"] assms by (simp add: osum_def)
  from that [of ?M, OF _ this] this [of "f w"] show ?thesis by simp
qed

lemma msum_move:
  assumes "v < n" "w < n" "v \<noteq> w"
  shows "msum n (f(v := drop k (f v), w := f w @ take k (f v))) = msum n f"
proof -
  obtain M where M: "msum n f = M + mset (f v)" "\<And>x. msum n (f(v := x)) = M + mset x" using msum_split [OF assms(1), of f] by metis
  let ?g = "f(v := drop k (f v))"
  obtain N where N: "msum n ?g = N + mset (?g w)" "\<And>x. msum n (?g(w := x)) = N + mset x" using msum_split [OF assms(2), of ?g] by metis
  have "mset (take k (f v)) + mset (drop k (f v)) = mset (f v)" by (metis append_take_drop_id mset_append)
  with M(1) M(2) [of "drop k (f v)"] N(1) N(2) [of "f w @ take k (f v)"] assms(3)
  show ?thesis by (simp add: ac_simps) (metis add.assoc add.commute)
qed

section \<open>Calls\<close>

lemma call_code_jobs: "code_jobs (call_code C c) = call_jobs c"
proof -
  have "code_jobs (map Unpark ws) = {#}" for ws by (induction ws) auto
  then show ?thesis by (cases c) auto
qed

lemma calls_code_jobs: "code_jobs (concat (map (call_code C) cs)) = calls_jobs cs"
  by (induction cs) (simp_all add: call_code_jobs calls_jobs_def)

lemma call_step_jobs:
  assumes S: "call_step C a s = (new, s')" and ok: "code_ok n t (a # rest)"
  shows "shared_jobs n s' + code_jobs new = shared_jobs n s + access_jobs a"
proof (cases a)
  case (SwapSlot w job)
  then have "w < n" using ok by simp
  then obtain M where "osum n (slot s) = M + omset (slot s w)" "\<And>x. osum n ((slot s)(w := x)) = M + omset x"
    using osum_split by blast
  with S SwapSlot show ?thesis by (auto simp: shared_jobs_def split: option.splits if_splits)
next
  case (PushInbox w job)
  then have "w < n" using ok by simp
  then obtain M where "msum n (inbox s) = M + mset (inbox s w)" "\<And>x. msum n ((inbox s)(w := x)) = M + mset x"
    using msum_split by blast
  with S PushInbox show ?thesis by (auto simp: shared_jobs_def)
qed (use S in \<open>auto simp: shared_jobs_def clear_bit_def split: option.splits if_splits\<close>)

lemma call_step_finished: "call_step C a s = (new, s') \<Longrightarrow> finished s' = finished s"
  by (cases a) (auto simp: clear_bit_def split: option.splits if_splits)

section \<open>The loop\<close>

text \<open>A worker steals from workers there are, and never from itself.\<close>

fun victims_ok :: "nat \<Rightarrow> nat \<Rightarrow> 'j place \<Rightarrow> bool" where
  "victims_ok n w (StealNext os q) \<longleftrightarrow> (\<forall>v \<in> set os. v < n)"
| "victims_ok n w (StealInbox victim os q) \<longleftrightarrow> victim < n \<and> victim \<noteq> w \<and> (\<forall>v \<in> set os. v < n)"
| "victims_ok n w (StealDeque victim os q) \<longleftrightarrow> victim < n \<and> victim \<noteq> w \<and> (\<forall>v \<in> set os. v < n)"
| "victims_ok n w _ \<longleftrightarrow> True"

lemma aim_next [simp]:
  "victims_ok n w (sweep_failed q)" "victims_ok n w (sweep_found q)" "victims_ok n w (shared_next r)"
  "victims_ok n w (fst (start_share r v))"
  by (cases q; cases r; simp add: start_share_def)+

lemma aim_sweep: "0 < crew C \<Longrightarrow> victims_ok (crew C) w (fst (start_sweep C q v))"
  by (auto simp: start_sweep_def sweep_offsets_def Let_def)

lemma place_step_aim:
  assumes "place_step C w p v s = (cs, p', v', s')" "victims_ok (crew C) w p" "0 < crew C"
  shows "victims_ok (crew C) w p'"
  using assms aim_sweep [OF assms(3), of w]
  by (cases "(C, w, p, v, s)" rule: place_step.cases)
     (auto simp: Let_def split_beta split: if_splits option.splits list.splits)

lemma jobs_next [simp]:
  "place_jobs (sweep_failed q) = {#}" "place_jobs (sweep_found q) = {#}" "place_jobs (shared_next r) = sharing_jobs r"
  "place_jobs (fst (start_share r v)) = sharing_jobs r" "own (snd (start_share r v)) = own v"
  "place_jobs (fst (start_sweep C q v)) = {#}" "own (snd (start_sweep C q v)) = own v"
  by (cases q; cases r; simp add: start_share_def start_sweep_def Let_def)+

lemma start_pair: "f = (p, v) \<longleftrightarrow> p = fst f \<and> v = snd f"
  by auto

lemma mset_last: "xs \<noteq> [] \<Longrightarrow> add_mset (last xs) (mset (butlast xs)) = mset xs"
  by (metis append_butlast_last_id mset_append mset.simps add_mset_add_single)

lemma inject_jobs: "code_jobs (map Inject js) = mset js"
  by (induction js) auto

lemma steal_inbox_jobs:
  assumes "inbox s v = j # rest" "v < n"
  shows "shared_jobs n (s\<lparr>inbox := (inbox s)(v := rest)\<rparr>) + {#j#} = shared_jobs n s"
proof -
  obtain M where "msum n (inbox s) = M + mset (inbox s v)" "\<And>x. msum n ((inbox s)(v := x)) = M + mset x"
    using msum_split [OF assms(2)] by blast
  then show ?thesis using assms(1) by (simp add: shared_jobs_def)
qed

lemma place_step_jobs:
  assumes S: "place_step C w p v s = (cs, p', v', s')" and w: "w < n" and aim: "victims_ok n w p"
  shows "shared_jobs n s' + worker_jobs p' v' + code_jobs cs + mset (finished s') + spawned (work C) (finished s) =
    shared_jobs n s + worker_jobs p v + mset (finished s) + spawned (work C) (finished s')"
proof -
  obtain I where I: "msum n (inbox s) = I + mset (inbox s w)" "\<And>x. msum n ((inbox s)(w := x)) = I + mset x"
    using msum_split [OF w, of "inbox s"] by metis
  obtain D where D: "msum n (deque s) = D + mset (deque s w)" "\<And>x. msum n ((deque s)(w := x)) = D + mset x"
    using msum_split [OF w, of "deque s"] by metis
  obtain L where L: "osum n (slot s) = L + omset (slot s w)" "\<And>x. osum n ((slot s)(w := x)) = L + omset x"
    using osum_split [OF w, of "slot s"] by metis
  note acc = shared_jobs_def worker_jobs_def clear_bit_def spawned_def inject_jobs calls_code_jobs mset_last
  consider victim os q where "p = StealInbox victim os q" | victim os q where "p = StealDeque victim os q"
    | "\<forall>victim os q. p \<noteq> StealInbox victim os q \<and> p \<noteq> StealDeque victim os q"
    by blast
  then show ?thesis
  proof cases
    case (1 victim os q)
    then show ?thesis
      using S aim steal_inbox_jobs [of s victim _ _ n] by (auto simp: worker_jobs_def split: list.splits)
  next
    case (2 victim os q)
    then have "shared_jobs n s' = shared_jobs n s"
      using S aim msum_move [of victim n w "deque s"] w by (auto simp: shared_jobs_def Let_def split: if_splits)
    with 2 show ?thesis using S by (auto simp: worker_jobs_def Let_def split: if_splits)
  next
    case 3
    with S I D L show ?thesis
      by (cases "(C, w, p, v, s)" rule: place_step.cases)
         (auto simp: acc Let_def split_beta split: if_splits option.splits list.splits)
  qed
qed

section \<open>All threads\<close>

lemma sum_point:
  fixes f :: "'a \<Rightarrow> 'j multiset"
  assumes "finite A" "a \<in> A" "\<And>b. b \<in> A \<Longrightarrow> b \<noteq> a \<Longrightarrow> g b = f b"
  shows "sum g A + f a = sum f A + g a"
proof -
  have "sum g (A - {a}) = sum f (A - {a})" by (rule sum.cong) (use assms(3) in auto)
  then show ?thesis using sum.remove [OF assms(1,2), of g] sum.remove [OF assms(1,2), of f] by simp
qed

lemma settle:
  fixes a :: "'j multiset"
  assumes "a + x = b + y" "b = c + x"
  shows "a = c + y"
proof -
  have "a + x = (c + y) + x" using assms by (simp add: ac_simps)
  then show ?thesis by simp
qed

definition handoff_inv :: "'j config \<Rightarrow> 'j sys \<Rightarrow> bool" where
  "handoff_inv C s \<longleftrightarrow>
     mset (finished (sh s)) + in_pool C s = calls_jobs (handed s) + spawned (work C) (finished (sh s)) \<and>
     (\<forall>w < crew C. victims_ok (crew C) w (pl s w))"

lemma handoff_inv_new: "handoff_inv C (sys_new C)"
  by (simp add: handoff_inv_def in_pool_def sys_new_def shared_jobs_def msum_def osum_def worker_jobs_def calls_jobs_def spawned_def)

text \<open>A thread's calls change what it carries; the rest of the account is what the access changes.\<close>

lemma carried_upd:
  assumes "t \<in> threads C"
  shows "(\<Sum>u \<in> threads C. code_jobs ((T(t := c)) u)) + code_jobs (T t) = (\<Sum>u \<in> threads C. code_jobs (T u)) + code_jobs c"
  using sum_point [of "threads C" t "\<lambda>u. code_jobs ((T(t := c)) u)" "\<lambda>u. code_jobs (T u)"] assms by simp

lemma handoff_access:
  assumes R: "sys_reach C s" "config_ok C" and I: "handoff_inv C s" and T: "th s t = a # rest"
    and S: "call_step C a (sh s) = (new, s')"
  shows "handoff_inv C (s\<lparr>sh := s', th := (th s)(t := new @ rest)\<rparr>)"
proof -
  have t: "t \<in> threads C" using known_threads [OF R(1)] T by simp
  have ok: "code_ok (crew C) t (a # rest)" using inv_code [OF sleep_inv_reach [OF R], of t] T by simp
  note e = call_step_jobs [OF S ok] carried_upd [OF t, of "th s" "new @ rest"]
  have "in_pool C (s\<lparr>sh := s', th := (th s)(t := new @ rest)\<rparr>) + (access_jobs a + code_jobs new + code_jobs rest) =
    in_pool C s + (access_jobs a + code_jobs new + code_jobs rest)"
    using add_both [OF e] T by (simp add: in_pool_def ac_simps)
  then show ?thesis using I call_step_finished [OF S] by (simp add: handoff_inv_def)
qed

lemma handoff_loop:
  assumes I: "handoff_inv C s" and w: "w < crew C" and T: "th s (Worker w) = []"
    and S: "place_step C' w (pl s w) (lv s w) (sh s) = (cs, p, v, s')" and C': "work C' = work C" "crew C' = crew C"
  shows "handoff_inv C (s\<lparr>sh := s', th := (th s)(Worker w := cs), pl := (pl s)(w := p), lv := (lv s)(w := v)\<rparr>)"
proof -
  let ?s = "s\<lparr>sh := s', th := (th s)(Worker w := cs), pl := (pl s)(w := p), lv := (lv s)(w := v)\<rparr>"
  let ?old = "mset (finished (sh s)) + in_pool C s" and ?new = "mset (finished s') + in_pool C ?s"
  have aim: "victims_ok (crew C) w (pl s w)" using I w by (simp add: handoff_inv_def)
  have t: "Worker w \<in> threads C" using w by (simp add: threads_def)
  have workers: "(\<Sum>u < crew C. worker_jobs (pl ?s u) (lv ?s u)) + worker_jobs (pl s w) (lv s w) =
    (\<Sum>u < crew C. worker_jobs (pl s u) (lv s u)) + worker_jobs p v"
    using sum_point [of "{..<crew C}" w "\<lambda>u. worker_jobs (pl ?s u) (lv ?s u)" "\<lambda>u. worker_jobs (pl s u) (lv s u)"] w by simp
  note jobs = place_step_jobs [OF S w aim, unfolded C']
  have "?new + spawned (work C) (finished (sh s)) = ?old + spawned (work C) (finished s')"
  proof -
    have "(?new + spawned (work C) (finished (sh s))) + (worker_jobs (pl s w) (lv s w) + worker_jobs p v + code_jobs cs) =
      (?old + spawned (work C) (finished s')) + (worker_jobs (pl s w) (lv s w) + worker_jobs p v + code_jobs cs)"
      using add_both [OF jobs add_both [OF workers carried_upd [OF t, of "th s" cs]]] T by (simp add: in_pool_def ac_simps)
    then show ?thesis by simp
  qed
  moreover have "?old = calls_jobs (handed s) + spawned (work C) (finished (sh s))" using I by (simp add: handoff_inv_def)
  ultimately have "?new = calls_jobs (handed s) + spawned (work C) (finished s')" by (rule settle)
  moreover have "victims_ok (crew C) u (pl ?s u)" if "u < crew C" for u
    using that I place_step_aim [OF S] aim w C' by (auto simp: handoff_inv_def)
  ultimately show ?thesis by (simp add: handoff_inv_def)
qed

lemma handoff_place:
  assumes "handoff_inv C s" "place_jobs p = place_jobs (pl s w)" "victims_ok (crew C) w p"
  shows "handoff_inv C (s\<lparr>sh := (sh s)\<lparr>permitted := P\<rparr>, pl := (pl s)(w := p)\<rparr>)"
proof -
  have "(\<Sum>u < crew C. worker_jobs (((pl s)(w := p)) u) (lv s u)) = (\<Sum>u < crew C. worker_jobs (pl s u) (lv s u))"
    by (rule sum.cong) (use assms(2) in \<open>auto simp: worker_jobs_def\<close>)
  then show ?thesis using assms(1,3) by (simp add: handoff_inv_def in_pool_def shared_jobs_def)
qed

lemma handoff_step:
  assumes "sys_reach C s" "config_ok C" "handoff_inv C s" "sys_step C s s'"
  shows "handoff_inv C s'"
  using assms(4)
proof cases
  case (call k c)
  have "Other k \<in> threads C" using call by (simp add: threads_def)
  from carried_upd [OF this, of "th s" "call_code C c"] call assms(3) show ?thesis
    by (simp add: handoff_inv_def in_pool_def call_code_jobs calls_jobs_def ac_simps)
next
  case (access t a rest new s1)
  then show ?thesis using handoff_access [OF assms(1-3)] by simp
next
  case (loop w n cs p v s1)
  then show ?thesis using handoff_loop [OF assms(3), of w "C\<lparr>cap := n\<rparr>"] by simp
next
  case (woken w)
  then show ?thesis using handoff_place [OF assms(3), of Resume w] by simp
next
  case (spurious w)
  then show ?thesis using handoff_place [OF assms(3), of Resume w "permitted (sh s)"] by simp
next
  case (busy w victim os q)
  then have "victims_ok (crew C) w (StealDeque victim os q)" using assms(3) by (auto simp: handoff_inv_def)
  then show ?thesis using handoff_place [OF assms(3), of "StealNext os q" w "permitted (sh s)"] busy by simp
qed

lemma handoff_reach: "sys_reach C s \<Longrightarrow> config_ok C \<Longrightarrow> handoff_inv C s"
  by (induction rule: sys_reach.induct) (auto intro: handoff_inv_new handoff_step)

section \<open>Properties\<close>

text \<open>
  C5. No interleaving loses or duplicates a job. In every reachable state of the concurrent
  pool, for every tuning and every behaviour of the jobs, the jobs that have run, the jobs in
  the queues, slots and inboxes, the jobs the workers hold, and the jobs the calls under way
  carry are together exactly the jobs the other threads handed over and the jobs handed over
  by the jobs that have run.
\<close>

theorem pool_keeps_every_job:
  assumes "config_ok C" "sys_reach C s"
  shows "mset (finished (sh s)) + in_pool C s = calls_jobs (handed s) + spawned (work C) (finished (sh s))"
  using handoff_reach [OF assms(2,1)] by (simp add: handoff_inv_def)

theorem pool_keeps_every_job_witness:
  "mset (finished (sh example_end)) + in_pool example_config example_end =
     calls_jobs (handed example_end) + spawned (work example_config) (finished (sh example_end)) \<and>
   finished (sh example_end) = [7, 8]"
proof -
  have "finished (sh example_end) = [7, 8]" by code_simp
  with pool_keeps_every_job [OF example_config_ok example_reach] show ?thesis by blast
qed

text \<open>
  C1. A pool that sleeps is done. When all workers are parked without a permit and no other
  thread is inside a call, every job that was ever handed to the pool, by another thread or by
  a job, has run exactly as often as it was handed over.
\<close>

theorem sleeping_pool_is_done:
  assumes "config_ok C" "sys_reach C s"
    "\<forall>w < crew C. pl s w = Park \<and> th s (Worker w) = [] \<and> \<not> permitted (sh s) w"
    "\<forall>k < clients C. th s (Other k) = []"
  shows "mset (finished (sh s)) = calls_jobs (handed s) + spawned (work C) (finished (sh s))"
proof -
  have calls: "(\<Sum>t \<in> threads C. code_jobs (th s t)) = {#}" using assms(3,4) by (auto simp: threads_def intro!: sum.neutral)
  have "own (lv s w) = [] \<and> inbox (sh s) w = [] \<and> slot (sh s) w = None \<and> deque (sh s) w = []" if "w < crew C" for w
    using asleep_empty(2-5) [OF assms(2,1,3,4) that] by simp
  then have "in_pool C s = {#}"
    using calls asleep_empty(1) [OF assms(2,1,3,4)] assms(3)
    by (simp add: in_pool_def shared_jobs_def msum_def osum_def worker_jobs_def)
  then show ?thesis using handoff_reach [OF assms(2,1)] by (simp add: handoff_inv_def)
qed

theorem sleeping_pool_is_done_witness:
  "mset (finished (sh example_end)) = calls_jobs (handed example_end) + spawned (work example_config) (finished (sh example_end))"
  by (rule sleeping_pool_is_done [OF example_config_ok example_reach])
     (simp_all add: example_parked example_size)


end
