(* ===== verification/Pool_Shutdown.thy ===== *)
theory Pool_Shutdown
  imports Pool_Wakeups
begin

text \<open>
  Shutting down: \<^verbatim>\<open>shut_down\<close> clears \<^verbatim>\<open>running\<close> and then unparks every worker; a worker
  looks at \<^verbatim>\<open>running\<close> again after it has announced its sleep. No worker is left asleep.
\<close>

section \<open>Invariant\<close>

text \<open>Whoever is about to clear \<^verbatim>\<open>running\<close> unparks every worker afterwards.\<close>

fun stop_ok :: "nat \<Rightarrow> 'j access list \<Rightarrow> bool" where
  "stop_ok n [] \<longleftrightarrow> True"
| "stop_ok n (a # c) \<longleftrightarrow> (a = Stop \<longrightarrow> (\<forall>w < n. Unpark w \<in> set c)) \<and> stop_ok n c"

definition shutdown_inv :: "'j config \<Rightarrow> 'j sys \<Rightarrow> bool" where
  "shutdown_inv C s \<longleftrightarrow>
     (\<forall>t. stop_ok (crew C) (th s t)) \<and>
     (\<not> up (sh s) \<longrightarrow> (\<forall>w < crew C. pl s w = Park \<longrightarrow> permitted (sh s) w \<or> unpark_due w (th s)))"

lemma stop_ok_no: "Stop \<notin> set c \<Longrightarrow> stop_ok n c"
  by (induction c) auto

lemma stop_ok_append: "stop_ok n c \<Longrightarrow> stop_ok n d \<Longrightarrow> stop_ok n (c @ d)"
  by (induction c) auto

lemma stop_ok_call: "stop_ok (crew C) (call_code C c)"
  by (cases c) (auto intro: stop_ok_no)

lemma stop_ok_calls: "stop_ok (crew C) (concat (map (call_code C) cs))"
  by (induction cs) (auto intro: stop_ok_append stop_ok_call)

lemma call_step_stop:
  assumes "call_step C a s = (new, s')"
  shows "Stop \<notin> set new" and "\<not> up s' \<Longrightarrow> up s \<Longrightarrow> a = Stop" and "up s' \<Longrightarrow> up s"
  using assms by (cases a; auto simp: clear_bit_def split: if_splits option.splits)+

lemma not_park [simp]:
  "shared_next r \<noteq> Park" "sweep_failed q \<noteq> Park" "sweep_found q \<noteq> Park"
  "fst (start_share r v) \<noteq> Park" "fst (start_sweep C q v) \<noteq> Park"
  by (cases r; cases q; simp add: start_share_def start_sweep_def Let_def)+

lemma place_step_stop:
  assumes "place_step C w p v s = (cs, p', v', s')"
  shows "stop_ok (crew C) cs \<and> up s' = up s \<and> permitted s' = permitted s \<and> (p' = Park \<longrightarrow> p = Park \<or> up s)"
  using assms stop_ok_calls [of C]
  by (cases "(C, w, p, v, s)" rule: place_step.cases)
     (auto simp: clear_bit_def Let_def split_beta intro: stop_ok_no split: if_splits option.splits list.splits)

lemma shutdown_inv_access:
  assumes T: "th s t = a # rest" and S: "call_step C a (sh s) = (new, s')" and I: "shutdown_inv C s"
  shows "shutdown_inv C (s\<lparr>sh := s', th := (th s)(t := new @ rest)\<rparr>)"
proof -
  have ok: "stop_ok (crew C) (a # rest)" using I T by (metis shutdown_inv_def)
  have "permitted s' w \<or> unpark_due w ((th s)(t := new @ rest))" if d: "\<not> up s'" "w < crew C" "pl s w = Park" for w
  proof (cases "up (sh s)")
    case True
    then have "Unpark w \<in> set rest" using call_step_stop(2) [OF S] d ok by auto
    then show ?thesis by (auto simp: pending_upd)
  next
    case False
    then have "alert s w" using I d by (auto simp: shutdown_inv_def alert_def)
    from alert_access [OF T S this] d(3) show ?thesis by (simp add: alert_def)
  qed
  moreover have "stop_ok (crew C) (new @ rest)" using ok call_step_stop(1) [OF S] by (auto intro: stop_ok_append stop_ok_no)
  ultimately show ?thesis using I by (auto simp: shutdown_inv_def)
qed

lemma shutdown_inv_step:
  assumes "sys_step C s s'" "shutdown_inv C s"
  shows "shutdown_inv C s'"
  using assms(1)
proof cases
  case (call k c)
  then show ?thesis using assms(2) stop_ok_call [of C c] by (auto simp: shutdown_inv_def intro: pending_start)
next
  case (access t a rest new s1)
  then show ?thesis using shutdown_inv_access [OF _ _ assms(2)] by simp
next
  case (loop w n cs p v s1)
  then show ?thesis
    using assms(2) place_step_stop [OF loop(5)] pending_start [of _ "th s" "Worker w" cs] by (auto simp: shutdown_inv_def)
qed (use assms(2) in \<open>auto simp: shutdown_inv_def\<close>)

lemma down_step:
  assumes "sys_step C s s'" "\<not> up (sh s)"
  shows "\<not> up (sh s') \<and> (pl s' w = Park \<longrightarrow> pl s w = Park)"
  using assms(1)
proof cases
  case (access t a rest new s1)
  then show ?thesis using assms(2) call_step_stop(3) [OF access(3)] by auto
next
  case (loop u n cs p v s1)
  then show ?thesis using assms(2) place_step_stop [OF loop(5)] by auto
qed (use assms(2) in auto)

lemma shutdown_inv_reach: "sys_reach C s \<Longrightarrow> shutdown_inv C s"
proof (induction rule: sys_reach.induct)
  case init
  show ?case by (simp add: shutdown_inv_def sys_new_def)
next
  case (step s s')
  from shutdown_inv_step [OF step.hyps(2) step.IH] show ?case .
qed

section \<open>Properties\<close>

text \<open>
  C17. No worker sleeps through the end. Once \<^verbatim>\<open>shut_down\<close> has cleared \<^verbatim>\<open>running\<close>, every
  worker that is parked has a permit or the unpark that gives it one is still to come in the
  call of some thread; and from then on a worker that is not parked never parks: whatever
  happens next, its step leads to \<open>Park\<close> only from \<open>Park\<close>.
\<close>

theorem shutdown_reaches_every_worker:
  assumes "sys_reach C s" "\<not> up (sh s)" "w < crew C"
  shows "(pl s w = Park \<longrightarrow> permitted (sh s) w \<or> (\<exists>t. Unpark w \<in> set (th s t))) \<and>
    (\<forall>s'. sys_step C s s' \<longrightarrow> \<not> up (sh s') \<and> (pl s' w = Park \<longrightarrow> pl s w = Park))"
proof (intro conjI allI)
  show "pl s w = Park \<longrightarrow> permitted (sh s) w \<or> (\<exists>t. Unpark w \<in> set (th s t))"
    using shutdown_inv_reach [OF assms(1)] assms(2,3) by (auto simp: shutdown_inv_def pending_def)
  show "sys_step C s s' \<longrightarrow> \<not> up (sh s') \<and> (pl s' w = Park \<longrightarrow> pl s w = Park)" for s'
    using down_step [OF _ assms(2)] by blast
qed

definition example_shutdown :: "nat sys" where
  "example_shutdown = the (sys_run example_config (example_moves @ [Call 0 ShutDown, Access (Other 0)]) (sys_new example_config))"

theorem shutdown_reaches_every_worker_witness:
  "pl example_shutdown 0 = Park \<and> \<not> up (sh example_shutdown) \<and> (\<exists>t. Unpark 0 \<in> set (th example_shutdown t))"
proof -
  have "\<not> Option.is_none (sys_run example_config (example_moves @ [Call 0 ShutDown, Access (Other 0)]) (sys_new example_config))"
    by code_simp
  then have "sys_reach example_config example_shutdown"
    using sys_run_reach [OF sys_reach.init] by (auto simp: example_shutdown_def Option.is_none_def)
  moreover have "\<not> up (sh example_shutdown)" "pl example_shutdown 0 = Park" "\<not> permitted (sh example_shutdown) 0"
    by code_simp+
  ultimately show ?thesis
    using shutdown_reaches_every_worker [of example_config example_shutdown 0] by (simp add: example_size)
qed

end
