(* ===== verification/Spec2Isabelle.thy ===== *)
theory Spec2Isabelle
  imports Lifo_Safety Fifo Injector Job Std_Host Pool_Rundown Pool_Handoff Pool_Shutdown
begin

text \<open>
  Work-stealing queues and a worker pool.
\<close>

end
